(* ===== verification/Prelude.thy ===== *)
theory Prelude
  imports Main "HOL-Library.Word" "HOL-Library.Signed_Division"
begin

section \<open>Shared types, automation and list lemmas\<close>

text \<open>
  The C types of the program at their widths, the sum-type view of run-time faults, the
  list facts the buffer models share, and the contract of a delay line (a structure that
  is fed one sample at a time and always shows the last \<open>n\<close> of them), which the FIR filter
  implements.
\<close>

text \<open>The sizes and limits the source defines, unfolded when a bound depends on their values.\<close>

named_theorems c_consts "sizes and limits of the source"

type_synonym s16 = "16 word"
type_synonym u32 = "32 word"
type_synonym u64 = "64 word"

text \<open>
  What can go wrong where C has undefined behaviour or the process ends: an access
  outside an array, a division by zero, an explicit \<open>abort()\<close>, the use of a variable
  that was never written, a null pointer.
\<close>

datatype fault = Out_of_bounds | Div_by_zero | Aborted | Uninitialised | Null_pointer

type_synonym 'a res = "fault + 'a"

definition res_bind :: "'a res \<Rightarrow> ('a \<Rightarrow> 'b res) \<Rightarrow> 'b res" where
  "res_bind r k = (case r of Inl e \<Rightarrow> Inl e | Inr x \<Rightarrow> k x)"

lemma res_bind_simps [simp]:
  "res_bind (Inl e) k = Inl e"
  "res_bind (Inr x) k = k x"
  by (simp_all add: res_bind_def)

lemma res_bind_assoc: "res_bind (res_bind r k) g = res_bind r (\<lambda>x. res_bind (k x) g)"
  by (cases r) auto

lemma res_bind_case_prod: "res_bind (case p of (a, b) \<Rightarrow> k a b) g = (case p of (a, b) \<Rightarrow> res_bind (k a b) g)"
  by (cases p) auto

lemma res_bind_if: "res_bind (if c then r else r') g = (if c then res_bind r g else res_bind r' g)"
  by auto

lemma res_bind_Inr_iff:
  "res_bind r k = Inr y \<longleftrightarrow> (\<exists>x. r = Inr x \<and> k x = Inr y)"
  by (cases r) auto

text \<open>A checked array read and a checked array write.\<close>

definition aget :: "'a list \<Rightarrow> nat \<Rightarrow> 'a res" where
  "aget xs i = (if i < length xs then Inr (xs ! i) else Inl Out_of_bounds)"

definition aset :: "'a list \<Rightarrow> nat \<Rightarrow> 'a \<Rightarrow> 'a list res" where
  "aset xs i x = (if i < length xs then Inr (xs[i := x]) else Inl Out_of_bounds)"

lemma aget_in [simp]: "i < length xs \<Longrightarrow> aget xs i = Inr (xs ! i)"
  by (simp add: aget_def)

lemma aset_in [simp]: "i < length xs \<Longrightarrow> aset xs i x = Inr (xs[i := x])"
  by (simp add: aset_def)

lemma aget_out [simp]: "length xs \<le> i \<Longrightarrow> aget xs i = Inl Out_of_bounds"
  by (simp add: aget_def)

lemma aset_out [simp]: "length xs \<le> i \<Longrightarrow> aset xs i x = Inl Out_of_bounds"
  by (simp add: aset_def)

subsection \<open>The range of a sample\<close>

lemma sint_range16: "- 32768 \<le> sint (x :: s16)" "sint (x :: s16) \<le> 32767"
  using sint_range_size [of x] by (simp_all add: word_size)

lemma sint_of_int16: "- 32768 \<le> i \<Longrightarrow> i \<le> 32767 \<Longrightarrow> sint (word_of_int i :: s16) = i"
  by (simp add: sint_sbintrunc' signed_take_bit_int_eq_self)

lemma abs_sint16: "\<bar>sint (x :: s16)\<bar> \<le> 32768"
  using sint_range16 [of x] by simp

subsection \<open>The last elements of a list\<close>

definition lastn :: "nat \<Rightarrow> 'a list \<Rightarrow> 'a list" where
  "lastn n xs = drop (length xs - n) xs"

lemma length_lastn [simp]: "length (lastn n xs) = min n (length xs)"
  by (auto simp: lastn_def)

lemma lastn_all [simp]: "length xs \<le> n \<Longrightarrow> lastn n xs = xs"
  by (simp add: lastn_def)

lemma lastn_lastn_append [simp]: "lastn n (lastn n xs @ ys) = lastn n (xs @ ys)"
  by (cases "n \<le> length xs") (auto simp: lastn_def add.commute)

lemma lastn_snoc: "length xs = n \<Longrightarrow> lastn n (xs @ [x]) = tl (xs @ [x])"
  by (cases xs) (auto simp: lastn_def)

lemma nth_lastn: "n \<le> length xs \<Longrightarrow> i < n \<Longrightarrow> lastn n xs ! i = xs ! (length xs - n + i)"
  by (simp add: lastn_def)

lemma lastn_lastn: "m \<le> n \<Longrightarrow> lastn m (lastn n xs) = lastn m xs"
  by (cases "n \<le> length xs") (auto simp: lastn_def)

text \<open>A window \<open>[p - n, p)\<close> of an array.\<close>

definition window_at :: "'a list \<Rightarrow> nat \<Rightarrow> nat \<Rightarrow> 'a list" where
  "window_at xs p n = take n (drop (p - n) xs)"

lemma length_window_at [simp]:
  "n \<le> p \<Longrightarrow> p \<le> length xs \<Longrightarrow> length (window_at xs p n) = n"
  by (simp add: window_at_def)

lemma nth_window_at:
  "n \<le> p \<Longrightarrow> p \<le> length xs \<Longrightarrow> i < n \<Longrightarrow> window_at xs p n ! i = xs ! (p - n + i)"
  by (simp add: window_at_def)

lemma window_at_step:
  assumes "n \<le> p" "p < length xs"
  shows "window_at (xs[p := x]) (Suc p) n = tl (window_at xs p n @ [x])"
proof (rule nth_equalityI)
  show "length (window_at (xs[p := x]) (Suc p) n) = length (tl (window_at xs p n @ [x]))"
    using assms by simp
next
  fix i assume "i < length (window_at (xs[p := x]) (Suc p) n)"
  then have i: "i < n" using assms by simp
  have "window_at (xs[p := x]) (Suc p) n ! i = xs[p := x] ! (Suc p - n + i)"
    using assms i by (simp add: nth_window_at)
  moreover have "tl (window_at xs p n @ [x]) ! i = (window_at xs p n @ [x]) ! Suc i"
    using assms i by (simp add: nth_tl)
  moreover have "(window_at xs p n @ [x]) ! Suc i = xs[p := x] ! (Suc p - n + i)"
    using assms i by (auto simp: nth_append nth_window_at nth_list_update Suc_diff_le)
  ultimately show "window_at (xs[p := x]) (Suc p) n ! i = tl (window_at xs p n @ [x]) ! i"
    by simp
qed

text \<open>A \<open>memcpy\<close> of the window to the front of the array keeps the window.\<close>

lemma window_at_memcpy:
  assumes "n \<le> p" "p \<le> length xs"
  shows "window_at (window_at xs p n @ ys) n n = window_at xs p n"
  using assms by (simp add: window_at_def)

subsection \<open>The contract of a delay line\<close>

locale delay_line =
  fixes push :: "'s \<Rightarrow> 'a \<Rightarrow> 's"
    and window :: "'s \<Rightarrow> 'a list"
    and ok :: "'s \<Rightarrow> bool"
    and n :: nat
  assumes ok_push: "ok s \<Longrightarrow> ok (push s x)"
    and window_length: "ok s \<Longrightarrow> length (window s) = n"
    and window_push: "ok s \<Longrightarrow> window (push s x) = tl (window s @ [x])"
begin

lemma ok_feed: "ok s \<Longrightarrow> ok (foldl push s xs)"
  by (induction xs arbitrary: s) (auto intro: ok_push)

lemma window_feed: "ok s \<Longrightarrow> window (foldl push s xs) = lastn n (window s @ xs)"
proof (induction xs arbitrary: s)
  case Nil
  then show ?case by (simp add: window_length)
next
  case (Cons x xs)
  have "window (foldl push (push s x) xs) = lastn n (window (push s x) @ xs)"
    using Cons by (simp add: ok_push)
  also have "window (push s x) = lastn n (window s @ [x])"
    using Cons.prems by (simp add: window_push window_length lastn_snoc)
  finally show ?case by simp
qed

end

subsection \<open>Natural numbers kept in a word\<close>

lemma unat_of_nat_u64: "n < 2 ^ 64 \<Longrightarrow> unat (of_nat n :: u64) = n"
  by (simp add: unat_of_nat)

lemma unat_of_nat_u32: "n < 2 ^ 32 \<Longrightarrow> unat (of_nat n :: u32) = n"
  by (simp add: unat_of_nat)

lemma unat_max_u64: "unat (-1 :: u64) = 2 ^ 64 - 1"
  by (simp add: unsigned_minus_1_eq_mask mask_eq_exp_minus_1)

lemma unat_max_u32: "unat (-1 :: u32) = 2 ^ 32 - 1"
  by (simp add: unsigned_minus_1_eq_mask mask_eq_exp_minus_1)

lemma unat_ucast_u32: "unat (ucast (w :: u32) :: u64) = unat w"
proof -
  have "unat w < 2 ^ LENGTH(32)" by (rule unsigned_less)
  then have "unat w < 2 ^ 64" by simp
  then show ?thesis by (simp add: unsigned_ucast_eq take_bit_nat_eq_self)
qed

lemma ucast_of_nat_u32: "n < 2 ^ 32 \<Longrightarrow> ucast (of_nat n :: u64) = (of_nat n :: u32)"
  by (simp add: unsigned_of_nat take_bit_nat_eq_self)

lemma unat_add_u64: "unat a + unat b < 2 ^ 64 \<Longrightarrow> unat (a + b :: u64) = unat a + unat b"
  using unat_add_lem [of a b] by simp

lemma unat_sub_u64: "unat b \<le> unat a \<Longrightarrow> unat (a - b :: u64) = unat a - unat b"
  by (simp add: unat_sub word_le_nat_alt)

end
