(* ===== verification/Fir_filter.thy ===== *)
theory Fir_filter
  imports Prelude
begin

section \<open>The FIR filter (\<open>filter.c\<close>, \<open>filter.h\<close>)\<close>

text \<open>
  The filter keeps its recent input in an array of \<open>BufferLen\<close> slots and works on a
  window of \<open>length\<close> slots that moves to the right; at the end of the array the window
  is copied back to the front. The arithmetic of C floats is a parameter \<open>fops\<close> of the
  model: the lemmas say which operations are applied to which samples in which order, and
  hold for every arithmetic. Here: the data, \<open>filter_init\<close>, \<open>mac\<close>, \<open>filter_run\<close> and
  \<open>filter_run_buf\<close>; that no access leaves an array; that the array shows exactly the
  last \<open>length\<close> inputs (it is a delay line); that the block routine computes what the
  sample routine computes.
\<close>

subsection \<open>Data\<close>

text \<open>
  The float operations the source uses: \<open>0\<close>, \<open>+\<close>, \<open>*\<close>, the conversions between
  \<open>short\<close> and \<open>float\<close>, and a decimal literal \<open>m * 10 ^ e\<close>.
\<close>

record 'f fops =
  f_zero :: 'f
  f_add :: "'f \<Rightarrow> 'f \<Rightarrow> 'f"
  f_mul :: "'f \<Rightarrow> 'f \<Rightarrow> 'f"
  f_of_short :: "s16 \<Rightarrow> 'f"
  f_to_short :: "'f \<Rightarrow> s16"
  f_lit :: "int \<Rightarrow> int \<Rightarrow> 'f"

definition BufferLen :: nat where
  "BufferLen = 1024"

record 'f fir =
  flength :: nat
  taps :: "'f list"
  fbuffer :: "'f list"
  fpointer :: nat

subsection \<open>Operations\<close>

definition filter_init :: "'f fops \<Rightarrow> nat \<Rightarrow> 'f list \<Rightarrow> 'f fir" where
  "filter_init ops len ts =
     \<lparr>flength = len, taps = take len ts, fbuffer = replicate BufferLen (f_zero ops),
      fpointer = len\<rparr>"

text \<open>\<open>for (i = 0; i < size; i++) sum += a[i] * b[i]\<close>\<close>

definition mac :: "'f fops \<Rightarrow> 'f list \<Rightarrow> 'f list \<Rightarrow> nat \<Rightarrow> 'f res" where
  "mac ops a b sz =
     (if sz \<le> length a \<and> sz \<le> length b
      then Inr (foldl (\<lambda>sum i. f_add ops sum (f_mul ops (a ! i) (b ! i))) (f_zero ops) [0..<sz])
      else Inl Out_of_bounds)"

text \<open>
  \<open>memcpy(buffer, buffer + BufferLen - length, length * sizeof(float))\<close>, when the
  pointer has reached the end.
\<close>

definition fir_wrap :: "'f list \<Rightarrow> nat \<Rightarrow> 'f list" where
  "fir_wrap buf len = window_at buf BufferLen len @ drop len buf"

text \<open>The array seen from \<open>buffer + p - length\<close>: an error when that is before the array.\<close>

definition fir_from :: "'f list \<Rightarrow> nat \<Rightarrow> nat \<Rightarrow> 'f list res" where
  "fir_from buf p len = (if len \<le> p then Inr (drop (p - len) buf) else Inl Out_of_bounds)"

definition filter_run :: "'f fops \<Rightarrow> 'f fir \<Rightarrow> 'f \<Rightarrow> ('f fir \<times> 'f) res" where
  "filter_run ops f x =
     res_bind (aset (fbuffer f) (fpointer f) x) (\<lambda>buf.
     res_bind (fir_from buf (fpointer f) (flength f)) (\<lambda>a.
     res_bind (mac ops a (taps f) (flength f)) (\<lambda>y.
       let p = fpointer f + 1
       in if p = BufferLen
          then Inr (f\<lparr>fbuffer := fir_wrap buf (flength f), fpointer := flength f\<rparr>, y)
          else Inr (f\<lparr>fbuffer := buf, fpointer := p\<rparr>, y))))"

text \<open>
  The loop of \<open>filter_run_buf\<close>, with its local copies of the buffer and the pointer.
  The outputs are collected in order; \<open>out\<close> has room for \<open>len\<close> of them.
\<close>

function filter_run_buf_loop ::
  "'f fops \<Rightarrow> 'f list \<Rightarrow> nat \<Rightarrow> s16 list \<Rightarrow> nat \<Rightarrow> nat \<Rightarrow> nat \<Rightarrow> nat \<Rightarrow> s16 \<Rightarrow> s16 list \<Rightarrow>
   nat \<Rightarrow> 'f list \<Rightarrow> ('f list \<times> nat \<times> s16 \<times> s16 list) res"
where
  "filter_run_buf_loop ops ts flen inp step len ind od maxval out pointer buffer =
     (if od < len then
        res_bind (aget inp ind) (\<lambda>x.
        res_bind (aset buffer pointer (f_of_short ops x)) (\<lambda>buffer1.
        let maxval1 = (if sint x > sint maxval then x else maxval) in
        res_bind (fir_from buffer1 pointer flen) (\<lambda>a.
        res_bind (mac ops a ts flen) (\<lambda>y.
        let pointer1 = pointer + 1;
            (pointer2, buffer2) =
              (if pointer1 = BufferLen then (flen, fir_wrap buffer1 flen)
               else (pointer1, buffer1))
        in filter_run_buf_loop ops ts flen inp step len (ind + step) (od + 1) maxval1
             (out @ [f_to_short ops y]) pointer2 buffer2))))
      else Inr (buffer, pointer, maxval, out))"
  by pat_completeness auto
termination
  by (relation "measure (\<lambda>(ops, ts, flen, inp, step, len, ind, od, maxval, out, pointer, buffer). len - od)")
    auto

declare filter_run_buf_loop.simps [simp del]

definition filter_run_buf ::
  "'f fops \<Rightarrow> 'f fir \<Rightarrow> s16 list \<Rightarrow> nat \<Rightarrow> nat \<Rightarrow> ('f fir \<times> s16 list \<times> s16) res"
where
  "filter_run_buf ops f inp step len =
     res_bind (filter_run_buf_loop ops (taps f) (flength f) inp step len 0 0 0 []
                 (fpointer f) (fbuffer f))
       (\<lambda>(buffer, pointer, maxval, out).
          Inr (f\<lparr>fbuffer := buffer, fpointer := pointer\<rparr>, out, maxval))"

subsection \<open>The invariant and the window\<close>

definition fir_ok :: "nat \<Rightarrow> 'f fir \<Rightarrow> bool" where
  "fir_ok n f \<longleftrightarrow> flength f = n \<and> length (taps f) = n \<and> length (fbuffer f) = BufferLen
     \<and> n \<le> fpointer f \<and> fpointer f < BufferLen"

definition fir_window :: "'f fir \<Rightarrow> 'f list" where
  "fir_window f = window_at (fbuffer f) (fpointer f) (flength f)"

text \<open>The effect of one sample on the state.\<close>

definition fir_push :: "'f fir \<Rightarrow> 'f \<Rightarrow> 'f fir" where
  "fir_push f x =
     (let buf = (fbuffer f)[fpointer f := x]
      in if fpointer f + 1 = BufferLen
         then f\<lparr>fbuffer := fir_wrap buf (flength f), fpointer := flength f\<rparr>
         else f\<lparr>fbuffer := buf, fpointer := fpointer f + 1\<rparr>)"

text \<open>The inner product of a window and the taps, in the order of \<open>mac\<close>.\<close>

definition fir_dot :: "'f fops \<Rightarrow> 'f list \<Rightarrow> 'f list \<Rightarrow> 'f" where
  "fir_dot ops ws ts = foldl (\<lambda>s (a, b). f_add ops s (f_mul ops a b)) (f_zero ops) (zip ws ts)"

lemma fir_push_taps [simp]: "taps (fir_push f x) = taps f"
  by (simp add: fir_push_def Let_def)

lemma fir_push_flength [simp]: "flength (fir_push f x) = flength f"
  by (simp add: fir_push_def Let_def)

lemma fir_ok_push: "fir_ok n f \<Longrightarrow> fir_ok n (fir_push f x)"
  by (auto simp: fir_ok_def fir_push_def fir_wrap_def Let_def)

lemma length_fir_window: "fir_ok n f \<Longrightarrow> length (fir_window f) = n"
  by (simp add: fir_ok_def fir_window_def)

lemma fir_window_push:
  assumes "fir_ok n f"
  shows "fir_window (fir_push f x) = tl (fir_window f @ [x])"
proof (cases "fpointer f + 1 = BufferLen")
  case True
  have "window_at (fir_wrap ((fbuffer f)[fpointer f := x]) n) n n
      = window_at ((fbuffer f)[fpointer f := x]) BufferLen n"
    using assms unfolding fir_wrap_def
    by (intro window_at_memcpy) (auto simp: fir_ok_def)
  also have "\<dots> = tl (window_at (fbuffer f) (fpointer f) n @ [x])"
    using window_at_step [of n "fpointer f" "fbuffer f" x] assms True
    by (simp add: fir_ok_def)
  finally show ?thesis
    using assms True by (simp add: fir_window_def fir_push_def Let_def fir_ok_def)
next
  case False
  then show ?thesis
    using window_at_step [of n "fpointer f" "fbuffer f" x] assms
    by (simp add: fir_window_def fir_push_def Let_def fir_ok_def)
qed

interpretation firline: delay_line fir_push fir_window "fir_ok n" n for n
  by unfold_locales (auto intro: fir_ok_push length_fir_window fir_window_push)

lemma fir_ok_init:
  "len < BufferLen \<Longrightarrow> len \<le> length ts \<Longrightarrow> fir_ok len (filter_init ops len ts)"
  by (simp add: fir_ok_def filter_init_def)

lemma fir_window_init:
  "len < BufferLen \<Longrightarrow> fir_window (filter_init ops len ts) = replicate len (f_zero ops)"
  by (simp add: fir_window_def filter_init_def window_at_def)

subsection \<open>One sample\<close>

lemma foldl_upt_zip:
  "length ws = n \<Longrightarrow> length ts = n \<Longrightarrow> n \<le> k \<Longrightarrow>
   foldl (\<lambda>sum i. g sum (ws ! i) (ts ! i)) z [0..<n] = foldl (\<lambda>s (a, b). g s a b) z (zip ws ts)"
proof (induction n arbitrary: ws ts)
  case 0
  then show ?case by simp
next
  case (Suc n)
  obtain ws' w where ws: "ws = ws' @ [w]" "length ws' = n"
    using Suc.prems by (metis length_Suc_conv_rev)
  obtain ts' t where ts: "ts = ts' @ [t]" "length ts' = n"
    using Suc.prems by (metis length_Suc_conv_rev)
  have "foldl (\<lambda>sum i. g sum (ws ! i) (ts ! i)) z [0..<n]
      = foldl (\<lambda>sum i. g sum (ws' ! i) (ts' ! i)) z [0..<n]"
    using ws ts by (intro foldl_cong) (auto simp: nth_append)
  also have "\<dots> = foldl (\<lambda>s (a, b). g s a b) z (zip ws' ts')"
    using Suc.IH ws ts Suc.prems by simp
  finally show ?case using ws ts by (simp add: nth_append)
qed

lemma mac_take:
  assumes "sz \<le> length a" "length b = sz"
  shows "mac ops a b sz = Inr (fir_dot ops (take sz a) b)"
proof -
  have "foldl (\<lambda>sum i. f_add ops sum (f_mul ops (a ! i) (b ! i))) (f_zero ops) [0..<sz]
      = foldl (\<lambda>sum i. f_add ops sum (f_mul ops (take sz a ! i) (b ! i))) (f_zero ops) [0..<sz]"
    by (intro foldl_cong) auto
  also have "\<dots> = fir_dot ops (take sz a) b"
    unfolding fir_dot_def
    by (rule foldl_upt_zip [where g = "\<lambda>s x y. f_add ops s (f_mul ops x y)"]) (use assms in auto)
  finally show ?thesis using assms by (simp add: mac_def)
qed

lemma window_at_update [simp]:
  "n \<le> p \<Longrightarrow> p \<le> k \<Longrightarrow> window_at (xs[k := x]) p n = window_at xs p n"
  by (auto simp: window_at_def drop_update_swap)

text \<open>
  The window the filter multiplies is the one from before the new sample is stored: the
  output lags the input by one sample.
\<close>

lemma fir_read:
  assumes "fir_ok n f"
  shows "aset (fbuffer f) (fpointer f) x = Inr ((fbuffer f)[fpointer f := x])"
    and "fir_from ((fbuffer f)[fpointer f := x]) (fpointer f) (flength f)
       = Inr (drop (fpointer f - flength f) ((fbuffer f)[fpointer f := x]))"
    and "mac ops (drop (fpointer f - flength f) ((fbuffer f)[fpointer f := x])) (taps f) (flength f)
       = Inr (fir_dot ops (fir_window f) (taps f))"
proof -
  show "aset (fbuffer f) (fpointer f) x = Inr ((fbuffer f)[fpointer f := x])"
    using assms by (simp add: fir_ok_def)
  show "fir_from ((fbuffer f)[fpointer f := x]) (fpointer f) (flength f)
     = Inr (drop (fpointer f - flength f) ((fbuffer f)[fpointer f := x]))"
    using assms by (simp add: fir_ok_def fir_from_def)
  have "take (flength f) (drop (fpointer f - flength f) ((fbuffer f)[fpointer f := x])) = fir_window f"
    using window_at_update [of "flength f" "fpointer f" "fpointer f" "fbuffer f" x] assms
    by (simp add: fir_window_def window_at_def fir_ok_def)
  then show "mac ops (drop (fpointer f - flength f) ((fbuffer f)[fpointer f := x])) (taps f) (flength f)
     = Inr (fir_dot ops (fir_window f) (taps f))"
    using assms by (subst mac_take) (auto simp: fir_ok_def)
qed

lemma filter_run_ok:
  assumes "fir_ok n f"
  shows "filter_run ops f x = Inr (fir_push f x, fir_dot ops (fir_window f) (taps f))"
  by (simp add: filter_run_def fir_read [OF assms] fir_push_def Let_def)

subsection \<open>A block of samples\<close>

text \<open>The samples of one channel: every \<open>step\<close>-th of an interleaved block.\<close>

definition channel :: "'a list \<Rightarrow> nat \<Rightarrow> nat \<Rightarrow> 'a list" where
  "channel inp step len = map (\<lambda>k. inp ! (k * step)) [0..<len]"

definition fits :: "'a list \<Rightarrow> nat \<Rightarrow> nat \<Rightarrow> bool" where
  "fits inp step len \<longleftrightarrow> len = 0 \<or> (len - 1) * step < length inp"

lemma length_channel [simp]: "length (channel inp step len) = len"
  by (simp add: channel_def)

lemma nth_channel [simp]: "k < len \<Longrightarrow> channel inp step len ! k = inp ! (k * step)"
  by (simp add: channel_def)

lemma fitsD: "fits inp step len \<Longrightarrow> k < len \<Longrightarrow> k * step < length inp"
proof -
  assume f: "fits inp step len" and k: "k < len"
  then have "k \<le> len - 1" by simp
  then have "k * step \<le> (len - 1) * step" by (rule mult_le_mono1)
  also have "\<dots> < length inp" using f k by (simp add: fits_def)
  finally show ?thesis .
qed

lemma channel_mono: "len \<le> length inp \<Longrightarrow> channel inp 1 len = take len inp"
  by (auto simp: channel_def intro: nth_equalityI)

text \<open>What a run of the filter yields on a list of samples.\<close>

fun fir_outputs :: "'f fops \<Rightarrow> 'f fir \<Rightarrow> s16 list \<Rightarrow> s16 list" where
  "fir_outputs ops f [] = []"
| "fir_outputs ops f (x # xs) =
     f_to_short ops (fir_dot ops (fir_window f) (taps f))
     # fir_outputs ops (fir_push f (f_of_short ops x)) xs"

definition fir_feed :: "'f fops \<Rightarrow> 'f fir \<Rightarrow> s16 list \<Rightarrow> 'f fir" where
  "fir_feed ops f xs = foldl fir_push f (map (f_of_short ops) xs)"

definition peak_from :: "s16 \<Rightarrow> s16 list \<Rightarrow> s16" where
  "peak_from m xs = foldl (\<lambda>m x. if sint x > sint m then x else m) m xs"

lemma length_fir_outputs [simp]: "length (fir_outputs ops f xs) = length xs"
  by (induction xs arbitrary: f) auto

lemma fir_outputs_append:
  "fir_outputs ops f (xs @ ys) = fir_outputs ops f xs @ fir_outputs ops (fir_feed ops f xs) ys"
  by (induction xs arbitrary: f) (auto simp: fir_feed_def)

lemma fir_feed_append: "fir_feed ops f (xs @ ys) = fir_feed ops (fir_feed ops f xs) ys"
  by (simp add: fir_feed_def)

lemma fir_feed_simps [simp]:
  "fir_feed ops f [] = f"
  "fir_feed ops f (x # xs) = fir_feed ops (fir_push f (f_of_short ops x)) xs"
  by (simp_all add: fir_feed_def)

lemma taps_fir_feed [simp]: "taps (fir_feed ops f xs) = taps f"
  by (induction xs arbitrary: f) auto

lemma flength_fir_feed [simp]: "flength (fir_feed ops f xs) = flength f"
  by (induction xs arbitrary: f) auto

lemma fir_ok_feed: "fir_ok n f \<Longrightarrow> fir_ok n (fir_feed ops f xs)"
  unfolding fir_feed_def by (rule firline.ok_feed)

text \<open>Each output is the inner product of the taps with the \<open>n\<close> inputs before it.\<close>

lemma fir_outputs_nth:
  assumes "fir_ok n f" "k < length xs"
  shows "fir_outputs ops f xs ! k =
    f_to_short ops (fir_dot ops (lastn n (fir_window f @ map (f_of_short ops) (take k xs))) (taps f))"
proof -
  have "fir_outputs ops f xs = fir_outputs ops f (take k xs) @ fir_outputs ops (fir_feed ops f (take k xs)) (drop k xs)"
    using fir_outputs_append [of ops f "take k xs" "drop k xs"] by simp
  moreover obtain y ys where "drop k xs = y # ys"
    using assms(2) by (metis Cons_nth_drop_Suc)
  ultimately have "fir_outputs ops f xs ! k =
     f_to_short ops (fir_dot ops (fir_window (fir_feed ops f (take k xs))) (taps f))"
    using assms(2) by (simp add: nth_append)
  moreover have "fir_window (fir_feed ops f (take k xs))
      = lastn n (fir_window f @ map (f_of_short ops) (take k xs))"
    unfolding fir_feed_def by (rule firline.window_feed [OF assms(1)])
  ultimately show ?thesis by simp
qed

lemma filter_run_buf_loop_ok:
  assumes "fir_ok n f" "fits inp step len" "od \<le> len"
    "ts = taps f" "flen = flength f" "pointer = fpointer f" "buffer = fbuffer f" "ind = od * step"
  shows "filter_run_buf_loop ops ts flen inp step len ind od maxval out pointer buffer =
    (let xs = drop od (channel inp step len)
     in Inr (fbuffer (fir_feed ops f xs), fpointer (fir_feed ops f xs), peak_from maxval xs,
             out @ fir_outputs ops f xs))"
  using assms
proof (induction "len - od" arbitrary: od maxval out pointer buffer f ind)
  case 0
  then show ?case
    by (subst filter_run_buf_loop.simps) (simp add: Let_def peak_from_def)
next
  case (Suc d)
  then have od: "od < len" by simp
  let ?x = "inp ! (od * step)"
  let ?f = "fir_push f (f_of_short ops ?x)"
  have drop_od: "drop od (channel inp step len) = ?x # drop (Suc od) (channel inp step len)"
    using od by (metis Cons_nth_drop_Suc length_channel nth_channel)
  have step: "aget inp (od * step) = Inr ?x"
    using fitsD [OF Suc.prems(2) od] by simp
  have IH: "filter_run_buf_loop ops ts flen inp step len (ind + step) (od + 1)
       (if sint ?x > sint maxval then ?x else maxval)
       (out @ [f_to_short ops (fir_dot ops (fir_window f) (taps f))]) (fpointer ?f) (fbuffer ?f) =
    (let xs = drop (od + 1) (channel inp step len)
     in Inr (fbuffer (fir_feed ops ?f xs), fpointer (fir_feed ops ?f xs),
             peak_from (if sint ?x > sint maxval then ?x else maxval) xs,
             (out @ [f_to_short ops (fir_dot ops (fir_window f) (taps f))]) @ fir_outputs ops ?f xs))"
    by (rule Suc.hyps(1)) (use Suc od in \<open>auto intro: fir_ok_push\<close>)
  have unfold: "filter_run_buf_loop ops ts flen inp step len ind od maxval out pointer buffer =
     filter_run_buf_loop ops ts flen inp step len (ind + step) (od + 1)
       (if sint ?x > sint maxval then ?x else maxval)
       (out @ [f_to_short ops (fir_dot ops (fir_window f) (taps f))]) (fpointer ?f) (fbuffer ?f)"
    using Suc.prems od
    by (subst filter_run_buf_loop.simps)
      (simp add: step fir_read [OF Suc.prems(1)] fir_push_def Let_def split del: if_split,
       cases "fpointer f + 1 = BufferLen", simp_all)
  show ?case
    unfolding unfold IH by (simp add: drop_od Let_def peak_from_def)
qed

lemma filter_run_buf_ok:
  assumes "fir_ok n f" "fits inp step len"
  shows "filter_run_buf ops f inp step len =
    Inr (fir_feed ops f (channel inp step len), fir_outputs ops f (channel inp step len),
         peak_from 0 (channel inp step len))"
proof -
  have same: "f'\<lparr>fbuffer := fbuffer g, fpointer := fpointer g\<rparr> = g"
    if "taps g = taps f'" "flength g = flength f'" for f' g :: "'a fir"
    using that by simp
  show ?thesis
    unfolding filter_run_buf_def
    by (subst filter_run_buf_loop_ok [OF assms, where od = 0]) (auto simp: Let_def intro: same)
qed

section \<open>Properties\<close>

text \<open>Integer arithmetic in the place of \<open>float\<close>, to evaluate examples.\<close>

definition int_fops :: "int fops" where
  "int_fops = \<lparr>f_zero = 0, f_add = (+), f_mul = (*), f_of_short = sint, f_to_short = word_of_int, f_lit = (\<lambda>m e. m)\<rparr>"

text \<open>C17. Filtering a block gives, for every sample, the inner product of the taps with the
  \<open>n\<close> samples before it, across the borders of blocks and the wrap-around of the buffer;
  it leaves a well-formed filter that remembers those samples, and reports the peak.\<close>

theorem filter_block_output:
  assumes "fir_ok n f" "fits inp step len"
  shows "filter_run_buf ops f inp step len =
      Inr (fir_feed ops f (channel inp step len),
           map (\<lambda>k. f_to_short ops (fir_dot ops
                  (lastn n (fir_window f @ map (f_of_short ops) (take k (channel inp step len)))) (taps f))) [0..<len],
           peak_from 0 (channel inp step len))
    \<and> fir_ok n (fir_feed ops f (channel inp step len))
    \<and> fir_window (fir_feed ops f (channel inp step len))
        = lastn n (fir_window f @ map (f_of_short ops) (channel inp step len))"
proof (intro conjI)
  have "fir_outputs ops f (channel inp step len) = map (\<lambda>k. f_to_short ops (fir_dot ops
      (lastn n (fir_window f @ map (f_of_short ops) (take k (channel inp step len)))) (taps f))) [0..<len]"
    by (rule nth_equalityI) (simp_all add: fir_outputs_nth [OF assms(1)])
  then show "filter_run_buf ops f inp step len =
      Inr (fir_feed ops f (channel inp step len),
           map (\<lambda>k. f_to_short ops (fir_dot ops
                  (lastn n (fir_window f @ map (f_of_short ops) (take k (channel inp step len)))) (taps f))) [0..<len],
           peak_from 0 (channel inp step len))"
    by (simp only: filter_run_buf_ok [OF assms])
  show "fir_ok n (fir_feed ops f (channel inp step len))"
    by (rule fir_ok_feed [OF assms(1)])
  show "fir_window (fir_feed ops f (channel inp step len))
        = lastn n (fir_window f @ map (f_of_short ops) (channel inp step len))"
    unfolding fir_feed_def by (rule firline.window_feed [OF assms(1)])
qed

theorem filter_block_output_witness:
  "\<exists>f. filter_run_buf int_fops (filter_init int_fops 2 [1, 1]) [5, 7, 9] 1 3 = Inr (f, [0, 5, 12], 9) \<and> fir_ok 2 f"
proof -
  have ok: "fir_ok 2 (filter_init int_fops 2 [1, 1])" by (rule fir_ok_init) (simp_all add: BufferLen_def)
  have fit: "fits [5, 7, 9 :: s16] 1 3" by (simp add: fits_def)
  have w: "fir_window (filter_init int_fops 2 [1, 1]) = [0, 0]"
    using fir_window_init [of 2 int_fops "[1, 1]"] by (simp add: BufferLen_def int_fops_def numeral_2_eq_2)
  have c: "channel [5, 7, 9 :: s16] 1 3 = [5, 7, 9]" by (simp add: channel_def upt_rec)
  have t: "taps (filter_init int_fops 2 [1, 1]) = [1, 1]" by (simp add: filter_init_def)
  show ?thesis
    using filter_block_output [OF ok fit, of int_fops] unfolding c w t
    by (simp add: upt_rec lastn_def fir_dot_def int_fops_def peak_from_def)
qed

end
