(* ===== verification/Fingerpori.thy ===== *)
theory Fingerpori
  imports Prelude
begin

section \<open>Fingerprint files (\<open>fingerpori.c\<close>)\<close>

text \<open>
  The moving average that smooths samples, the two amplitude statistics, the test on file
  names and the loader that fills the list of fingerprints. The file system is a
  parameter, and so are the values C leaves undefined: the uninitialised \<open>sum\<close>, the
  contents of fresh memory and the memory behind the sample array (\<open>slack\<close>).
\<close>

subsection \<open>The moving average\<close>

definition FILTER_AVG_LEN :: nat where
  "FILTER_AVG_LEN = 24"

text \<open>\<open>for (d = i - FILTER_AVG_LEN + 1; d <= i; d++) sum += src[d]\<close>\<close>

definition avg_sum :: "s16 list \<Rightarrow> nat \<Rightarrow> int" where
  "avg_sum src i = foldl (\<lambda>sum d. sum + sint (src ! d)) 0 [i - FILTER_AVG_LEN + 1..<i + 1]"

function sample_filter_avg_loop :: "s16 list \<Rightarrow> s16 list \<Rightarrow> nat \<Rightarrow> nat \<Rightarrow> (s16 list \<times> nat) res" where
  "sample_filter_avg_loop dst src len i =
     (if i < len then
        if i < length src then
          res_bind (aset dst (i - FILTER_AVG_LEN)
                      (word_of_int (avg_sum src i sdiv int FILTER_AVG_LEN)))
            (\<lambda>dst1. sample_filter_avg_loop dst1 src len (i + 1))
        else Inl Out_of_bounds
      else Inr (dst, i - FILTER_AVG_LEN))"
  by pat_completeness auto
termination
  by (relation "measure (\<lambda>(dst, src, len, i). len - i)") auto

declare sample_filter_avg_loop.simps [simp del]

definition sample_filter_avg :: "s16 list \<Rightarrow> s16 list \<Rightarrow> nat \<Rightarrow> (s16 list \<times> nat) res" where
  "sample_filter_avg dst src len = sample_filter_avg_loop dst src len FILTER_AVG_LEN"

text \<open>The value stored for position \<open>i\<close>.\<close>

definition avg_at :: "s16 list \<Rightarrow> nat \<Rightarrow> s16" where
  "avg_at src i = word_of_int (avg_sum src i sdiv int FILTER_AVG_LEN)"

text \<open>What the whole call leaves in the destination.\<close>

definition smoothed :: "s16 list \<Rightarrow> nat \<Rightarrow> s16 list" where
  "smoothed src len = map (\<lambda>k. avg_at src (k + FILTER_AVG_LEN)) [0..<len - FILTER_AVG_LEN]"

lemma length_smoothed [simp]: "length (smoothed src len) = len - FILTER_AVG_LEN"
  by (simp add: smoothed_def)

lemma sample_filter_avg_loop_ok:
  assumes "len \<le> length src" "len - FILTER_AVG_LEN \<le> length dst" "FILTER_AVG_LEN \<le> i" "i \<le> max len FILTER_AVG_LEN"
  shows "sample_filter_avg_loop dst src len i =
    Inr (take (i - FILTER_AVG_LEN) dst @ drop (i - FILTER_AVG_LEN) (smoothed src len)
           @ drop (len - FILTER_AVG_LEN) dst,
         len - FILTER_AVG_LEN)"
  using assms
proof (induction "len - i" arbitrary: dst i)
  case 0
  then have "i - FILTER_AVG_LEN = len - FILTER_AVG_LEN" and "\<not> i < len" by auto
  with 0 show ?case by (subst sample_filter_avg_loop.simps) simp
next
  case (Suc n)
  define j where "j = i - FILTER_AVG_LEN"
  have i: "i < len" "i < length src" and ij: "i = j + FILTER_AVG_LEN"
    using Suc j_def by auto
  have j: "j < length dst" "j < len - FILTER_AVG_LEN"
    using i ij Suc.prems by auto
  have IH: "sample_filter_avg_loop (dst[j := avg_at src i]) src len (i + 1) =
    Inr (take (Suc j) (dst[j := avg_at src i]) @ drop (Suc j) (smoothed src len)
           @ drop (len - FILTER_AVG_LEN) dst, len - FILTER_AVG_LEN)"
    using Suc.hyps(1) [of "i + 1" "dst[j := avg_at src i]"] Suc.hyps(2) Suc.prems i ij j
    by (simp add: Suc_diff_le)
  have "smoothed src len ! j = avg_at src i"
    using j ij by (simp add: smoothed_def)
  then have "drop j (smoothed src len) = avg_at src i # drop (Suc j) (smoothed src len)"
    using j by (metis Cons_nth_drop_Suc length_smoothed)
  moreover have "take (Suc j) (dst[j := avg_at src i]) = take j dst @ [avg_at src i]"
    using j by (simp add: take_Suc_conv_app_nth)
  moreover have "sample_filter_avg_loop dst src len i
      = sample_filter_avg_loop (dst[j := avg_at src i]) src len (i + 1)"
    using i j by (subst sample_filter_avg_loop.simps) (simp add: j_def avg_at_def)
  ultimately show ?case
    using IH by (simp add: j_def)
qed

lemma sample_filter_avg_ok:
  assumes "len \<le> length src" "len - FILTER_AVG_LEN \<le> length dst"
  shows "sample_filter_avg dst src len =
    Inr (smoothed src len @ drop (len - FILTER_AVG_LEN) dst, len - FILTER_AVG_LEN)"
  unfolding sample_filter_avg_def
  by (subst sample_filter_avg_loop_ok) (use assms in auto)

text \<open>
  The sum of the window, its bounds, and that the division brings it back into the range
  of a sample: nothing wraps.
\<close>

lemma foldl_add_sum: "foldl (\<lambda>s d. s + (f d :: int)) a xs = a + sum_list (map f xs)"
  by (induction xs arbitrary: a) auto

lemma avg_sum_eq: "avg_sum src i = (\<Sum>d\<leftarrow>[i - FILTER_AVG_LEN + 1..<i + 1]. sint (src ! d))"
  by (simp add: avg_sum_def foldl_add_sum)

lemma sum_list_between:
  fixes f :: "nat \<Rightarrow> int"
  assumes "\<And>d. d \<in> set xs \<Longrightarrow> lo \<le> f d \<and> f d \<le> hi"
  shows "int (length xs) * lo \<le> sum_list (map f xs) \<and> sum_list (map f xs) \<le> int (length xs) * hi"
  using assms
proof (induction xs)
  case (Cons x xs)
  then have "lo \<le> f x" "f x \<le> hi"
    and "int (length xs) * lo \<le> sum_list (map f xs)" "sum_list (map f xs) \<le> int (length xs) * hi"
    by auto
  then show ?case by (simp add: algebra_simps)
qed simp

lemma sdiv_between:
  fixes s :: int
  assumes "int n * lo \<le> s" "s \<le> int n * hi" "0 < n"
  shows "lo \<le> s sdiv int n \<and> s sdiv int n \<le> hi"
proof (cases "0 \<le> s")
  case True
  then have "s sdiv int n = s div int n"
    using assms(3) by (simp add: signed_divide_int_def sgn_if)
  moreover have "s div int n \<le> hi"
    using assms by (metis mult.commute nonzero_mult_div_cancel_left of_nat_0_less_iff order_less_irrefl zdiv_mono1)
  moreover have "lo \<le> s div int n"
    using assms by (metis mult.commute nonzero_mult_div_cancel_left of_nat_0_less_iff order_less_irrefl zdiv_mono1)
  ultimately show ?thesis by simp
next
  case False
  then have eq: "s sdiv int n = - (- s div int n)"
    using assms(3) by (simp add: signed_divide_int_def sgn_if)
  have "int n * (- hi) \<le> - s" "- s \<le> int n * (- lo)"
    using assms by auto
  then have "- hi \<le> - s div int n" "- s div int n \<le> - lo"
    using assms(3) by (metis mult.commute nonzero_mult_div_cancel_left of_nat_0_less_iff order_less_irrefl zdiv_mono1)+
  then show ?thesis using eq by simp
qed

lemma avg_at_between:
  assumes "FILTER_AVG_LEN \<le> i"
    and "\<And>d. i - FILTER_AVG_LEN < d \<Longrightarrow> d \<le> i \<Longrightarrow> lo \<le> sint (src ! d) \<and> sint (src ! d) \<le> hi"
    and "- 32768 \<le> lo" "hi \<le> 32767"
  shows "sint (avg_at src i) = avg_sum src i sdiv int FILTER_AVG_LEN"
    and "lo \<le> sint (avg_at src i)" and "sint (avg_at src i) \<le> hi"
proof -
  let ?xs = "[i - FILTER_AVG_LEN + 1..<i + 1]"
  have len: "length ?xs = FILTER_AVG_LEN" using assms(1) by (simp add: FILTER_AVG_LEN_def)
  have "int (length ?xs) * lo \<le> (\<Sum>d\<leftarrow>?xs. sint (src ! d)) \<and> (\<Sum>d\<leftarrow>?xs. sint (src ! d)) \<le> int (length ?xs) * hi"
    by (rule sum_list_between) (use assms(2) in \<open>auto simp: Suc_le_eq\<close>)
  then have "int FILTER_AVG_LEN * lo \<le> avg_sum src i \<and> avg_sum src i \<le> int FILTER_AVG_LEN * hi"
    by (simp only: avg_sum_eq len)
  then have b: "lo \<le> avg_sum src i sdiv int FILTER_AVG_LEN \<and> avg_sum src i sdiv int FILTER_AVG_LEN \<le> hi"
    by (intro sdiv_between) (auto simp: FILTER_AVG_LEN_def)
  then show eq: "sint (avg_at src i) = avg_sum src i sdiv int FILTER_AVG_LEN"
    unfolding avg_at_def using assms(3,4) by (intro sint_of_int16) auto
  show "lo \<le> sint (avg_at src i)" "sint (avg_at src i) \<le> hi"
    using b eq by auto
qed

subsection \<open>The amplitude statistics\<close>

text \<open>Both loops read \<open>src[len]\<close>, whatever \<open>i\<close> is; \<open>sum\<close> starts uninitialised.\<close>

function sample_amplitude_sum_loop :: "s16 list \<Rightarrow> nat \<Rightarrow> nat \<Rightarrow> u64 \<Rightarrow> u64 res" where
  "sample_amplitude_sum_loop src len i acc =
     (if i < len then
        res_bind (aget src len) (\<lambda>v.
          sample_amplitude_sum_loop src len (i + 1) (acc + word_of_int \<bar>sint v\<bar>))
      else Inr acc)"
  by pat_completeness auto
termination
  by (relation "measure (\<lambda>(src, len, i, acc). len - i)") auto

function sample_amplitude_max_loop :: "s16 list \<Rightarrow> nat \<Rightarrow> nat \<Rightarrow> u64 \<Rightarrow> u64 res" where
  "sample_amplitude_max_loop src len i peak =
     (if i < len then
        res_bind (aget src len) (\<lambda>v.
          let a = word_of_int \<bar>sint v\<bar>
          in sample_amplitude_max_loop src len (i + 1) (if a > peak then a else peak))
      else Inr peak)"
  by pat_completeness auto
termination
  by (relation "measure (\<lambda>(src, len, i, peak). len - i)") auto

declare sample_amplitude_sum_loop.simps [simp del] sample_amplitude_max_loop.simps [simp del]

definition sample_amplitude_sum :: "u64 \<Rightarrow> s16 list \<Rightarrow> nat \<Rightarrow> u64 res" where
  "sample_amplitude_sum uninit src len = sample_amplitude_sum_loop src len 0 uninit"

definition sample_amplitude_max :: "s16 list \<Rightarrow> nat \<Rightarrow> u64 res" where
  "sample_amplitude_max src len = sample_amplitude_max_loop src len 0 0"

lemma sample_amplitude_sum_out:
  "0 < len \<Longrightarrow> length src \<le> len \<Longrightarrow> sample_amplitude_sum uninit src len = Inl Out_of_bounds"
  unfolding sample_amplitude_sum_def by (subst sample_amplitude_sum_loop.simps) simp

lemma sample_amplitude_sum_0: "sample_amplitude_sum uninit src 0 = Inr uninit"
  unfolding sample_amplitude_sum_def by (subst sample_amplitude_sum_loop.simps) simp

lemma sample_amplitude_max_out:
  "0 < len \<Longrightarrow> length src \<le> len \<Longrightarrow> sample_amplitude_max src len = Inl Out_of_bounds"
  unfolding sample_amplitude_max_def by (subst sample_amplitude_max_loop.simps) simp

lemma sample_amplitude_sum_loop_in:
  "len < length src \<Longrightarrow>
   sample_amplitude_sum_loop src len i s = Inr (s + of_nat (len - i) * word_of_int \<bar>sint (src ! len)\<bar>)"
proof (induction "len - i" arbitrary: i s)
  case 0
  then show ?case by (subst sample_amplitude_sum_loop.simps) simp
next
  case (Suc n)
  then have "i < len" and n: "n = len - (i + 1)" by auto
  moreover have "(of_nat (len - i) :: u64) = 1 + of_nat (len - (i + 1))"
    using Suc.hyps(2) n by (metis of_nat_Suc)
  ultimately show ?case
    using Suc.hyps(1) [OF n Suc.prems, of "s + word_of_int \<bar>sint (src ! len)\<bar>"] Suc.prems
    by (subst sample_amplitude_sum_loop.simps) (simp add: algebra_simps)
qed

lemma sample_amplitude_sum_in:
  "len < length src \<Longrightarrow>
   sample_amplitude_sum uninit src len = Inr (uninit + of_nat len * word_of_int \<bar>sint (src ! len)\<bar>)"
  by (simp add: sample_amplitude_sum_def sample_amplitude_sum_loop_in)

lemma sample_amplitude_max_loop_in:
  "len < length src \<Longrightarrow> i \<le> len \<Longrightarrow>
   sample_amplitude_max_loop src len i p =
     Inr (if i = len then p else max p (word_of_int \<bar>sint (src ! len)\<bar>))"
proof (induction "len - i" arbitrary: i p)
  case 0
  then show ?case by (subst sample_amplitude_max_loop.simps) simp
next
  case (Suc n)
  then show ?case
    by (subst sample_amplitude_max_loop.simps) (auto simp: Let_def max_def)
qed

lemma sample_amplitude_max_in:
  "0 < len \<Longrightarrow> len < length src \<Longrightarrow>
   sample_amplitude_max src len = Inr (word_of_int \<bar>sint (src ! len)\<bar>)"
  by (simp add: sample_amplitude_max_def sample_amplitude_max_loop_in)

subsection \<open>File names\<close>

text \<open>C's \<open>strstr\<close>: the rest of the string from the first occurrence on.\<close>

fun strstr :: "string \<Rightarrow> string \<Rightarrow> string option" where
  "strstr [] pat = (if pat = [] then Some [] else None)"
| "strstr (c # cs) pat =
     (if take (length pat) (c # cs) = pat then Some (c # cs) else strstr cs pat)"

definition raw_ext :: string where
  "raw_ext = ''.raw''"

definition fingerprint_filematch :: "string \<Rightarrow> bool" where
  "fingerprint_filematch d_name =
     (if take 1 d_name = ''.'' then False
      else case strstr d_name raw_ext of None \<Rightarrow> False | Some s \<Rightarrow> length s = 4)"

lemma strstr_Some: "strstr s pat = Some r \<Longrightarrow> \<exists>u. s = u @ r \<and> take (length pat) r = pat"
proof (induction s)
  case (Cons c cs)
  show ?case
  proof (cases "take (length pat) (c # cs) = pat")
    case True
    with Cons.prems have "r = c # cs" by simp
    with True show ?thesis by (intro exI [of _ "[]"]) simp
  next
    case False
    with Cons obtain u where "cs = u @ r" "take (length pat) r = pat" by auto
    then show ?thesis by (intro exI [of _ "c # u"]) simp
  qed
qed (simp split: if_splits)

text \<open>No proper suffix of the extension starts the extension again.\<close>

lemma raw_ext_no_overlap: "take 4 (u @ raw_ext) = raw_ext \<Longrightarrow> length u < 4 \<Longrightarrow> u = []"
  by (cases u rule: list.exhaust; cases "tl u" rule: list.exhaust; cases "tl (tl u)" rule: list.exhaust;
      cases "tl (tl (tl u))" rule: list.exhaust) (simp_all add: raw_ext_def)

lemma length_raw_ext [simp]: "length raw_ext = 4"
  by (simp add: raw_ext_def)

lemma strstr_raw_append: "strstr base raw_ext = None \<Longrightarrow> strstr (base @ raw_ext) raw_ext = Some raw_ext"
proof (induction base)
  case Nil
  then show ?case by (simp add: raw_ext_def)
next
  case (Cons c cs)
  then have nh: "take 4 (c # cs) \<noteq> raw_ext" and none: "strstr cs raw_ext = None"
    by (auto split: if_splits)
  have "take 4 ((c # cs) @ raw_ext) \<noteq> raw_ext"
  proof (cases "4 \<le> length (c # cs)")
    case True
    then have "take 4 ((c # cs) @ raw_ext) = take 4 (c # cs)"
      by (simp only: take_append) simp
    with nh show ?thesis by (simp only: not_False_eq_True)
  next
    case False
    then show ?thesis using raw_ext_no_overlap [of "c # cs"] by auto
  qed
  with Cons.IH [OF none] show ?case by simp
qed

lemma take_pat_length: "take n xs = pat \<Longrightarrow> length pat = n \<Longrightarrow> n \<le> length xs"
  by (metis length_take min.cobounded1)

lemma strstr_append_None: "strstr (u @ r) pat = Some r \<Longrightarrow> pat \<noteq> [] \<Longrightarrow> strstr u pat = None"
proof (induction u)
  case (Cons c cs)
  have ne: "take (length pat) ((c # cs) @ r) \<noteq> pat"
    using Cons.prems by auto
  have "take (length pat) (c # cs) \<noteq> pat"
  proof
    assume eq: "take (length pat) (c # cs) = pat"
    then have "length pat \<le> length (c # cs)" by (rule take_pat_length) simp
    then have "take (length pat) ((c # cs) @ r) = take (length pat) (c # cs)"
      by (simp only: take_append) simp
    with eq ne show False by simp
  qed
  with ne Cons show ?case by simp
qed simp

lemma filematch_iff:
  "fingerprint_filematch name \<longleftrightarrow>
     take 1 name \<noteq> ''.'' \<and> (\<exists>base. name = base @ raw_ext \<and> strstr base raw_ext = None)"
proof
  assume "fingerprint_filematch name"
  then obtain r where r: "strstr name raw_ext = Some r" "length r = 4" and d: "take 1 name \<noteq> ''.''"
    by (auto simp: fingerprint_filematch_def split: if_splits option.splits)
  from strstr_Some [OF r(1)] r(2) obtain u where u: "name = u @ raw_ext" "r = raw_ext"
    by auto
  moreover have "strstr u raw_ext = None"
    using strstr_append_None [of u raw_ext raw_ext] r(1) u by (auto simp: raw_ext_def)
  ultimately show "take 1 name \<noteq> ''.'' \<and> (\<exists>base. name = base @ raw_ext \<and> strstr base raw_ext = None)"
    using d by auto
next
  assume "take 1 name \<noteq> ''.'' \<and> (\<exists>base. name = base @ raw_ext \<and> strstr base raw_ext = None)"
  then show "fingerprint_filematch name"
    by (auto simp: fingerprint_filematch_def strstr_raw_append)
qed

subsection \<open>Fingerprints and the loader\<close>

record fingerprint_t =
  fp_name :: string
  fp_samples :: "s16 list"
  fp_len :: nat
  ampl_avg :: u64
  ampl_max :: u32
  loaded :: int

definition fingerprint_alloc :: fingerprint_t where
  "fingerprint_alloc = \<lparr>fp_name = [], fp_samples = [], fp_len = 0, ampl_avg = 0, ampl_max = 0, loaded = 0\<rparr>"

text \<open>
  What the system answers for a path: \<open>open\<close> or \<open>fstat\<close> fails, or the size and what
  \<open>read\<close> returns (\<open>None\<close>: an error; otherwise the bytes it delivered).
\<close>

datatype io_file = Open_fails | Stat_fails | Opened nat "8 word list option"

text \<open>The bytes of memory as \<open>int16_t\<close>s of a little-endian host.\<close>

fun shorts_of_bytes :: "8 word list \<Rightarrow> s16 list" where
  "shorts_of_bytes (lo # hi # bs) = (ucast lo + 256 * ucast hi) # shorts_of_bytes bs"
| "shorts_of_bytes _ = []"

lemma length_shorts_of_bytes [simp]: "length (shorts_of_bytes bs) = length bs div 2"
  by (induction bs rule: shorts_of_bytes.induct) auto

text \<open>
  Values the C code takes from memory it has not written: the start value of
  \<open>sample_amplitude_sum\<close>, the contents of a fresh \<open>tp\<close>, and the samples that happen to
  lie behind \<open>fp->samples\<close> on the heap (\<open>[]\<close> when the block ends at the page).
\<close>

record unwritten =
  u_sum :: u64
  u_heap :: "nat \<Rightarrow> s16"
  u_slack :: "s16 list"

text \<open>\<open>snprintf(fn, fnlen, "%s/%s", d, f)\<close>; the buffer is three bytes longer than both.\<close>

definition fp_path :: "string \<Rightarrow> string \<Rightarrow> string" where
  "fp_path d f = d @ ''/'' @ f"

definition fingerprint_load ::
  "unwritten \<Rightarrow> (string \<Rightarrow> io_file) \<Rightarrow> string \<Rightarrow> string \<Rightarrow> fingerprint_t list \<Rightarrow>
   (int \<times> fingerprint_t list) res"
where
  "fingerprint_load un fs d f fingerprints =
     (let fn = fp_path d f in
      case fs fn of
        Open_fails \<Rightarrow> Inr (-1, fingerprints)
      | Stat_fails \<Rightarrow> Inr (-1, fingerprints)
      | Opened st_size rd \<Rightarrow>
          (case rd of
             None \<Rightarrow> Inr (-1, fingerprints)
           | Some bytes \<Rightarrow>
               if length bytes \<noteq> st_size then Inr (-1, fingerprints)
               else
                 let samples0 = shorts_of_bytes bytes; len0 = st_size div 2 in
                 res_bind
                   (if strstr fn ''unfiltered'' \<noteq> None
                    then sample_filter_avg (map (u_heap un) [0..<st_size div 2]) samples0 len0
                    else Inr (samples0, len0))
                   (\<lambda>(samples, len).
                 res_bind (sample_amplitude_sum (u_sum un) (samples @ u_slack un) len) (\<lambda>total.
                 if len = 0 then Inl Div_by_zero
                 else
                 res_bind (sample_amplitude_max (samples @ u_slack un) len) (\<lambda>peak.
                 let fp = fingerprint_alloc\<lparr>fp_name := f, fp_samples := samples, fp_len := len,
                            ampl_avg := total div of_nat len, ampl_max := ucast peak\<rparr>
                 in Inr (0, fp # fingerprints))))))"

fun load_from :: "unwritten \<Rightarrow> (string \<Rightarrow> io_file) \<Rightarrow> string \<Rightarrow> string list \<Rightarrow> fingerprint_t list \<Rightarrow>
   fingerprint_t list res"
where
  "load_from un fs dir [] fps = Inr fps"
| "load_from un fs dir (f # names) fps =
     res_bind (fingerprint_load un fs dir f fps) (\<lambda>(ret, fps1). load_from un fs dir names fps1)"

text \<open>
  \<open>scandir\<close> hands back the matching names sorted by \<open>alphasort\<close> (a parameter), and
  \<open>while (n--)\<close> walks them from the last to the first. \<open>None\<close>: the directory cannot be
  read.
\<close>

definition fingerprints_load ::
  "unwritten \<Rightarrow> (string \<Rightarrow> io_file) \<Rightarrow> (string list \<Rightarrow> string list) \<Rightarrow> string list option \<Rightarrow>
   string \<Rightarrow> fingerprint_t list \<Rightarrow> (int \<times> fingerprint_t list) res"
where
  "fingerprints_load un fs alphasort entries dir fingerprints =
     (case entries of
        None \<Rightarrow> Inr (0, fingerprints)
      | Some es \<Rightarrow>
          let namelist = alphasort (filter fingerprint_filematch es)
          in res_bind (load_from un fs dir (rev namelist) fingerprints) (\<lambda>fps. Inr (0, fps)))"

text \<open>What a file contributes: nothing, one fingerprint, or a fault.\<close>

definition load_one :: "unwritten \<Rightarrow> (string \<Rightarrow> io_file) \<Rightarrow> string \<Rightarrow> string \<Rightarrow> fingerprint_t list res" where
  "load_one un fs d f = res_bind (fingerprint_load un fs d f []) (\<lambda>(ret, fps). Inr fps)"

lemma fingerprint_load_frame:
  "fingerprint_load un fs d f fps =
     res_bind (fingerprint_load un fs d f []) (\<lambda>(ret, new). Inr (ret, new @ fps))"
proof (cases "fs (fp_path d f)")
  case (Opened st_size rd)
  show ?thesis
  proof (cases rd)
    case (Some bytes)
    show ?thesis
      unfolding fingerprint_load_def Opened Some Let_def
      by (simp only: io_file.case option.case res_bind_if res_bind_assoc res_bind_case_prod
          res_bind_simps prod.case append.simps)
  qed (simp add: fingerprint_load_def Opened)
qed (simp_all add: fingerprint_load_def)

lemma fingerprint_load_one:
  "res_bind (fingerprint_load un fs d f fps) (\<lambda>(ret, fps1). k fps1)
     = res_bind (load_one un fs d f) (\<lambda>new. k (new @ fps))"
  by (subst fingerprint_load_frame)
    (simp add: load_one_def res_bind_def split: sum.splits prod.splits)

lemma load_from_ok:
  assumes "\<And>f. f \<in> set names \<Longrightarrow> load_one un fs d f = Inr (new f)"
  shows "load_from un fs d names fps = Inr (concat (map new (rev names)) @ fps)"
  using assms
proof (induction names arbitrary: fps)
  case (Cons f names)
  then show ?case by (simp add: fingerprint_load_one)
qed simp

lemma fingerprints_load_ok:
  assumes "\<And>f. f \<in> set (alphasort (filter fingerprint_filematch es)) \<Longrightarrow> load_one un fs d f = Inr (new f)"
  shows "fingerprints_load un fs alphasort (Some es) d fps =
    Inr (0, concat (map new (alphasort (filter fingerprint_filematch es))) @ fps)"
proof -
  have "load_from un fs d (rev (alphasort (filter fingerprint_filematch es))) fps =
    Inr (concat (map new (rev (rev (alphasort (filter fingerprint_filematch es))))) @ fps)"
    by (rule load_from_ok) (use assms in auto)
  then show ?thesis by (simp add: fingerprints_load_def)
qed

text \<open>The three things a readable file can lead to.\<close>

definition usable_len :: "string \<Rightarrow> nat \<Rightarrow> nat" where
  "usable_len fn st_size =
     (if strstr fn ''unfiltered'' \<noteq> None then st_size div 2 - FILTER_AVG_LEN else st_size div 2)"

lemma filtered_len:
  assumes "length bytes = st_size"
  obtains samples where
    "(if strstr fn ''unfiltered'' \<noteq> None
      then sample_filter_avg (map h [0..<st_size div 2]) (shorts_of_bytes bytes) (st_size div 2)
      else Inr (shorts_of_bytes bytes, st_size div 2)) = Inr (samples, usable_len fn st_size)"
    "length samples = st_size div 2"
    "strstr fn ''unfiltered'' \<noteq> None \<Longrightarrow>
       take (usable_len fn st_size) samples = smoothed (shorts_of_bytes bytes) (st_size div 2)"
    "strstr fn ''unfiltered'' = None \<Longrightarrow> samples = shorts_of_bytes bytes"
proof (cases "strstr fn ''unfiltered'' \<noteq> None")
  case True
  show ?thesis
    by (rule that [of "smoothed (shorts_of_bytes bytes) (st_size div 2)
          @ drop (st_size div 2 - FILTER_AVG_LEN) (map h [0..<st_size div 2])"])
      (use True assms in \<open>auto simp: usable_len_def sample_filter_avg_ok\<close>)
next
  case False
  show ?thesis
    by (rule that [of "shorts_of_bytes bytes"]) (use False assms in \<open>auto simp: usable_len_def\<close>)
qed

lemma fingerprint_load_empty:
  assumes "fs (fp_path d f) = Opened st_size (Some bytes)" "length bytes = st_size"
    and "usable_len (fp_path d f) st_size = 0"
  shows "fingerprint_load un fs d f fps = Inl Div_by_zero"
proof -
  obtain samples where
    "(if strstr (fp_path d f) ''unfiltered'' \<noteq> None
      then sample_filter_avg (map (u_heap un) [0..<st_size div 2]) (shorts_of_bytes bytes) (st_size div 2)
      else Inr (shorts_of_bytes bytes, st_size div 2)) = Inr (samples, 0)"
    using filtered_len [OF assms(2), of "fp_path d f" "u_heap un"] assms(3) by metis
  then show ?thesis
    using assms(1,2) by (simp only: fingerprint_load_def Let_def) (simp add: sample_amplitude_sum_0)
qed

lemma fingerprint_load_success:
  assumes src: "fs (fp_path d f) = Opened st_size (Some bytes)" "length bytes = st_size"
    and len: "usable_len (fp_path d f) st_size > 0"
    and slack: "strstr (fp_path d f) ''unfiltered'' \<noteq> None \<or> u_slack un \<noteq> []"
  obtains fp where "fingerprint_load un fs d f fps = Inr (0, fp # fps)"
    "fp_name fp = f" "fp_len fp = usable_len (fp_path d f) st_size"
    "length (fp_samples fp) = st_size div 2"
    "take (fp_len fp) (fp_samples fp) =
       (if strstr (fp_path d f) ''unfiltered'' \<noteq> None
        then smoothed (shorts_of_bytes bytes) (st_size div 2) else shorts_of_bytes bytes)"
proof -
  let ?l = "usable_len (fp_path d f) st_size"
  obtain samples where s:
    "(if strstr (fp_path d f) ''unfiltered'' \<noteq> None
      then sample_filter_avg (map (u_heap un) [0..<st_size div 2]) (shorts_of_bytes bytes) (st_size div 2)
      else Inr (shorts_of_bytes bytes, st_size div 2)) = Inr (samples, ?l)"
    "length samples = st_size div 2"
    "strstr (fp_path d f) ''unfiltered'' \<noteq> None \<Longrightarrow>
       take ?l samples = smoothed (shorts_of_bytes bytes) (st_size div 2)"
    "strstr (fp_path d f) ''unfiltered'' = None \<Longrightarrow> samples = shorts_of_bytes bytes"
    using filtered_len [OF src(2), of "fp_path d f" "u_heap un"] by metis
  have in_range: "?l < length (samples @ u_slack un)"
  proof (cases "strstr (fp_path d f) ''unfiltered'' \<noteq> None")
    case True
    then show ?thesis using s(2) len by (simp add: usable_len_def FILTER_AVG_LEN_def)
  next
    case False
    then show ?thesis using s(2) slack by (simp add: usable_len_def)
  qed
  define fp where "fp = fingerprint_alloc\<lparr>fp_name := f, fp_samples := samples, fp_len := ?l,
     ampl_avg := (u_sum un + of_nat ?l * word_of_int \<bar>sint ((samples @ u_slack un) ! ?l)\<bar>) div of_nat ?l,
     ampl_max := ucast (word_of_int \<bar>sint ((samples @ u_slack un) ! ?l)\<bar> :: u64)\<rparr>"
  have "fingerprint_load un fs d f fps = Inr (0, fp # fps)"
    using src len in_range s(1)
    by (simp only: fingerprint_load_def Let_def io_file.case option.case)
      (simp add: sample_amplitude_sum_in sample_amplitude_max_in fp_def)
  then show thesis
    by (rule that) (use s in \<open>auto simp: fp_def fingerprint_alloc_def usable_len_def\<close>)
qed

lemma fingerprint_load_overread:
  assumes src: "fs (fp_path d f) = Opened st_size (Some bytes)" "length bytes = st_size"
    and "2 \<le> st_size" "strstr (fp_path d f) ''unfiltered'' = None" "u_slack un = []"
  shows "fingerprint_load un fs d f fps = Inl Out_of_bounds"
proof -
  have "sample_amplitude_sum (u_sum un) (shorts_of_bytes bytes) (st_size div 2) = Inl Out_of_bounds"
    by (rule sample_amplitude_sum_out) (use assms in auto)
  then show ?thesis
    using assms by (simp add: fingerprint_load_def)
qed

section \<open>Properties\<close>





text \<open>C23. A readable file with no usable samples (an empty one, or an unfiltered one of at most
  24 samples) makes the loader divide by zero.\<close>

theorem load_empty_divides_by_zero:
  assumes "fs (fp_path d f) = Opened st_size (Some bytes)" "length bytes = st_size"
    and "usable_len (fp_path d f) st_size = 0"
  shows "fingerprint_load un fs d f fps = Inl Div_by_zero"
  by (rule fingerprint_load_empty [where fs = fs and d = d and f = f, OF assms])

theorem load_empty_divides_by_zero_witness:
  "fingerprint_load \<lparr>u_sum = 0, u_heap = \<lambda>_. 0, u_slack = []\<rparr> (\<lambda>p. Opened 0 (Some [])) ''d'' ''a.raw'' [] = Inl Div_by_zero"
  using load_empty_divides_by_zero [of "\<lambda>p. Opened 0 (Some [])" "''d''" "''a.raw''" 0 "[]"
      "\<lparr>u_sum = 0, u_heap = \<lambda>_. 0, u_slack = []\<rparr>" "[]"]
  by (simp add: usable_len_def)

text \<open>Loading a directory adds, in front of what is there, what each matching file yields,
  in sorted order of the names, whatever the files are, as long as each one loads.\<close>

lemma directory_load:
  assumes "\<And>f. f \<in> set (alphasort (filter fingerprint_filematch es)) \<Longrightarrow> load_one un fs d f = Inr (new f)"
  shows "fingerprints_load un fs alphasort (Some es) d fps =
    Inr (0, concat (map new (alphasort (filter fingerprint_filematch es))) @ fps)"
  by (rule fingerprints_load_ok [OF assms])

lemma directory_load_example:
  "fingerprints_load \<lparr>u_sum = 0, u_heap = \<lambda>_. 0, u_slack = []\<rparr> (\<lambda>p. Open_fails) rev (Some [''a.raw'', ''b.txt'']) ''d'' [] = Inr (0, [])"
proof -
  have "load_one un (\<lambda>p. Open_fails) ''d'' f = Inr []" for un f
    by (simp add: load_one_def fingerprint_load_def)
  then show ?thesis
    using directory_load [of rev "[''a.raw'', ''b.txt'']" "\<lparr>u_sum = 0, u_heap = \<lambda>_. 0, u_slack = []\<rparr>"
        "\<lambda>p. Open_fails" "''d''" "\<lambda>f. []" "[]"] by simp
qed

end
