(* ===== verification/Cstrings.thy ===== *)
theory Cstrings
  imports Prelude
begin

section \<open>Characters, C strings and decimal numbers\<close>

text \<open>
  The parts of \<open><ctype.h>\<close>, \<open><string.h>\<close> and \<open><stdlib.h>\<close> the sources use, for the
  C locale. A C string is the list of its bytes without the terminating NUL.
\<close>

subsection \<open>Characters\<close>

abbreviation ch :: "char \<Rightarrow> nat" where
  "ch c \<equiv> of_char c"

definition c_isdigit :: "char \<Rightarrow> bool" where
  "c_isdigit c \<longleftrightarrow> 48 \<le> ch c \<and> ch c \<le> 57"

definition c_isspace :: "char \<Rightarrow> bool" where
  "c_isspace c \<longleftrightarrow> ch c = 32 \<or> 9 \<le> ch c \<and> ch c \<le> 13"

definition c_tolower :: "char \<Rightarrow> char" where
  "c_tolower c = (if 65 \<le> ch c \<and> ch c \<le> 90 then char_of (ch c + 32) else c)"

definition c_toupper :: "char \<Rightarrow> char" where
  "c_toupper c = (if 97 \<le> ch c \<and> ch c \<le> 122 then char_of (ch c - 32) else c)"

lemma ch_less [simp]: "ch c < 256"
  by (cases c) (simp add: of_char_def horner_sum_simps)

lemma ch_char_of [simp]: "n < 256 \<Longrightarrow> ch (char_of n) = n"
  by simp

lemma ch_inj: "ch c = ch d \<longleftrightarrow> c = d"
  by (metis char_of_char)

lemma ch_tolower: "ch (c_tolower c) = (if 65 \<le> ch c \<and> ch c \<le> 90 then ch c + 32 else ch c)"
  by (simp add: c_tolower_def)

lemma ch_toupper: "ch (c_toupper c) = (if 97 \<le> ch c \<and> ch c \<le> 122 then ch c - 32 else ch c)"
  by (simp add: c_toupper_def less_imp_diff_less)

lemma c_tolower_idem [simp]: "c_tolower (c_tolower c) = c_tolower c"
  by (subst ch_inj [symmetric]) (simp add: ch_tolower)

lemma c_toupper_idem [simp]: "c_toupper (c_toupper c) = c_toupper c"
  by (subst ch_inj [symmetric]) (auto simp: ch_toupper)

subsection \<open>Comparison without case\<close>

definition strcasecmp_eq :: "string \<Rightarrow> string \<Rightarrow> bool" where
  "strcasecmp_eq s t \<longleftrightarrow> map c_tolower s = map c_tolower t"

text \<open>\<open>strncasecmp(s, t, n) == 0\<close>\<close>

definition strncasecmp_eq :: "string \<Rightarrow> string \<Rightarrow> nat \<Rightarrow> bool" where
  "strncasecmp_eq s t n \<longleftrightarrow> map c_tolower (take n s) = map c_tolower (take n t)"

lemma strcasecmp_refl [simp]: "strcasecmp_eq s s"
  by (simp add: strcasecmp_eq_def)

lemma strcasecmp_sym: "strcasecmp_eq s t = strcasecmp_eq t s"
  by (auto simp: strcasecmp_eq_def)

lemma strcasecmp_trans: "strcasecmp_eq s t \<Longrightarrow> strcasecmp_eq t u \<Longrightarrow> strcasecmp_eq s u"
  by (simp add: strcasecmp_eq_def)

lemma strcasecmp_lower [simp]: "strcasecmp_eq (map c_tolower s) t = strcasecmp_eq s t"
  by (simp add: strcasecmp_eq_def comp_def)

subsection \<open>Decimal numbers\<close>

definition digit :: "nat \<Rightarrow> char" where
  "digit n = char_of (48 + n)"

fun dec_nat :: "nat \<Rightarrow> string" where
  "dec_nat n = (if n < 10 then [digit n] else dec_nat (n div 10) @ [digit (n mod 10)])"

declare dec_nat.simps [simp del]

text \<open>\<open>%d\<close>, \<open>%ld\<close> and \<open>%.0f\<close> of an integral value\<close>

definition dec_int :: "int \<Rightarrow> string" where
  "dec_int i = (if i < 0 then CHR ''-'' # dec_nat (nat (- i)) else dec_nat (nat i))"

text \<open>\<open>%0<w>d\<close> of a natural number\<close>

definition pad0 :: "nat \<Rightarrow> nat \<Rightarrow> string" where
  "pad0 w n = replicate (w - length (dec_nat n)) (CHR ''0'') @ dec_nat n"

text \<open>The value of a run of digits, most significant first.\<close>

definition digits_val :: "nat \<Rightarrow> string \<Rightarrow> nat" where
  "digits_val acc s = foldl (\<lambda>a c. a * 10 + (ch c - 48)) acc s"

lemma ch_digit [simp]: "n < 10 \<Longrightarrow> ch (digit n) = 48 + n"
  by (simp add: digit_def)

lemma isdigit_digit [simp]: "n < 10 \<Longrightarrow> c_isdigit (digit n)"
  by (simp add: c_isdigit_def)

lemma dec_nat_digits: "c \<in> set (dec_nat n) \<Longrightarrow> c_isdigit c"
proof (induction n rule: dec_nat.induct)
  case (1 n)
  then show ?case by (subst (asm) (2) dec_nat.simps) (auto split: if_splits)
qed

lemma dec_nat_nonempty [simp]: "dec_nat n \<noteq> []"
  by (subst dec_nat.simps) simp

lemma digits_val_append: "digits_val a (s @ t) = digits_val (digits_val a s) t"
  by (simp add: digits_val_def)

lemma digits_val_dec_nat: "digits_val 0 (dec_nat n) = n"
proof (induction n rule: dec_nat.induct)
  case (1 n)
  then show ?case
    by (subst dec_nat.simps) (auto simp: digits_val_append, simp_all add: digits_val_def)
qed

lemma dec_nat_inj: "dec_nat m = dec_nat n \<longleftrightarrow> m = n"
  by (metis digits_val_dec_nat)

lemma length_dec_nat: "length (dec_nat n) \<le> k \<longleftrightarrow> 0 < k \<and> n < 10 ^ k"
proof (induction n arbitrary: k rule: dec_nat.induct)
  case (1 n)
  show ?case
  proof (cases "n < 10")
    case True
    have "n < 10 ^ k" if "0 < k"
      using True that by (cases k) (auto intro: less_le_trans)
    then show ?thesis using True by (subst dec_nat.simps) auto
  next
    case False
    then have "length (dec_nat n) = length (dec_nat (n div 10)) + 1"
      by (subst dec_nat.simps) simp
    moreover have "length (dec_nat (n div 10)) \<le> k - 1 \<longleftrightarrow> 0 < k - 1 \<and> n div 10 < 10 ^ (k - 1)"
      using False "1.IH" by simp
    moreover have "n div 10 < 10 ^ j \<longleftrightarrow> n < 10 ^ Suc j" for j
      by (simp add: div_less_iff_less_mult mult.commute)
    moreover have "k = 1 \<Longrightarrow> \<not> n < 10 ^ k" using False by simp
    moreover have "0 < length (dec_nat (n div 10))" by simp
    ultimately show ?thesis
      by (cases k; cases "k - 1") auto
  qed
qed

lemma length_pad0: "0 < w \<Longrightarrow> n < 10 ^ w \<Longrightarrow> length (pad0 w n) = w"
  using length_dec_nat [of n w] by (simp add: pad0_def)

lemma dec_nat_no_nul: "CHR 0x00 \<notin> set (dec_nat n)"
  using dec_nat_digits [of "CHR 0x00" n] by (auto simp: c_isdigit_def)

text \<open>
  \<open>atoi\<close>: \<open>strtol\<close>, which stops at the ends of \<open>long\<close>, cut down to an \<open>int\<close>.
\<close>

definition c_atoi :: "string \<Rightarrow> int" where
  "c_atoi s0 =
     (let s = dropWhile c_isspace s0;
          neg = (s \<noteq> [] \<and> hd s = CHR ''-'');
          ds = (if s \<noteq> [] \<and> (hd s = CHR ''-'' \<or> hd s = CHR ''+'') then tl s else s);
          v = int (digits_val 0 (takeWhile c_isdigit ds));
          l = (if neg then max (- (2 ^ 63)) (- v) else min (2 ^ 63 - 1) v)
      in sint (word_of_int l :: u32))"

lemma sint_of_int32: "- (2 ^ 31) \<le> i \<Longrightarrow> i < 2 ^ 31 \<Longrightarrow> sint (word_of_int i :: u32) = i"
  by (simp add: sint_sbintrunc' signed_take_bit_int_eq_self)

lemma takeWhile_digits: "takeWhile c_isdigit (dec_nat n @ s) = dec_nat n @ takeWhile c_isdigit s"
  by (rule takeWhile_append2) (rule dec_nat_digits)

lemma hd_dec_nat_digit: "c_isdigit (hd (dec_nat n))"
  by (rule dec_nat_digits [of _ n]) simp

lemma c_atoi_dec_nat: "n < 2 ^ 31 \<Longrightarrow> c_atoi (dec_nat n) = int n"
proof -
  assume n: "n < 2 ^ 31"
  have d: "c_isdigit (hd (dec_nat n))" by (rule hd_dec_nat_digit)
  then have sp: "\<not> c_isspace (hd (dec_nat n))" and sg: "hd (dec_nat n) \<noteq> CHR ''-''" "hd (dec_nat n) \<noteq> CHR ''+''"
    by (auto simp: c_isdigit_def c_isspace_def)
  have dw: "dropWhile c_isspace (dec_nat n) = dec_nat n"
    using sp by (metis dropWhile.simps(2) dec_nat_nonempty list.exhaust_sel)
  have tw: "takeWhile c_isdigit (dec_nat n) = dec_nat n"
    using takeWhile_digits [of n "[]"] by simp
  show ?thesis
    using n sg sint_of_int32 [of "int n", simplified] by (simp add: c_atoi_def dw tw digits_val_dec_nat Let_def)
qed

lemma c_atoi_empty: "c_atoi [] = 0"
  by (simp add: c_atoi_def digits_val_def)

subsection \<open>Broken-down time\<close>

text \<open>
  What \<open>gettimeofday\<close> followed by \<open>gmtime_r\<close> yields: the fields of \<open>struct tm\<close>, for years
  from 1900 on, and the microseconds.
\<close>

record tod =
  tm_year :: nat
  tm_mon :: nat
  tm_mday :: nat
  tm_hour :: nat
  tm_min :: nat
  tm_sec :: nat
  tv_usec :: nat

end
