(* ===== verification/Cjson.thy ===== *)
theory Cjson
  imports Cstrings
begin

section \<open>Building and printing JSON trees (\<open>cJSON.c\<close>, \<open>cJSON.h\<close>)\<close>

text \<open>
  The tree type of the JSON library the program carries, its constructors, the functions
  that add, find, detach and replace items, and the printer. The numbers are those the
  program puts in: integers, which a double holds exactly. The sibling chain
  \<open>next\<close>/\<open>prev\<close> below \<open>child\<close> is a list. The parser is in \<^theory_text>\<open>Cjson_parse\<close>, the
  nodes in memory, with the items that refer to others, are in \<^theory_text>\<open>Cjson_heap\<close>.
\<close>

subsection \<open>The tree\<close>

definition cJSON_False :: nat where "cJSON_False = 0"
definition cJSON_True :: nat where "cJSON_True = 1"
definition cJSON_NULL :: nat where "cJSON_NULL = 2"
definition cJSON_Number :: nat where "cJSON_Number = 3"
definition cJSON_String :: nat where "cJSON_String = 4"
definition cJSON_Array :: nat where "cJSON_Array = 5"
definition cJSON_Object :: nat where "cJSON_Object = 6"

lemmas cJSON_types =
  cJSON_False_def cJSON_True_def cJSON_NULL_def cJSON_Number_def cJSON_String_def
  cJSON_Array_def cJSON_Object_def

datatype cJSON = CJSON (jtype: nat) (jchild: "cJSON list") (jvaluestring: "string option")
  (jvalue: int) (jstring: "string option")

definition cJSON_New_Item :: cJSON where
  "cJSON_New_Item = CJSON 0 [] None 0 None"

definition cJSON_CreateNull :: cJSON where
  "cJSON_CreateNull = CJSON cJSON_NULL [] None 0 None"

definition cJSON_CreateTrue :: cJSON where
  "cJSON_CreateTrue = CJSON cJSON_True [] None 0 None"

definition cJSON_CreateFalse :: cJSON where
  "cJSON_CreateFalse = CJSON cJSON_False [] None 0 None"

definition cJSON_CreateBool :: "int \<Rightarrow> cJSON" where
  "cJSON_CreateBool b = CJSON (if b \<noteq> 0 then cJSON_True else cJSON_False) [] None 0 None"

definition cJSON_CreateNumber :: "int \<Rightarrow> cJSON" where
  "cJSON_CreateNumber num = CJSON cJSON_Number [] None num None"

definition cJSON_CreateString :: "string \<Rightarrow> cJSON" where
  "cJSON_CreateString s = CJSON cJSON_String [] (Some s) 0 None"

definition cJSON_CreateArray :: cJSON where
  "cJSON_CreateArray = CJSON cJSON_Array [] None 0 None"

definition cJSON_CreateObject :: cJSON where
  "cJSON_CreateObject = CJSON cJSON_Object [] None 0 None"

text \<open>Appending walks to the last sibling.\<close>

fun cJSON_AddItemToArray :: "cJSON \<Rightarrow> cJSON \<Rightarrow> cJSON" where
  "cJSON_AddItemToArray (CJSON t c vs v n) item = CJSON t (c @ [item]) vs v n"

fun with_name :: "cJSON \<Rightarrow> string \<Rightarrow> cJSON" where
  "with_name (CJSON t c vs v n) s = CJSON t c vs v (Some s)"

definition cJSON_AddItemToObject :: "cJSON \<Rightarrow> string \<Rightarrow> cJSON \<Rightarrow> cJSON" where
  "cJSON_AddItemToObject object s item = cJSON_AddItemToArray object (with_name item s)"

definition cJSON_AddNumberToObject :: "cJSON \<Rightarrow> string \<Rightarrow> int \<Rightarrow> cJSON" where
  "cJSON_AddNumberToObject object name n = cJSON_AddItemToObject object name (cJSON_CreateNumber n)"

definition cJSON_AddStringToObject :: "cJSON \<Rightarrow> string \<Rightarrow> string \<Rightarrow> cJSON" where
  "cJSON_AddStringToObject object name s = cJSON_AddItemToObject object name (cJSON_CreateString s)"

text \<open>The loop of \<open>cJSON_CreateShortArray\<close>: each new number is hung behind the previous.\<close>

definition cJSON_CreateShortArray :: "s16 list \<Rightarrow> cJSON" where
  "cJSON_CreateShortArray numbers =
     foldl (\<lambda>a n. cJSON_AddItemToArray a (cJSON_CreateNumber (sint n))) cJSON_CreateArray numbers"

subsection \<open>Access\<close>

definition cJSON_GetArraySize :: "cJSON \<Rightarrow> nat" where
  "cJSON_GetArraySize a = length (jchild a)"

fun nth_sibling :: "cJSON list \<Rightarrow> int \<Rightarrow> cJSON option" where
  "nth_sibling [] item = None"
| "nth_sibling (c # cs) item = (if item > 0 then nth_sibling cs (item - 1) else Some c)"

definition cJSON_GetArrayItem :: "cJSON \<Rightarrow> int \<Rightarrow> cJSON option" where
  "cJSON_GetArrayItem a item = nth_sibling (jchild a) item"

text \<open>\<open>cJSON_strcasecmp\<close>: a null name differs from every string.\<close>

definition cJSON_strcasecmp :: "string option \<Rightarrow> string \<Rightarrow> bool" where
  "cJSON_strcasecmp s1 s2 = (case s1 of None \<Rightarrow> False | Some s \<Rightarrow> strcasecmp_eq s s2)"

definition cJSON_GetObjectItem :: "cJSON \<Rightarrow> string \<Rightarrow> cJSON option" where
  "cJSON_GetObjectItem object s = find (\<lambda>c. cJSON_strcasecmp (jstring c) s) (jchild object)"

fun cJSON_DetachItemFromArray :: "cJSON \<Rightarrow> int \<Rightarrow> cJSON \<times> cJSON option" where
  "cJSON_DetachItemFromArray (CJSON t cs vs v n) which =
     (case nth_sibling cs which of
        None \<Rightarrow> (CJSON t cs vs v n, None)
      | Some c \<Rightarrow> (CJSON t (take (nat which) cs @ drop (Suc (nat which)) cs) vs v n, Some c))"

fun cJSON_ReplaceItemInArray :: "cJSON \<Rightarrow> int \<Rightarrow> cJSON \<Rightarrow> cJSON" where
  "cJSON_ReplaceItemInArray (CJSON t cs vs v n) which newitem =
     (case nth_sibling cs which of
        None \<Rightarrow> CJSON t cs vs v n
      | Some c \<Rightarrow> CJSON t (cs[nat which := newitem]) vs v n)"

text \<open>The same by name: the loop counts the siblings it passes.\<close>

fun name_index :: "cJSON list \<Rightarrow> string \<Rightarrow> int \<Rightarrow> int option" where
  "name_index [] s i = None"
| "name_index (c # cs) s i = (if cJSON_strcasecmp (jstring c) s then Some i else name_index cs s (i + 1))"

definition cJSON_DetachItemFromObject :: "cJSON \<Rightarrow> string \<Rightarrow> cJSON \<times> cJSON option" where
  "cJSON_DetachItemFromObject object s =
     (case name_index (jchild object) s 0 of None \<Rightarrow> (object, None) | Some i \<Rightarrow> cJSON_DetachItemFromArray object i)"

definition cJSON_DeleteItemFromArray :: "cJSON \<Rightarrow> int \<Rightarrow> cJSON" where
  "cJSON_DeleteItemFromArray a which = fst (cJSON_DetachItemFromArray a which)"

definition cJSON_DeleteItemFromObject :: "cJSON \<Rightarrow> string \<Rightarrow> cJSON" where
  "cJSON_DeleteItemFromObject object s = fst (cJSON_DetachItemFromObject object s)"

definition cJSON_ReplaceItemInObject :: "cJSON \<Rightarrow> string \<Rightarrow> cJSON \<Rightarrow> cJSON" where
  "cJSON_ReplaceItemInObject object s newitem =
     (case name_index (jchild object) s 0 of None \<Rightarrow> object | Some i \<Rightarrow> cJSON_ReplaceItemInArray object i (with_name newitem s))"

definition cJSON_CreateIntArray :: "int list \<Rightarrow> cJSON" where
  "cJSON_CreateIntArray numbers = foldl (\<lambda>a n. cJSON_AddItemToArray a (cJSON_CreateNumber n)) cJSON_CreateArray numbers"

definition cJSON_CreateStringArray :: "string list \<Rightarrow> cJSON" where
  "cJSON_CreateStringArray strs = foldl (\<lambda>a n. cJSON_AddItemToArray a (cJSON_CreateString n)) cJSON_CreateArray strs"

text \<open>An object is a list of named items of which the first of a name counts, in any case.\<close>

lemma nth_sibling_at: "nth_sibling (us @ c # vs) (int (length us)) = Some c"
  by (induction us) simp_all

lemma name_index_at:
  "\<forall>u\<in>set us. \<not> cJSON_strcasecmp (jstring u) s \<Longrightarrow> cJSON_strcasecmp (jstring c) s \<Longrightarrow>
    name_index (us @ c # vs) s i = Some (i + int (length us))"
  by (induction us arbitrary: i) simp_all

lemma object_by_name:
  assumes "jchild object = us @ c # vs" "\<forall>u\<in>set us. \<not> cJSON_strcasecmp (jstring u) s" "cJSON_strcasecmp (jstring c) s"
  shows "cJSON_GetObjectItem object s = Some c"
    "jchild (cJSON_DeleteItemFromObject object s) = us @ vs"
    "snd (cJSON_DetachItemFromObject object s) = Some c"
    "jchild (cJSON_ReplaceItemInObject object s n) = us @ with_name n s # vs"
proof -
  obtain t w v nm where o: "object = CJSON t (us @ c # vs) w v nm" using assms(1) by (cases object) simp
  have n: "name_index (us @ c # vs) s 0 = Some (int (length us))" using name_index_at [OF assms(2,3), of vs 0] by simp
  have f: "find (\<lambda>c. cJSON_strcasecmp (jstring c) s) (us @ c # vs) = Some c"
    using assms(2,3) by (induction us) simp_all
  show "cJSON_GetObjectItem object s = Some c" by (simp add: cJSON_GetObjectItem_def o f)
  show "jchild (cJSON_DeleteItemFromObject object s) = us @ vs" "snd (cJSON_DetachItemFromObject object s) = Some c"
    "jchild (cJSON_ReplaceItemInObject object s n) = us @ with_name n s # vs"
    by (simp_all add: cJSON_DeleteItemFromObject_def cJSON_DetachItemFromObject_def cJSON_ReplaceItemInObject_def o n
        nth_sibling_at list_update_append)
qed

subsection \<open>Printing\<close>

text \<open>Both branches of \<open>print_number\<close> write an integral value in decimal.\<close>

definition print_number :: "cJSON \<Rightarrow> string" where
  "print_number item = dec_int (jvalue item)"

definition hex_digit :: "nat \<Rightarrow> char" where
  "hex_digit n = (if n < 10 then char_of (48 + n) else char_of (87 + n))"

definition special_chars :: "char list" where
  "special_chars = [CHR 0x22, CHR 0x5C, CHR 0x08, CHR 0x0C, CHR 0x0A, CHR 0x0D, CHR 0x09]"

text \<open>The first pass: how many bytes the escaped characters take.\<close>

fun escaped_len :: "string \<Rightarrow> nat" where
  "escaped_len [] = 0"
| "escaped_len (c # cs) =
     (if c = CHR 0x00 then 0
      else 1 + (if c \<in> set special_chars then 1 else if ch c < 32 then 5 else 0) + escaped_len cs)"

text \<open>The second pass: one character of the output.\<close>

definition escape_char :: "char \<Rightarrow> string" where
  "escape_char c =
     (if ch c > 31 \<and> c \<noteq> CHR 0x22 \<and> c \<noteq> CHR 0x5C then [c]
      else CHR 0x5C #
        (if c = CHR 0x5C then [CHR 0x5C]
         else if c = CHR 0x22 then [CHR 0x22]
         else if c = CHR 0x08 then ''b''
         else if c = CHR 0x0C then ''f''
         else if c = CHR 0x0A then ''n''
         else if c = CHR 0x0D then ''r''
         else if c = CHR 0x09 then ''t''
         else [CHR ''u'', CHR ''0'', CHR ''0'', hex_digit (ch c div 16), hex_digit (ch c mod 16)]))"

fun escape_chars :: "string \<Rightarrow> string" where
  "escape_chars [] = []"
| "escape_chars (c # cs) = (if c = CHR 0x00 then [] else escape_char c @ escape_chars cs)"

definition print_string_ptr :: "string option \<Rightarrow> string" where
  "print_string_ptr s =
     (case s of None \<Rightarrow> [] | Some str \<Rightarrow> [CHR 0x22] @ escape_chars str @ [CHR 0x22])"

text \<open>The bytes \<open>print_string_ptr\<close> allocates for its result.\<close>

definition print_string_alloc :: "string \<Rightarrow> nat" where
  "print_string_alloc str = escaped_len str + 3"

fun array_body :: "bool \<Rightarrow> string list \<Rightarrow> string" where
  "array_body fmt [] = []"
| "array_body fmt [e] = e"
| "array_body fmt (e # es) = e @ '','' @ (if fmt then '' '' else []) @ array_body fmt es"

definition array_text :: "bool \<Rightarrow> string list \<Rightarrow> string" where
  "array_text fmt entries = ''['' @ array_body fmt entries @ '']''"

text \<open>\<open>len\<close> in \<open>print_array\<close>: what it allocates for the text and its NUL.\<close>

definition array_alloc :: "bool \<Rightarrow> string list \<Rightarrow> nat" where
  "array_alloc fmt entries = 5 + sum_list (map (\<lambda>e. length e + 2 + (if fmt then 1 else 0)) entries)"

text \<open>\<open>depth\<close> is the value after \<open>depth++\<close>.\<close>

fun object_body :: "bool \<Rightarrow> nat \<Rightarrow> (string \<times> string) list \<Rightarrow> string" where
  "object_body fmt depth [] = []"
| "object_body fmt depth ((name, e) # es) =
     (if fmt then replicate depth (CHR 0x09) else []) @ name @ '':'' @ (if fmt then [CHR 0x09] else [])
     @ e @ (if es \<noteq> [] then '','' else []) @ (if fmt then [CHR 0x0A] else []) @ object_body fmt depth es"

definition object_text :: "bool \<Rightarrow> nat \<Rightarrow> (string \<times> string) list \<Rightarrow> string" where
  "object_text fmt depth entries =
     ''{'' @ (if fmt then [CHR 0x0A] else []) @ object_body fmt depth entries
     @ (if fmt then replicate (depth - 1) (CHR 0x09) else []) @ ''}''"

definition object_alloc :: "bool \<Rightarrow> nat \<Rightarrow> (string \<times> string) list \<Rightarrow> nat" where
  "object_alloc fmt depth entries = 7 + (if fmt then depth else 0)
     + sum_list (map (\<lambda>(n, e). length e + length n + 2 + (if fmt then 2 + depth else 0)) entries)"

function (sequential) print_value :: "cJSON \<Rightarrow> nat \<Rightarrow> bool \<Rightarrow> string option" where
  "print_value (CJSON t cs vs v n) depth fmt =
     (let k = t mod 256 in
      if k = cJSON_NULL then Some ''null''
      else if k = cJSON_False then Some ''false''
      else if k = cJSON_True then Some ''true''
      else if k = cJSON_Number then Some (print_number (CJSON t cs vs v n))
      else if k = cJSON_String then Some (print_string_ptr vs)
      else if k = cJSON_Array then
        (let entries = map (\<lambda>c. print_value c (depth + 1) fmt) cs
         in if None \<in> set entries then None else Some (array_text fmt (map the entries)))
      else if k = cJSON_Object then
        (let entries = map (\<lambda>c. (print_string_ptr (jstring c), print_value c (depth + 1) fmt)) cs
         in if None \<in> snd ` set entries then None
            else Some (object_text fmt (depth + 1) (map (\<lambda>(a, b). (a, the b)) entries)))
      else None)"
  by pat_completeness auto
termination
  by (relation "measure (\<lambda>(j, depth, fmt). size j)")
    (auto simp: less_Suc_eq_le intro: order_trans [OF _ size_list_estimation'])

definition cJSON_PrintUnformatted :: "cJSON \<Rightarrow> string option" where
  "cJSON_PrintUnformatted item = print_value item 0 False"

definition cJSON_Print :: "cJSON \<Rightarrow> string option" where
  "cJSON_Print item = print_value item 0 True"

declare print_value.simps [simp del]

subsection \<open>The printer stays within what it allocates\<close>

lemma escape_char_length:
  "length (escape_char c) = 1 + (if c \<in> set special_chars then 1 else if ch c < 32 then 5 else 0)"
proof (cases "c \<in> set special_chars")
  case True
  then show ?thesis by (auto simp: special_chars_def escape_char_def)
next
  case False
  then show ?thesis by (auto simp: special_chars_def escape_char_def)
qed

lemma escape_chars_length: "length (escape_chars s) = escaped_len s"
  by (induction s) (simp_all add: escape_char_length del: One_nat_def)

lemma print_string_fits: "length (print_string_ptr (Some s)) + 1 = print_string_alloc s"
  by (simp add: print_string_ptr_def print_string_alloc_def escape_chars_length)

lemma array_body_length:
  "length (array_body fmt es) \<le> sum_list (map (\<lambda>e. length e + 2 + (if fmt then 1 else 0)) es)"
  by (induction fmt es rule: array_body.induct) auto

lemma array_text_fits: "length (array_text fmt es) + 1 \<le> array_alloc fmt es"
  using array_body_length [of fmt es] by (simp add: array_text_def array_alloc_def)

lemma object_body_length:
  "length (object_body fmt depth es)
     \<le> sum_list (map (\<lambda>(n, e). length e + length n + 2 + (if fmt then 2 + depth else 0)) es)"
  by (induction fmt depth es rule: object_body.induct) auto

lemma object_text_fits: "length (object_text fmt depth es) + 1 \<le> object_alloc fmt depth es"
  using object_body_length [of fmt depth es] by (auto simp: object_text_def object_alloc_def)

subsection \<open>Trees the program builds print\<close>

text \<open>Every item has one of the seven types; strings carry a value.\<close>

fun json_ok :: "cJSON \<Rightarrow> bool" where
  "json_ok (CJSON t cs vs v n) \<longleftrightarrow> t \<le> cJSON_Object \<and> list_all json_ok cs"

lemma print_value_Some: "json_ok j \<Longrightarrow> print_value j depth fmt \<noteq> None"
proof (induction j depth fmt rule: print_value.induct)
  case (1 t cs vs v n depth fmt)
  then have t: "t \<le> 6" and cs: "\<forall>c\<in>set cs. json_ok c"
    by (simp_all add: cJSON_Object_def list_all_iff)
  then have m: "t mod 256 = t" by simp
  have "t \<in> {0,1,2,3,4,5,6}" using t by auto
  then show ?case
  proof (elim insertE emptyE)
    assume 5: "t = 5"
    have "None \<notin> set (map (\<lambda>c. print_value c (depth + 1) fmt) cs)"
      using "1.IH"(1) cs 5 by (fastforce simp: cJSON_types)
    then show ?case using 5 by (subst print_value.simps) (simp add: cJSON_types Let_def)
  next
    assume 6: "t = 6"
    have "None \<notin> snd ` set (map (\<lambda>c. (print_string_ptr (jstring c), print_value c (depth + 1) fmt)) cs)"
      using "1.IH"(2) cs 6 by (fastforce simp: cJSON_types)
    then show ?case using 6 by (subst print_value.simps) (simp add: cJSON_types Let_def)
  qed (subst print_value.simps, simp add: cJSON_types)+
qed

lemma json_ok_simps [simp]:
  "json_ok cJSON_CreateObject" "json_ok cJSON_CreateArray"
  "json_ok (cJSON_CreateNumber n)" "json_ok (cJSON_CreateString s)"
  by (simp_all add: cJSON_CreateObject_def cJSON_CreateArray_def cJSON_CreateNumber_def
      cJSON_CreateString_def cJSON_types)

lemma json_ok_with_name [simp]: "json_ok (with_name j s) = json_ok j"
  by (cases j) simp

lemma json_ok_add [simp]: "json_ok (cJSON_AddItemToArray a j) \<longleftrightarrow> json_ok a \<and> json_ok j"
  by (cases a) auto

lemma json_ok_add_object [simp]:
  "json_ok (cJSON_AddItemToObject a s j) \<longleftrightarrow> json_ok a \<and> json_ok j"
  "json_ok (cJSON_AddNumberToObject a s n) \<longleftrightarrow> json_ok a"
  "json_ok (cJSON_AddStringToObject a s t) \<longleftrightarrow> json_ok a"
  by (simp_all add: cJSON_AddItemToObject_def cJSON_AddNumberToObject_def cJSON_AddStringToObject_def)

lemma short_array_eq:
  "cJSON_CreateShortArray ns = CJSON cJSON_Array (map (\<lambda>n. cJSON_CreateNumber (sint n)) ns) None 0 None"
proof -
  have "foldl (\<lambda>a n. cJSON_AddItemToArray a (cJSON_CreateNumber (sint n))) (CJSON t cs vs v nm) ns
      = CJSON t (cs @ map (\<lambda>n. cJSON_CreateNumber (sint n)) ns) vs v nm" for t cs vs v nm
    by (induction ns arbitrary: cs) simp_all
  then show ?thesis by (simp add: cJSON_CreateShortArray_def cJSON_CreateArray_def)
qed

lemma json_ok_short_array [simp]: "json_ok (cJSON_CreateShortArray ns)"
  by (simp add: short_array_eq cJSON_types list_all_iff del: json_ok.simps) (simp add: list_all_iff cJSON_types)

section \<open>Properties\<close>

text \<open>The printer writes no more than it allocates: an escaped string fills its allocation
  exactly, arrays and objects, formatted or not, stay within theirs.\<close>

lemma print_fits:
  "length (print_string_ptr (Some s)) + 1 = print_string_alloc s
   \<and> length (array_text fmt es) + 1 \<le> array_alloc fmt es
   \<and> length (object_text fmt depth os) + 1 \<le> object_alloc fmt depth os"
  by (intro conjI print_string_fits array_text_fits object_text_fits)

end
