(* ===== verification/Fpmatch.thy ===== *)
theory Fpmatch
  imports Fingerpori Cjson
begin

unbundle bit_operations_syntax

section \<open>Matching samples against the fingerprints (\<open>receiver.c\<close>, first part)\<close>

text \<open>
  \<open>match_single\<close> and \<open>search_fingerprints\<close>. The samples are given as C gives them, by a
  pointer: a function from indices to the values a read at that index yields. The code
  reads at \<open>x - fp->len + i\<close>, which is negative for the first positions, so the memory in
  front of the array takes part in the search; the model makes it an explicit argument
  instead of hiding it.
\<close>

subsection \<open>One comparison\<close>

type_synonym samples = "int \<Rightarrow> s16"

text \<open>The weight \<open>(32768 - abs(fingerprint[i])) / 4096\<close>.\<close>

definition match_weight :: "s16 \<Rightarrow> int" where
  "match_weight f = (32768 - \<bar>sint f\<bar>) sdiv 4096"

function match_single_loop :: "s16 list \<Rightarrow> samples \<Rightarrow> nat \<Rightarrow> u64 \<Rightarrow> nat \<Rightarrow> u64 \<Rightarrow> u64 res" where
  "match_single_loop fingerprint samples len giveup i dif_sum =
     (if i < len then
        res_bind (aget fingerprint i) (\<lambda>f.
          let a = (word_of_int \<bar>sint (samples (int i)) - sint f\<bar> :: u64);
              dif_sum1 = dif_sum + a * word_of_int (match_weight f)
          in if dif_sum1 > giveup then Inr (-1)
             else match_single_loop fingerprint samples len giveup (i + 1) dif_sum1)
      else Inr dif_sum)"
  by pat_completeness auto
termination
  by (relation "measure (\<lambda>(fp, samples, len, giveup, i, dif_sum). len - i)") auto

declare match_single_loop.simps [simp del]

definition match_single :: "s16 list \<Rightarrow> samples \<Rightarrow> nat \<Rightarrow> u64 \<Rightarrow> u64 res" where
  "match_single fingerprint samples len giveup = match_single_loop fingerprint samples len giveup 0 0"

text \<open>The full weighted difference, without the early exit.\<close>

definition match_term :: "s16 list \<Rightarrow> samples \<Rightarrow> nat \<Rightarrow> nat" where
  "match_term fp samples i =
     nat (\<bar>sint (samples (int i)) - sint (fp ! i)\<bar> * match_weight (fp ! i))"

definition match_sum :: "s16 list \<Rightarrow> samples \<Rightarrow> nat \<Rightarrow> nat" where
  "match_sum fp samples len = (\<Sum>i<len. match_term fp samples i)"

lemma match_weight_range: "0 \<le> match_weight f" "match_weight f \<le> 8"
proof -
  have "0 \<le> 32768 - \<bar>sint f\<bar>" "32768 - \<bar>sint f\<bar> \<le> 32768"
    using abs_sint16 [of f] by auto
  then show "0 \<le> match_weight f" "match_weight f \<le> 8"
    using sdiv_between [of 4096 0 "32768 - \<bar>sint f\<bar>" 8] by (auto simp: match_weight_def)
qed

lemma sample_diff_range: "\<bar>sint (a :: s16) - sint (b :: s16)\<bar> \<le> 65535"
  using sint_range16 [of a] sint_range16 [of b] by auto

lemma match_term_bound: "match_term fp samples i \<le> 524280"
proof -
  have "\<bar>sint (samples (int i)) - sint (fp ! i)\<bar> * match_weight (fp ! i) \<le> 65535 * 8"
    by (rule mult_mono) (use sample_diff_range match_weight_range in auto)
  then show ?thesis by (simp add: match_term_def)
qed

lemma match_sum_bound: "match_sum fp samples len \<le> len * 524280"
  unfolding match_sum_def using sum_bounded_above [of "{..<len}" "match_term fp samples" 524280]
  by (simp add: match_term_bound)

lemma match_sum_mono: "i \<le> len \<Longrightarrow> match_sum fp samples i \<le> match_sum fp samples len"
  unfolding match_sum_def by (rule sum_mono2) auto

lemma match_sum_Suc: "match_sum fp samples (Suc i) = match_sum fp samples i + match_term fp samples i"
  by (simp add: match_sum_def)

lemma match_term_word:
  "(word_of_int \<bar>sint (samples (int i)) - sint f\<bar> :: u64) * word_of_int (match_weight f)
     = of_nat (match_term fp samples i)" if "f = fp ! i"
proof -
  have "int (match_term fp samples i)
      = \<bar>sint (samples (int i)) - sint f\<bar> * match_weight f"
    using match_weight_range [of f] that by (simp add: match_term_def)
  then show ?thesis
    by (metis of_int_mult of_int_of_nat_eq)
qed

lemma unat_match_sum:
  "len < 2 ^ 32 \<Longrightarrow> unat (of_nat (match_sum fp samples len) :: u64) = match_sum fp samples len"
proof -
  assume l: "len < 2 ^ 32"
  have "match_sum fp samples len \<le> len * 524280" by (rule match_sum_bound)
  also have "\<dots> < 2 ^ 64" using l by simp
  finally show ?thesis by (simp add: unat_of_nat)
qed

lemma match_single_loop_eq:
  assumes "len < 2 ^ 32" "len \<le> length fp" "i \<le> len" "match_sum fp samples i \<le> unat giveup"
  shows "match_single_loop fp samples len giveup i (of_nat (match_sum fp samples i)) =
    Inr (if match_sum fp samples len \<le> unat giveup then of_nat (match_sum fp samples len) else -1)"
  using assms
proof (induction "len - i" arbitrary: i)
  case 0
  then show ?case by (subst match_single_loop.simps) simp
next
  case (Suc n)
  then have i: "i < len" "i < length fp" by auto
  have sum1: "(of_nat (match_sum fp samples i) :: u64)
      + word_of_int \<bar>sint (samples (int i)) - sint (fp ! i)\<bar> * word_of_int (match_weight (fp ! i))
      = of_nat (match_sum fp samples (i + 1))"
    by (simp add: match_term_word [where fp = fp] match_sum_Suc)
  have u: "unat (of_nat (match_sum fp samples (Suc i)) :: u64) = match_sum fp samples (Suc i)"
    using i Suc.prems(1) by (intro unat_match_sum) simp
  show ?case
  proof (cases "match_sum fp samples (Suc i) \<le> unat giveup")
    case True
    then have "\<not> giveup < (of_nat (match_sum fp samples (Suc i)) :: u64)"
      by (simp add: word_less_nat_alt u)
    then show ?thesis
      using Suc.hyps(1) [of "Suc i"] Suc.hyps(2) Suc.prems True i sum1
      by (subst match_single_loop.simps) (simp add: Let_def)
  next
    case False
    then have "giveup < (of_nat (match_sum fp samples (Suc i)) :: u64)"
      by (simp add: word_less_nat_alt u)
    moreover have "\<not> match_sum fp samples len \<le> unat giveup"
      using False match_sum_mono [of "Suc i" len fp samples] i by simp
    ultimately show ?thesis
      using i sum1 by (subst match_single_loop.simps) (simp add: Let_def)
  qed
qed

lemma match_single_eq:
  assumes "len < 2 ^ 32" "len \<le> length fp"
  shows "match_single fp samples len giveup =
    Inr (if match_sum fp samples len \<le> unat giveup then of_nat (match_sum fp samples len) else -1)"
  using match_single_loop_eq [OF assms, of 0 samples giveup]
  by (simp add: match_single_def match_sum_def)

subsection \<open>One fingerprint over all positions\<close>

definition TOPLEN :: nat where "TOPLEN = 5"
definition threshold_weak :: int where "threshold_weak = 1100"

text \<open>\<open>&samples[k]\<close>\<close>

definition at_ofs :: "samples \<Rightarrow> int \<Rightarrow> samples" where
  "at_ofs samples k = (\<lambda>i. samples (k + i))"

text \<open>
  \<open>for (x = 0; x < len; x += 1)\<close>: the least difference so far and where it was found;
  \<open>best_x\<close> starts unwritten.
\<close>

function scan_positions ::
  "fingerprint_t \<Rightarrow> samples \<Rightarrow> nat \<Rightarrow> u64 \<Rightarrow> nat \<Rightarrow> u64 \<Rightarrow> nat option \<Rightarrow> (u64 \<times> nat option) res"
where
  "scan_positions fp samples len giveup x dif best_x =
     (if x < len then
        res_bind (match_single (fp_samples fp) (at_ofs samples (int x - int (fp_len fp))) (fp_len fp) giveup)
          (\<lambda>dift. if dift < dif
                  then scan_positions fp samples len giveup (x + 1) dift (Some x)
                  else scan_positions fp samples len giveup (x + 1) dif best_x)
      else Inr (dif, best_x))"
  by pat_completeness auto
termination
  by (relation "measure (\<lambda>(fp, samples, len, giveup, x, dif, best_x). len - x)") auto

declare scan_positions.simps [simp del]

text \<open>\<open>threshold_weak*(fp->len*2)\<close>, an \<open>int\<close> stored in an \<open>unsigned long\<close>\<close>

definition giveup_of :: "fingerprint_t \<Rightarrow> u64" where
  "giveup_of fp = word_of_int (threshold_weak * (int (fp_len fp) * 2))"

subsection \<open>The search\<close>

record matchlist_t =
  m_len :: nat
  m_dif :: u32
  m_x_ofs :: nat
  m_fp :: fingerprint_t

record search_t =
  matches :: "nat \<Rightarrow> matchlist_t option"
  matches_c :: nat
  matches_best :: int
  matches_best_dif :: u32
  matches_worst :: int
  matches_worst_dif :: u32

definition search_init :: search_t where
  "search_init = \<lparr>matches = (\<lambda>_. None), matches_c = 0, matches_best = -1, matches_best_dif = -1,
     matches_worst = -1, matches_worst_dif = -1\<rparr>"

text \<open>
  Recording a match in slot \<open>match_ins\<close>. The comparison \<open>dif > matches_worst\<close> is between an
  \<open>unsigned long\<close> and an \<open>int\<close> index, which is converted. A write to slot \<open>-1\<close> is in front
  of the array.
\<close>

definition record_match :: "search_t \<Rightarrow> fingerprint_t \<Rightarrow> u64 \<Rightarrow> nat option \<Rightarrow> int \<Rightarrow> search_t res" where
  "record_match s fp dif best_x match_ins =
     (let s1 = (if dif < ucast (matches_best_dif s)
                then s\<lparr>matches_best := match_ins, matches_best_dif := ucast dif\<rparr> else s);
          s2 = (if dif > word_of_int (matches_worst s1)
                then s1\<lparr>matches_worst := match_ins, matches_worst_dif := ucast dif\<rparr> else s1)
      in if match_ins < 0 then Inl Out_of_bounds
         else case best_x of
                None \<Rightarrow> Inl Uninitialised
              | Some x \<Rightarrow>
                  Inr (s2\<lparr>matches := (matches s2)(nat match_ins \<mapsto>
                         \<lparr>m_len = fp_len fp, m_dif = ucast dif, m_x_ofs = x, m_fp = fp\<rparr>)\<rparr>))"

definition search_one :: "samples \<Rightarrow> nat \<Rightarrow> search_t \<Rightarrow> fingerprint_t \<Rightarrow> search_t res" where
  "search_one samples len s fp =
     res_bind (scan_positions fp samples len (giveup_of fp) 0 (-1) None) (\<lambda>(dif0, best_x).
       if fp_len fp = 0 then Inl Div_by_zero
       else
         let dif = dif0 div of_nat (fp_len fp * 3) in
         if dif < word_of_int threshold_weak then
           if matches_c s < TOPLEN
           then record_match (s\<lparr>matches_c := matches_c s + 1\<rparr>) fp dif best_x (int (matches_c s))
           else if matches_worst s \<ge> 0 \<and> ucast (matches_worst_dif s) < dif then Inr s
           else record_match s fp dif best_x (-1)
         else Inr s)"

fun search_all :: "samples \<Rightarrow> nat \<Rightarrow> search_t \<Rightarrow> fingerprint_t list \<Rightarrow> search_t res" where
  "search_all samples len s [] = Inr s"
| "search_all samples len s (fp # fps) =
     res_bind (search_one samples len s fp) (\<lambda>s1. search_all samples len s1 fps)"

text \<open>What \<open>notify_out\<close> is called with, for a fingerprint that matched.\<close>

record match_report =
  r_q :: u32
  r_fp :: fingerprint_t
  r_rx :: "s16 list"
  r_ofs :: int
  r_last_noise :: int

definition search_fingerprints ::
  "fingerprint_t list \<Rightarrow> samples \<Rightarrow> nat \<Rightarrow> int \<Rightarrow> match_report option res"
where
  "search_fingerprints fingerprints samples len last_noise =
     res_bind (search_all samples len search_init fingerprints) (\<lambda>s.
       if matches_best s \<ge> 0 then
         (case matches s (nat (matches_best s)) of
            None \<Rightarrow> Inl Uninitialised
          | Some m \<Rightarrow>
              let fp = m_fp m;
                  add_margin = int (fp_len fp) div 2;
                  sample_ofs = int (m_x_ofs m) - int (fp_len fp) - add_margin
              in Inr (Some \<lparr>r_q = m_dif m, r_fp = fp,
                      r_rx = map (\<lambda>i. samples (sample_ofs + int i)) [0..<fp_len fp * 2],
                      r_ofs = add_margin, r_last_noise = last_noise - sample_ofs\<rparr>))
       else Inr None)"

subsection \<open>What the search finds\<close>

text \<open>The least difference of a fingerprint over the positions, as a specification.\<close>

definition pos_sum :: "fingerprint_t \<Rightarrow> samples \<Rightarrow> nat \<Rightarrow> nat" where
  "pos_sum fp samples x = match_sum (fp_samples fp) (at_ofs samples (int x - int (fp_len fp))) (fp_len fp)"

definition giveup_nat :: "fingerprint_t \<Rightarrow> nat" where
  "giveup_nat fp = 2200 * fp_len fp"

text \<open>
  A fingerprint the loader can have produced, short enough that the \<open>int\<close> product in
  \<open>giveup\<close> does not overflow.
\<close>

definition fp_ok :: "fingerprint_t \<Rightarrow> bool" where
  "fp_ok fp \<longleftrightarrow> 0 < fp_len fp \<and> fp_len fp \<le> length (fp_samples fp) \<and> 2200 * fp_len fp < 2 ^ 31"

text \<open>The early exit hides sums above the limit; the others are compared exactly.\<close>

definition seen :: "fingerprint_t \<Rightarrow> samples \<Rightarrow> nat \<Rightarrow> nat" where
  "seen fp samples x = (if pos_sum fp samples x \<le> giveup_nat fp then pos_sum fp samples x else 2 ^ 64 - 1)"

fun best_of :: "(nat \<Rightarrow> nat) \<Rightarrow> nat \<Rightarrow> nat \<times> nat option" where
  "best_of f 0 = (2 ^ 64 - 1, None)"
| "best_of f (Suc n) =
     (let (d, b) = best_of f n in if f n < d then (f n, Some n) else (d, b))"

lemma best_of_spec:
  "case best_of f n of
     (d, None) \<Rightarrow> d = 2 ^ 64 - 1 \<and> (\<forall>y<n. 2 ^ 64 - 1 \<le> f y)
   | (d, Some x) \<Rightarrow> x < n \<and> d = f x \<and> d < 2 ^ 64 - 1 \<and> (\<forall>y<n. f x \<le> f y) \<and> (\<forall>y<x. f x < f y)"
proof (induction n)
  case (Suc n)
  obtain d b where db: "best_of f n = (d, b)" by (cases "best_of f n")
  show ?case
  proof (cases b)
    case None
    with Suc db have ih: "d = 2 ^ 64 - 1" "\<forall>y<n. 2 ^ 64 - 1 \<le> f y" by auto
    show ?thesis
    proof (cases "f n < d")
      case True
      then have "\<forall>y<n. f n < f y" using ih by (auto intro: less_le_trans)
      then show ?thesis using True db None ih by (auto simp: less_Suc_eq intro: less_imp_le)
    next
      case False
      then show ?thesis using db None ih by (auto simp: less_Suc_eq)
    qed
  next
    case (Some x)
    with Suc db have ih: "x < n" "d = f x" "d < 2 ^ 64 - 1" "\<forall>y<n. f x \<le> f y" "\<forall>y<x. f x < f y" by auto
    show ?thesis
    proof (cases "f n < d")
      case True
      then have "\<forall>y<n. f n < f y" using ih by (auto intro: less_le_trans)
      then show ?thesis using True db Some ih by (auto simp: less_Suc_eq intro: less_imp_le)
    next
      case False
      then show ?thesis using db Some ih by (auto simp: less_Suc_eq)
    qed
  qed
qed simp

lemma fp_ok_len: "fp_ok fp \<Longrightarrow> fp_len fp < 2 ^ 32"
  by (simp add: fp_ok_def)

lemma unat_giveup: "fp_ok fp \<Longrightarrow> unat (giveup_of fp) = giveup_nat fp"
proof -
  assume ok: "fp_ok fp"
  have "giveup_of fp = word_of_int (int (giveup_nat fp))"
    by (simp add: giveup_of_def threshold_weak_def giveup_nat_def)
  moreover have "giveup_nat fp < 2 ^ 64" using ok by (simp add: fp_ok_def giveup_nat_def)
  ultimately show ?thesis by (simp only: of_int_of_nat_eq unat_of_nat_u64)
qed

lemma match_single_seen:
  assumes "fp_ok fp"
  shows "\<exists>w. match_single (fp_samples fp) (at_ofs samples (int x - int (fp_len fp))) (fp_len fp) (giveup_of fp)
     = Inr w \<and> unat w = seen fp samples x"
  using match_single_eq [OF fp_ok_len [OF assms], of "fp_samples fp" "at_ofs samples (int x - int (fp_len fp))" "giveup_of fp"]
    assms unat_match_sum [OF fp_ok_len [OF assms], of "fp_samples fp" "at_ofs samples (int x - int (fp_len fp))"]
  by (simp add: seen_def pos_sum_def unat_giveup unat_max_u64 fp_ok_def)

lemma scan_positions_eq:
  assumes "fp_ok fp" "x \<le> len" "best_of (seen fp samples) x = (unat dif, b)"
  shows "\<exists>w. scan_positions fp samples len (giveup_of fp) x dif b
    = Inr (w, snd (best_of (seen fp samples) len)) \<and> unat w = fst (best_of (seen fp samples) len)"
  using assms(2,3)
proof (induction "len - x" arbitrary: x dif b)
  case 0
  then show ?case by (subst scan_positions.simps) simp
next
  case (Suc n)
  then have x: "x < len" by simp
  obtain w where w: "match_single (fp_samples fp) (at_ofs samples (int x - int (fp_len fp))) (fp_len fp) (giveup_of fp) = Inr w"
    "unat w = seen fp samples x"
    using match_single_seen [OF assms(1)] by blast
  show ?case
  proof (cases "w < dif")
    case True
    then have "best_of (seen fp samples) (Suc x) = (unat w, Some x)"
      using Suc.prems w by (simp add: word_less_nat_alt)
    then show ?thesis
      using Suc.hyps(1) [of "Suc x" w "Some x"] Suc.hyps(2) x w(1) True
      by (subst scan_positions.simps) simp
  next
    case False
    then have "best_of (seen fp samples) (Suc x) = (unat dif, b)"
      using Suc.prems w by (simp add: word_less_nat_alt)
    then show ?thesis
      using Suc.hyps(1) [of "Suc x" dif b] Suc.hyps(2) x w(1) False
      by (subst scan_positions.simps) simp
  qed
qed

text \<open>
  A fingerprint is hit when some position stays within the early-exit limit; its score is
  the least sum over the positions, scaled, and its place the first position that has it.
\<close>

definition hit :: "samples \<Rightarrow> nat \<Rightarrow> fingerprint_t \<Rightarrow> bool" where
  "hit samples len fp \<longleftrightarrow> (\<exists>x<len. pos_sum fp samples x \<le> giveup_nat fp)"

definition place :: "samples \<Rightarrow> nat \<Rightarrow> fingerprint_t \<Rightarrow> nat" where
  "place samples len fp = the (snd (best_of (seen fp samples) len))"

definition score :: "samples \<Rightarrow> nat \<Rightarrow> fingerprint_t \<Rightarrow> nat" where
  "score samples len fp = pos_sum fp samples (place samples len fp) div (fp_len fp * 3)"

lemma pos_sum_small: "fp_ok fp \<Longrightarrow> pos_sum fp samples x < 2 ^ 64 - 1"
proof -
  assume "fp_ok fp"
  then have "fp_len fp * 524280 < 2 ^ 64 - 1" by (simp add: fp_ok_def)
  then show ?thesis
    unfolding pos_sum_def using match_sum_bound le_less_trans by blast
qed

lemma seen_hit: "fp_ok fp \<Longrightarrow> seen fp samples x < 2 ^ 64 - 1 \<longleftrightarrow> pos_sum fp samples x \<le> giveup_nat fp"
  using pos_sum_small [of fp samples x] by (simp add: seen_def)

lemmas seen_hit_num = seen_hit [simplified]

lemma hit_cases:
  assumes "fp_ok fp"
  shows "hit samples len fp \<longleftrightarrow> snd (best_of (seen fp samples) len) \<noteq> None"
    and "hit samples len fp \<Longrightarrow> place samples len fp < len
      \<and> best_of (seen fp samples) len = (pos_sum fp samples (place samples len fp), Some (place samples len fp))
      \<and> pos_sum fp samples (place samples len fp) \<le> giveup_nat fp
      \<and> (\<forall>y<len. pos_sum fp samples (place samples len fp) \<le> pos_sum fp samples y)
      \<and> (\<forall>y<place samples len fp. pos_sum fp samples (place samples len fp) < pos_sum fp samples y)"
    and "\<not> hit samples len fp \<Longrightarrow> best_of (seen fp samples) len = (2 ^ 64 - 1, None)"
proof -
  obtain d b where db: "best_of (seen fp samples) len = (d, b)" by fastforce
  note sp = best_of_spec [where f = "seen fp samples" and n = len, unfolded db]
  show iff: "hit samples len fp \<longleftrightarrow> snd (best_of (seen fp samples) len) \<noteq> None"
  proof (cases b)
    case None
    with sp have "\<forall>y<len. \<not> seen fp samples y < 2 ^ 64 - 1" by (auto simp: not_less)
    then show ?thesis using db None by (auto simp: hit_def seen_hit_num [OF assms])
  next
    case (Some x)
    with sp have "x < len" "seen fp samples x < 2 ^ 64 - 1" by auto
    then show ?thesis using db Some by (auto simp: hit_def seen_hit_num [OF assms])
  qed
  show "best_of (seen fp samples) len = (2 ^ 64 - 1, None)" if "\<not> hit samples len fp"
    using that iff sp db by auto
  show "place samples len fp < len
      \<and> best_of (seen fp samples) len = (pos_sum fp samples (place samples len fp), Some (place samples len fp))
      \<and> pos_sum fp samples (place samples len fp) \<le> giveup_nat fp
      \<and> (\<forall>y<len. pos_sum fp samples (place samples len fp) \<le> pos_sum fp samples y)
      \<and> (\<forall>y<place samples len fp. pos_sum fp samples (place samples len fp) < pos_sum fp samples y)"
    if h: "hit samples len fp"
  proof -
    obtain x where x: "b = Some x" using iff h db by auto
    have pl: "place samples len fp = x" by (simp add: place_def db x)
    have le: "pos_sum fp samples x \<le> giveup_nat fp" and s: "seen fp samples x = pos_sum fp samples x"
      using sp x seen_hit [OF assms, of samples x] by (auto simp: seen_def)
    have lift: "pos_sum fp samples x \<le> pos_sum fp samples y" if "seen fp samples x \<le> seen fp samples y" for y
      using that s le by (auto simp: seen_def split: if_splits)
    have lift2: "pos_sum fp samples x < pos_sum fp samples y" if "seen fp samples x < seen fp samples y" for y
      using that s le by (auto simp: seen_def split: if_splits)
    show ?thesis
      unfolding pl using sp x s le lift lift2 db by auto
  qed
qed

lemma score_bound:
  assumes "fp_ok fp" "hit samples len fp"
  shows "score samples len fp \<le> 733"
proof -
  have "pos_sum fp samples (place samples len fp) \<le> 2200 * fp_len fp"
    using hit_cases(2) [OF assms] by (simp add: giveup_nat_def)
  then have "score samples len fp \<le> 2200 * fp_len fp div (fp_len fp * 3)"
    unfolding score_def by (rule div_le_mono)
  also have "\<dots> = 733" using assms(1)
    by (simp add: fp_ok_def div_mult2_eq)
  finally show ?thesis .
qed

definition entry :: "samples \<Rightarrow> nat \<Rightarrow> fingerprint_t \<Rightarrow> matchlist_t" where
  "entry samples len fp = \<lparr>m_len = fp_len fp, m_dif = of_nat (score samples len fp),
     m_x_ofs = place samples len fp, m_fp = fp\<rparr>"

lemma search_one_miss:
  assumes "fp_ok fp" "\<not> hit samples len fp"
  shows "search_one samples len s fp = Inr s"
proof -
  obtain w where w: "scan_positions fp samples len (giveup_of fp) 0 (-1) None = Inr (w, None)" "unat w = 2 ^ 64 - 1"
    using scan_positions_eq [OF assms(1), of 0 len samples "-1" None] hit_cases(3) [OF assms]
    by (auto simp: unat_max_u64)
  have l: "fp_len fp * 3 < 2 ^ 64" "0 < fp_len fp" "fp_len fp * 3 \<le> 3 * 2 ^ 31"
    using assms(1) by (auto simp: fp_ok_def)
  have u: "unat (of_nat (fp_len fp * 3) :: u64) = fp_len fp * 3"
    using l(1) by (rule unat_of_nat_u64)
  have "(2 ^ 64 - 1) div (3 * 2 ^ 31) \<le> (2 ^ 64 - 1 :: nat) div (fp_len fp * 3)"
    using l by (intro div_le_mono2) auto
  then have "1100 \<le> unat (w div of_nat (fp_len fp * 3))"
    by (simp only: unat_div u w(2)) simp
  then have "\<not> w div of_nat (fp_len fp * 3) < word_of_int threshold_weak"
    by (simp add: word_less_nat_alt threshold_weak_def)
  then show ?thesis using w(1) l(2) by (simp add: search_one_def Let_def)
qed

lemma search_one_hit:
  assumes "fp_ok fp" "hit samples len fp"
  shows "search_one samples len s fp =
    (let dif = of_nat (score samples len fp); b = Some (place samples len fp) in
     if matches_c s < TOPLEN
     then record_match (s\<lparr>matches_c := matches_c s + 1\<rparr>) fp dif b (int (matches_c s))
     else if matches_worst s \<ge> 0 \<and> ucast (matches_worst_dif s) < dif then Inr s
     else record_match s fp dif b (-1))"
proof -
  let ?p = "place samples len fp"
  obtain w where w: "scan_positions fp samples len (giveup_of fp) 0 (-1) None = Inr (w, Some ?p)"
    "unat w = pos_sum fp samples ?p"
    using scan_positions_eq [OF assms(1), of 0 len samples "-1" None] hit_cases(2) [OF assms]
    by (auto simp: unat_max_u64)
  have l: "fp_len fp * 3 < 2 ^ 64" "0 < fp_len fp"
    using assms(1) by (auto simp: fp_ok_def)
  have u: "unat (of_nat (fp_len fp * 3) :: u64) = fp_len fp * 3"
    using l(1) by (rule unat_of_nat_u64)
  have sc: "score samples len fp < 2 ^ 64" using score_bound [OF assms] by simp
  have d: "w div of_nat (fp_len fp * 3) = of_nat (score samples len fp)"
  proof -
    have "unat (w div of_nat (fp_len fp * 3)) = score samples len fp"
      by (simp only: unat_div u w(2) score_def)
    then show ?thesis by (metis of_nat_unat ucast_id)
  qed
  have "(of_nat (score samples len fp) :: u64) < word_of_int threshold_weak"
    using score_bound [OF assms] unat_of_nat_u64 [OF sc]
    by (simp add: word_less_nat_alt threshold_weak_def)
  then show ?thesis using w(1) l(2) d by (simp add: search_one_def Let_def)
qed

text \<open>
  The state of the search after some fingerprints, in terms of those among them that are
  hits: one slot each, the best slot the first of least score, and the worst slot never set.
\<close>

definition least_score :: "samples \<Rightarrow> nat \<Rightarrow> fingerprint_t list \<Rightarrow> nat \<Rightarrow> bool" where
  "least_score samples len hs k \<longleftrightarrow> k < length hs
     \<and> (\<forall>j<length hs. score samples len (hs ! k) \<le> score samples len (hs ! j))
     \<and> (\<forall>j<k. score samples len (hs ! k) < score samples len (hs ! j))"

definition search_inv :: "samples \<Rightarrow> nat \<Rightarrow> fingerprint_t list \<Rightarrow> search_t \<Rightarrow> bool" where
  "search_inv samples len hs s \<longleftrightarrow>
     matches_c s = length hs \<and> matches_worst s = -1
     \<and> (\<forall>k<length hs. matches s k = Some (entry samples len (hs ! k)))
     \<and> (if hs = [] then matches_best s = -1 \<and> matches_best_dif s = -1
        else \<exists>k. least_score samples len hs k \<and> matches_best s = int k
               \<and> matches_best_dif s = of_nat (score samples len (hs ! k)))"

lemma search_inv_init: "search_inv samples len [] search_init"
  by (simp add: search_inv_def search_init_def)

lemma least_score_snoc:
  assumes "least_score samples len hs k"
  shows "if score samples len fp < score samples len (hs ! k)
    then least_score samples len (hs @ [fp]) (length hs)
    else least_score samples len (hs @ [fp]) k"
proof (cases "score samples len fp < score samples len (hs ! k)")
  case True
  then have "\<forall>j<length hs. score samples len fp < score samples len (hs ! j)"
    using assms less_le_trans by (fastforce simp: least_score_def)
  with True show ?thesis
    by (auto simp: least_score_def nth_append less_Suc_eq intro: less_imp_le)
next
  case False
  then show ?thesis using assms
    by (auto simp: least_score_def nth_append less_Suc_eq)
qed

lemma ucast_small_less:
  fixes a b :: nat
  assumes "a < 2 ^ 32" "b < 2 ^ 32"
  shows "(of_nat a :: u64) < ucast (of_nat b :: u32) \<longleftrightarrow> a < b"
proof -
  have "unat (of_nat a :: u64) = a" using assms by (intro unat_of_nat_u64) simp
  moreover have "unat (of_nat b :: u32) = b" using assms by (intro unat_of_nat_u32) simp
  ultimately show ?thesis by (simp only: word_less_nat_alt unat_ucast_u32)
qed

lemma best_dif_less:
  assumes "search_inv samples len hs s" "fp_ok fp" "hit samples len fp" "\<forall>h\<in>set hs. fp_ok h \<and> hit samples len h"
  shows "(of_nat (score samples len fp) :: u64) < ucast (matches_best_dif s) \<longleftrightarrow>
    (hs = [] \<or> score samples len fp < score samples len (hs ! nat (matches_best s)))"
proof (cases "hs = []")
  case True
  have "unat (ucast (-1 :: u32) :: u64) = 2 ^ 32 - 1" by (simp only: unat_ucast_u32 unat_max_u32)
  moreover have "unat (of_nat (score samples len fp) :: u64) = score samples len fp"
    using score_bound [OF assms(2,3)] by (intro unat_of_nat_u64) simp
  ultimately show ?thesis
    using True assms(1) score_bound [OF assms(2,3)] by (simp add: search_inv_def word_less_nat_alt)
next
  case False
  then obtain k where k: "k < length hs" "matches_best s = int k"
    "matches_best_dif s = of_nat (score samples len (hs ! k))"
    using assms(1) by (auto simp: search_inv_def least_score_def)
  then have h: "fp_ok (hs ! k)" "hit samples len (hs ! k)" using assms(4) nth_mem by blast+
  have "score samples len fp < 2 ^ 32" "score samples len (hs ! k) < 2 ^ 32"
    using score_bound [OF assms(2,3)] score_bound [OF h] by simp_all
  then show ?thesis using False k by (simp add: ucast_small_less)
qed

lemma search_one_inv:
  assumes inv: "search_inv samples len hs s" and fp: "fp_ok fp"
    and hs: "\<forall>h\<in>set hs. fp_ok h \<and> hit samples len h"
    and l: "length (hs @ filter (hit samples len) [fp]) \<le> TOPLEN"
  shows "\<exists>s1. search_one samples len s fp = Inr s1
    \<and> search_inv samples len (hs @ filter (hit samples len) [fp]) s1"
proof (cases "hit samples len fp")
  case False
  then show ?thesis using inv search_one_miss [OF fp False] by simp
next
  case True
  have c: "matches_c s = length hs" "matches_c s < TOPLEN" "matches_worst s = -1"
    using inv l True by (auto simp: search_inv_def)
  let ?d = "of_nat (score samples len fp) :: u64"
  let ?better = "hs = [] \<or> score samples len fp < score samples len (hs ! nat (matches_best s))"
  have nw: "\<not> ?d > word_of_int (-1)"
    by simp
  have eq: "search_one samples len s fp = Inr
     ((if ?better then s\<lparr>matches_c := length hs + 1, matches_best := int (length hs),
                        matches_best_dif := of_nat (score samples len fp)\<rparr>
       else s\<lparr>matches_c := length hs + 1\<rparr>)
      \<lparr>matches := (matches s)(length hs \<mapsto> entry samples len fp)\<rparr>)"
    using search_one_hit [OF fp True, of s] c nw best_dif_less [OF inv fp True hs]
      ucast_of_nat_u32 [of "score samples len fp"] score_bound [OF fp True]
    by (simp add: record_match_def Let_def entry_def)
  let ?m = "(matches s)(length hs \<mapsto> entry samples len fp)"
  have slots: "\<forall>k<length (hs @ [fp]). ?m k = Some (entry samples len ((hs @ [fp]) ! k))"
    using inv by (auto simp: search_inv_def nth_append less_Suc_eq)
  show ?thesis
  proof (cases "hs = []")
    case T: True
    then show ?thesis using True slots c inv unfolding eq
      by (simp add: search_inv_def least_score_def)
  next
    case ne: False
    then obtain k where k: "least_score samples len hs k" "matches_best s = int k"
      "matches_best_dif s = of_nat (score samples len (hs ! k))"
      using inv by (auto simp: search_inv_def)
    then have kl: "k < length hs" by (simp add: least_score_def)
    show ?thesis
    proof (cases "score samples len fp < score samples len (hs ! k)")
      case T2: True
      then have "least_score samples len (hs @ [fp]) (length hs)"
        using least_score_snoc [OF k(1), of fp] by simp
      then show ?thesis using True slots c ne T2 k(2) unfolding eq search_inv_def
        by (auto intro!: exI [of _ "length hs"])
    next
      case F2: False
      then have "least_score samples len (hs @ [fp]) k"
        using least_score_snoc [OF k(1), of fp] by simp
      then show ?thesis using True slots c ne F2 k kl unfolding eq search_inv_def
        by (auto simp: nth_append intro!: exI [of _ k])
    qed
  qed
qed

abbreviation hits :: "samples \<Rightarrow> nat \<Rightarrow> fingerprint_t list \<Rightarrow> fingerprint_t list" where
  "hits samples len fps \<equiv> filter (hit samples len) fps"

lemma search_all_inv:
  assumes "search_inv samples len hs s" "\<forall>h\<in>set hs. fp_ok h \<and> hit samples len h" "\<forall>f\<in>set fps. fp_ok f"
    "length (hs @ hits samples len fps) \<le> TOPLEN"
  shows "\<exists>s1. search_all samples len s fps = Inr s1 \<and> search_inv samples len (hs @ hits samples len fps) s1"
  using assms
proof (induction fps arbitrary: s hs)
  case (Cons fp fps)
  have l: "length (hs @ hits samples len [fp]) \<le> TOPLEN"
    using Cons.prems(4) by (auto split: if_splits)
  obtain s1 where s1: "search_one samples len s fp = Inr s1"
    "search_inv samples len (hs @ hits samples len [fp]) s1"
    using search_one_inv [OF Cons.prems(1) _ Cons.prems(2) l] Cons.prems(3) by auto
  have "\<exists>s2. search_all samples len s1 fps = Inr s2
    \<and> search_inv samples len ((hs @ hits samples len [fp]) @ hits samples len fps) s2"
    by (rule Cons.IH [OF s1(2)]) (use Cons.prems in \<open>auto split: if_splits\<close>)
  then show ?case using s1(1) by (auto split: if_splits)
qed simp

text \<open>What is reported for a fingerprint found at its best place.\<close>

definition report_of :: "samples \<Rightarrow> nat \<Rightarrow> int \<Rightarrow> fingerprint_t \<Rightarrow> match_report" where
  "report_of samples len last_noise fp =
     (let ofs = int (place samples len fp) - int (fp_len fp) - int (fp_len fp) div 2 in
      \<lparr>r_q = of_nat (score samples len fp), r_fp = fp,
       r_rx = map (\<lambda>i. samples (ofs + int i)) [0..<fp_len fp * 2],
       r_ofs = int (fp_len fp) div 2, r_last_noise = last_noise - ofs\<rparr>)"

lemma search_fingerprints_eq:
  assumes "\<forall>f\<in>set fps. fp_ok f" "length (hits samples len fps) \<le> TOPLEN"
  shows "hits samples len fps = [] \<Longrightarrow> search_fingerprints fps samples len ln = Inr None"
    and "hits samples len fps \<noteq> [] \<Longrightarrow> \<exists>k. least_score samples len (hits samples len fps) k
      \<and> search_fingerprints fps samples len ln = Inr (Some (report_of samples len ln (hits samples len fps ! k)))"
proof -
  obtain s1 where s1: "search_all samples len search_init fps = Inr s1"
    "search_inv samples len (hits samples len fps) s1"
    using search_all_inv [OF search_inv_init, where fps = fps and samples = samples and len = len] assms by auto
  show "search_fingerprints fps samples len ln = Inr None" if "hits samples len fps = []"
    using that s1 by (simp add: search_fingerprints_def search_inv_def)
  show "\<exists>k. least_score samples len (hits samples len fps) k
      \<and> search_fingerprints fps samples len ln = Inr (Some (report_of samples len ln (hits samples len fps ! k)))"
    if ne: "hits samples len fps \<noteq> []"
  proof -
    obtain k where k: "least_score samples len (hits samples len fps) k" "matches_best s1 = int k"
      using s1(2) ne by (auto simp: search_inv_def)
    moreover have "matches s1 k = Some (entry samples len (hits samples len fps ! k))"
      using s1(2) k(1) by (simp add: search_inv_def least_score_def)
    ultimately show ?thesis
      using s1(1) by (intro exI [of _ k]) (simp add: search_fingerprints_def report_of_def entry_def Let_def)
  qed
qed

lemma search_all_append:
  "search_all samples len s (fps @ gps) =
    res_bind (search_all samples len s fps) (\<lambda>s1. search_all samples len s1 gps)"
  by (induction fps arbitrary: s) (simp_all add: res_bind_assoc)

lemma search_all_miss:
  "\<forall>f\<in>set fps. fp_ok f \<and> \<not> hit samples len f \<Longrightarrow> search_all samples len s fps = Inr s"
  by (induction fps) (simp_all add: search_one_miss)

text \<open>One more hit than there are slots.\<close>

lemma search_full:
  assumes "search_inv samples len hs s" "length hs = TOPLEN" "fp_ok fp" "hit samples len fp"
  shows "search_one samples len s fp = Inl Out_of_bounds"
  using assms search_one_hit [OF assms(3,4), of s]
  by (auto simp: search_inv_def record_match_def Let_def)

lemma split_at_hit:
  "n < length (hits samples len fps) \<Longrightarrow>
   \<exists>as fp bs. fps = as @ fp # bs \<and> hit samples len fp \<and> length (hits samples len as) = n"
proof (induction fps arbitrary: n)
  case (Cons f fps)
  show ?case
  proof (cases "hit samples len f \<and> n = 0")
    case True
    then show ?thesis by (intro exI [of _ "[]"] exI [of _ f] exI [of _ fps]) auto
  next
    case False
    define m where "m = (if hit samples len f then n - 1 else n)"
    have "m < length (hits samples len fps)" using Cons.prems False by (auto simp: m_def split: if_splits)
    then obtain as fp bs where "fps = as @ fp # bs" "hit samples len fp" "length (hits samples len as) = m"
      using Cons.IH by blast
    then show ?thesis using False by (intro exI [of _ "f # as"] exI [of _ fp] exI [of _ bs]) (auto simp: m_def)
  qed
qed simp

lemma search_fingerprints_overrun:
  assumes "\<forall>f\<in>set fps. fp_ok f" "TOPLEN < length (hits samples len fps)"
  shows "search_fingerprints fps samples len ln = Inl Out_of_bounds"
proof -
  obtain as fp bs where d: "fps = as @ fp # bs" "hit samples len fp" "length (hits samples len as) = TOPLEN"
    using split_at_hit [OF assms(2)] by blast
  obtain s1 where s1: "search_all samples len search_init as = Inr s1"
    "search_inv samples len (hits samples len as) s1"
    using search_all_inv [OF search_inv_init, where fps = as and samples = samples and len = len] assms(1) d by auto
  have "search_one samples len s1 fp = Inl Out_of_bounds"
    using search_full [OF s1(2) d(3) _ d(2)] assms(1) d(1) by simp
  then show ?thesis using s1(1) d(1)
    by (simp add: search_fingerprints_def search_all_append)
qed

section \<open>Properties\<close>

text \<open>C16. The comparison with the early exit agrees with the full weighted sum of absolute
  differences: that sum, or the largest number when it exceeds the limit; nothing wraps.\<close>

theorem match_single_sum:
  assumes "len < 2 ^ 32" "len \<le> length fp"
  shows "match_single fp samples len giveup =
    Inr (if match_sum fp samples len \<le> unat giveup then of_nat (match_sum fp samples len) else -1)"
  by (rule match_single_eq [OF assms])

definition silent_fp :: fingerprint_t where
  "silent_fp = fingerprint_alloc\<lparr>fp_name := ''silence'', fp_samples := [0], fp_len := 1\<rparr>"

lemma silent_fp_ok: "fp_ok silent_fp"
  by (simp add: fp_ok_def silent_fp_def)

lemma silent_sum: "match_sum [0] samples 1 = nat \<bar>sint (samples 0)\<bar> * 8"
  by (simp add: match_sum_def match_term_def match_weight_def signed_divide_int_def nat_mult_distrib)

lemma silent_hit: "hit (\<lambda>_. 0) 1 silent_fp"
  by (simp add: hit_def pos_sum_def silent_fp_def giveup_nat_def at_ofs_def silent_sum [simplified])

theorem match_single_sum_witness: "match_single [0] (\<lambda>_. 5) 1 100 = Inr 40 \<and> match_single [0] (\<lambda>_. 5) 1 30 = Inr (-1)"
  using match_single_sum [of 1 "[0]" "\<lambda>_. 5" 100] match_single_sum [of 1 "[0]" "\<lambda>_. 5" 30]
  by (simp add: silent_sum [simplified])

text \<open>C14. With at most five fingerprints that match, the search reports the first of those with
  the least score, at the first of its best positions, with the samples around it; with none,
  it reports nothing.\<close>

theorem search_reports_best:
  assumes "\<forall>f\<in>set fps. fp_ok f" "length (hits samples len fps) \<le> TOPLEN"
  shows "if hits samples len fps = [] then search_fingerprints fps samples len ln = Inr None
    else \<exists>k. least_score samples len (hits samples len fps) k
      \<and> search_fingerprints fps samples len ln = Inr (Some (report_of samples len ln (hits samples len fps ! k)))"
  using search_fingerprints_eq [OF assms, of ln] by simp

theorem search_reports_best_witness:
  "search_fingerprints [silent_fp] (\<lambda>_. 0) 1 0 = Inr (Some (report_of (\<lambda>_. 0) 1 0 silent_fp))"
proof -
  have h: "hits (\<lambda>_. 0) 1 [silent_fp] = [silent_fp]" using silent_hit by simp
  show ?thesis
    using search_reports_best [of "[silent_fp]" "\<lambda>_. 0" 1 0] silent_fp_ok unfolding h
    by (auto simp: TOPLEN_def least_score_def)
qed

text \<open>C15. A sixth matching fingerprint makes the search write in front of its table: the worst
  match is never recorded, so the code that should replace it stores at index \<open>-1\<close>.\<close>

theorem search_overruns_table:
  assumes "\<forall>f\<in>set fps. fp_ok f" "TOPLEN < length (hits samples len fps)"
  shows "search_fingerprints fps samples len ln = Inl Out_of_bounds"
  by (rule search_fingerprints_overrun [OF assms])

theorem search_overruns_table_witness:
  "search_fingerprints (replicate 6 silent_fp) (\<lambda>_. 0) 1 0 = Inl Out_of_bounds"
proof -
  have "hits (\<lambda>_. 0) 1 (replicate 6 silent_fp) = replicate 6 silent_fp"
    using silent_hit by (simp add: filter_True)
  then show ?thesis
    using search_overruns_table [of "replicate 6 silent_fp" "\<lambda>_. 0" 1 0] silent_fp_ok by (simp add: TOPLEN_def)
qed

end
