(* ===== verification/Out_json.thy ===== *)
theory Out_json
  imports Cstrings
begin

section \<open>The outgoing message queue (\<open>out_json.c\<close>)\<close>

text \<open>
  Messages wait in a singly linked list with a pointer to the place where the next cell is
  to be hung; an exporting thread takes the whole list and posts it to the uplinks. The
  cells live in an explicit store, so that the aliasing of the tail pointer (the global
  head, or the \<open>next\<close> field of the last cell) is part of the model. The lemmas: push and
  take implement a FIFO queue; over all interleavings of pushes with the thread nothing is
  lost, duplicated or reordered.
\<close>

subsection \<open>The contract of a message queue\<close>

locale message_queue =
  fixes push :: "'s \<Rightarrow> 'm \<Rightarrow> 's res"
    and contents :: "'s \<Rightarrow> 'm list"
    and ok :: "'s \<Rightarrow> bool"
  assumes push_ok: "ok s \<Longrightarrow> \<exists>s'. push s m = Inr s' \<and> ok s' \<and> contents s' = contents s @ [m]"
begin

fun push_all :: "'s \<Rightarrow> 'm list \<Rightarrow> 's res" where
  "push_all s [] = Inr s"
| "push_all s (m # ms) = res_bind (push s m) (\<lambda>s1. push_all s1 ms)"

lemma push_all_ok: "ok s \<Longrightarrow> \<exists>s'. push_all s ms = Inr s' \<and> ok s' \<and> contents s' = contents s @ ms"
proof (induction ms arbitrary: s)
  case (Cons m ms)
  obtain s1 where s1: "push s m = Inr s1" "ok s1" "contents s1 = contents s @ [m]"
    using push_ok [OF Cons.prems] by blast
  with Cons.IH [OF s1(2)] show ?case by auto
qed simp

lemma push_contents: "ok s \<Longrightarrow> push s m = Inr s' \<Longrightarrow> ok s' \<and> contents s' = contents s @ [m]"
  using push_ok [of s m] by auto

end

subsection \<open>The linked list\<close>

record que_t =
  q_s :: "string option"
  q_next :: "nat option"

text \<open>\<open>out_json_tail\<close> points at \<open>out_json_que\<close> itself or at the \<open>next\<close> of a cell.\<close>

datatype tail_t = To_que | To_next nat

record outq =
  cells :: "nat \<Rightarrow> que_t option"
  fresh :: nat
  out_json_que :: "nat option"
  out_json_tail :: tail_t

definition outq_init :: outq where
  "outq_init = \<lparr>cells = (\<lambda>_. None), fresh = 0, out_json_que = None, out_json_tail = To_que\<rparr>"

text \<open>\<open>q = hmalloc(...)\<close>, fill it, \<open>*out_json_tail = q; out_json_tail = &q->next\<close>\<close>

definition jsonout_push :: "outq \<Rightarrow> string option \<Rightarrow> outq res" where
  "jsonout_push q s =
     (let a = fresh q;
          q1 = q\<lparr>cells := (cells q)(a \<mapsto> \<lparr>q_s = s, q_next = None\<rparr>), fresh := a + 1\<rparr>
      in case out_json_tail q of
           To_que \<Rightarrow> Inr (q1\<lparr>out_json_que := Some a, out_json_tail := To_next a\<rparr>)
         | To_next b \<Rightarrow>
             (case cells q1 b of
                None \<Rightarrow> Inl Null_pointer
              | Some c \<Rightarrow> Inr (q1\<lparr>cells := (cells q1)(b \<mapsto> c\<lparr>q_next := Some a\<rparr>),
                                out_json_tail := To_next a\<rparr>)))"

text \<open>The locked section of the exporting thread: it takes the list and resets the queue.\<close>

definition jsonout_take :: "outq \<Rightarrow> outq \<times> nat option" where
  "jsonout_take q = (q\<lparr>out_json_tail := To_que, out_json_que := None\<rparr>, out_json_que q)"

text \<open>
  Walking a list from a cell. The fuel bounds the number of cells visited; \<open>fresh\<close>, the
  number of cells ever allocated, is always enough (\<open>walk_chain\<close>).
\<close>

fun walk :: "nat \<Rightarrow> (nat \<Rightarrow> que_t option) \<Rightarrow> nat option \<Rightarrow> string option list res" where
  "walk fuel h None = Inr []"
| "walk 0 h (Some a) = Inl Null_pointer"
| "walk (Suc fuel) h (Some a) =
     (case h a of
        None \<Rightarrow> Inl Null_pointer
      | Some c \<Rightarrow> res_bind (walk fuel h (q_next c)) (\<lambda>ms. Inr (q_s c # ms)))"

definition pending :: "outq \<Rightarrow> string option list" where
  "pending q = (case walk (fresh q) (cells q) (out_json_que q) of Inl _ \<Rightarrow> [] | Inr ms \<Rightarrow> ms)"

subsection \<open>The shape of the list\<close>

primrec chain :: "(nat \<Rightarrow> que_t option) \<Rightarrow> nat option \<Rightarrow> nat list \<Rightarrow> bool" where
  "chain h p [] \<longleftrightarrow> p = None"
| "chain h p (a # as) \<longleftrightarrow> p = Some a \<and> (\<exists>c. h a = Some c \<and> chain h (q_next c) as)"

definition msgs :: "(nat \<Rightarrow> que_t option) \<Rightarrow> nat list \<Rightarrow> string option list" where
  "msgs h as = map (\<lambda>a. q_s (the (h a))) as"

lemma chain_frame: "a \<notin> set as \<Longrightarrow> chain (h(a := v)) p as = chain h p as"
  by (induction as arbitrary: p) auto

lemma msgs_frame: "a \<notin> set as \<Longrightarrow> msgs (h(a := v)) as = msgs h as"
  by (auto simp: msgs_def)

lemma chain_alloc: "chain h p as \<Longrightarrow> a \<in> set as \<Longrightarrow> h a \<noteq> None"
  by (induction as arbitrary: p) auto

text \<open>Hanging a new last cell on a list.\<close>

lemma chain_snoc:
  assumes "chain h p (as @ [b])" "distinct (as @ [b])" "h b = Some c" "a \<notin> set (as @ [b])"
  shows "chain (h(a \<mapsto> \<lparr>q_s = s, q_next = None\<rparr>, b \<mapsto> c\<lparr>q_next := Some a\<rparr>)) p (as @ [b, a])"
  using assms
proof (induction as arbitrary: p)
  case (Cons x as)
  then obtain d where d: "p = Some x" "h x = Some d" "chain h (q_next d) (as @ [b])" by auto
  then show ?case using Cons by auto
qed auto

lemma walk_chain: "chain h p as \<Longrightarrow> length as \<le> fuel \<Longrightarrow> walk fuel h p = Inr (msgs h as)"
proof (induction as arbitrary: p fuel)
  case Nil
  then show ?case by (simp add: msgs_def)
next
  case (Cons a as)
  then obtain c f where "p = Some a" "h a = Some c" "chain h (q_next c) as" "fuel = Suc f"
    by (cases fuel) auto
  with Cons show ?case by (simp add: msgs_def)
qed

lemma chain_unique: "chain h p as \<Longrightarrow> chain h p bs \<Longrightarrow> as = bs"
proof (induction as arbitrary: p bs)
  case Nil
  then show ?case by (cases bs) auto
next
  case (Cons a as)
  then show ?case by (cases bs) auto
qed

definition outq_shape :: "outq \<Rightarrow> nat list \<Rightarrow> bool" where
  "outq_shape q as \<longleftrightarrow> chain (cells q) (out_json_que q) as \<and> distinct as \<and> set as \<subseteq> {..<fresh q}
     \<and> out_json_tail q = (if as = [] then To_que else To_next (last as))"

definition outq_ok :: "outq \<Rightarrow> bool" where
  "outq_ok q \<longleftrightarrow> (\<exists>as. outq_shape q as)"

lemma bounded_distinct_length: "distinct as \<Longrightarrow> set as \<subseteq> {..<n} \<Longrightarrow> length as \<le> n"
  by (metis card_lessThan card_mono distinct_card finite_lessThan)

lemma pending_shape: "outq_shape q as \<Longrightarrow> pending q = msgs (cells q) as"
  using walk_chain [of "cells q" "out_json_que q" as "fresh q"]
  by (simp add: pending_def outq_shape_def bounded_distinct_length)

lemma shape_push:
  assumes "outq_shape q as"
  obtains q' where "jsonout_push q s = Inr q'" "outq_shape q' (as @ [fresh q])"
    "msgs (cells q') (as @ [fresh q]) = msgs (cells q) as @ [s]"
    "\<And>p bs. set bs \<inter> set as = {} \<Longrightarrow> set bs \<subseteq> {..<fresh q} \<Longrightarrow>
        chain (cells q') p bs = chain (cells q) p bs \<and> msgs (cells q') bs = msgs (cells q) bs"
    "fresh q' = fresh q + 1"
proof -
  have fr: "fresh q \<notin> set as" using assms by (auto simp: outq_shape_def)
  show thesis
  proof (cases as rule: rev_cases)
    case Nil
    then have "out_json_tail q = To_que" using assms by (simp add: outq_shape_def)
    let ?q = "q\<lparr>cells := (cells q)(fresh q \<mapsto> \<lparr>q_s = s, q_next = None\<rparr>),
            fresh := fresh q + 1, out_json_que := Some (fresh q), out_json_tail := To_next (fresh q)\<rparr>"
    show thesis
    proof (rule that [of ?q])
      show "jsonout_push q s = Inr ?q"
        using \<open>out_json_tail q = To_que\<close> by (simp add: jsonout_push_def Let_def)
      show "outq_shape ?q (as @ [fresh q])" using Nil by (simp add: outq_shape_def)
      show "msgs (cells ?q) (as @ [fresh q]) = msgs (cells q) as @ [s]" using Nil by (simp add: msgs_def)
      show "fresh ?q = fresh q + 1" by simp
    next
      fix p and bs :: "nat list" assume "set bs \<subseteq> {..<fresh q}"
      then have "fresh q \<notin> set bs" by auto
      then show "chain (cells ?q) p bs = chain (cells q) p bs \<and> msgs (cells ?q) bs = msgs (cells q) bs"
        by (simp add: chain_frame msgs_frame)
    qed
  next
    case (snoc as' b)
    then obtain c where c: "cells q b = Some c"
      using assms chain_alloc [of "cells q" "out_json_que q" as b] by (auto simp: outq_shape_def)
    have bf: "b \<noteq> fresh q" and bas: "b \<notin> set as'" using fr snoc assms by (auto simp: outq_shape_def)
    let ?h = "(cells q)(fresh q \<mapsto> \<lparr>q_s = s, q_next = None\<rparr>, b \<mapsto> c\<lparr>q_next := Some (fresh q)\<rparr>)"
    let ?q = "q\<lparr>cells := ?h, fresh := fresh q + 1, out_json_tail := To_next (fresh q)\<rparr>"
    show thesis
    proof (rule that [of ?q])
      show "jsonout_push q s = Inr ?q"
        using assms snoc c bf by (simp add: jsonout_push_def Let_def outq_shape_def)
      have "chain ?h (out_json_que q) (as' @ [b, fresh q])"
        by (rule chain_snoc) (use assms snoc c fr in \<open>auto simp: outq_shape_def\<close>)
      then show "outq_shape ?q (as @ [fresh q])"
        using assms snoc fr by (auto simp: outq_shape_def)
      show "msgs (cells ?q) (as @ [fresh q]) = msgs (cells q) as @ [s]"
        using snoc c bf bas fr by (auto simp: msgs_def)
      show "fresh ?q = fresh q + 1" by simp
    next
      fix p bs assume "set bs \<inter> set as = {}" "set bs \<subseteq> {..<fresh q}"
      then have "b \<notin> set bs" "fresh q \<notin> set bs" using snoc by auto
      then show "chain (cells ?q) p bs = chain (cells q) p bs \<and> msgs (cells ?q) bs = msgs (cells q) bs"
        by (simp add: chain_frame msgs_frame)
    qed
  qed
qed

lemma jsonout_push_ok:
  assumes "outq_ok q"
  shows "\<exists>q'. jsonout_push q s = Inr q' \<and> outq_ok q' \<and> pending q' = pending q @ [s]"
proof -
  obtain as where as: "outq_shape q as" using assms by (auto simp: outq_ok_def)
  obtain q' where "jsonout_push q s = Inr q'" "outq_shape q' (as @ [fresh q])"
    "msgs (cells q') (as @ [fresh q]) = msgs (cells q) as @ [s]"
    by (rule shape_push [OF as]) blast
  then show ?thesis
    using as by (auto simp: outq_ok_def pending_shape)
qed

interpretation ojq: message_queue jsonout_push pending outq_ok
  by unfold_locales (rule jsonout_push_ok)

lemma shape_init: "outq_shape outq_init []"
  by (simp add: outq_shape_def outq_init_def)

lemma outq_ok_init: "outq_ok outq_init"
  using shape_init by (auto simp: outq_ok_def)

lemma pending_init: "pending outq_init = []"
  by (simp add: pending_shape [OF shape_init] msgs_def)

lemma take_shape:
  assumes "outq_shape q as"
  shows "outq_shape (fst (jsonout_take q)) []"
    and "chain (cells (fst (jsonout_take q))) (snd (jsonout_take q)) as"
    and "pending (fst (jsonout_take q)) = []"
proof -
  show sh: "outq_shape (fst (jsonout_take q)) []"
    by (simp add: outq_shape_def jsonout_take_def)
  show "chain (cells (fst (jsonout_take q))) (snd (jsonout_take q)) as"
    using assms by (simp add: outq_shape_def jsonout_take_def)
  show "pending (fst (jsonout_take q)) = []"
    by (simp add: pending_shape [OF sh] msgs_def)
qed

subsection \<open>Posting a batch\<close>

text \<open>One part of the multipart form: its name, its content type and its contents.\<close>

type_synonym form_part = "string \<times> string \<times> string option"

fun form_items :: "nat \<Rightarrow> string option list \<Rightarrow> form_part list" where
  "form_items n [] = [(''c'', ''text/plain'', Some (take 31 (dec_nat n)))]"
| "form_items n (m # ms) = (take 31 (dec_nat n), ''application/json'', m) # form_items (n + 1) ms"

definition jsonout_form :: "string option list \<Rightarrow> form_part list" where
  "jsonout_form ms = (''what'', ''text/plain'', Some ''edy'') # form_items 0 ms"

definition UPLINK_JSON :: int where
  "UPLINK_JSON = 1"

text \<open>\<open>jsonout_post_all\<close>: the requests it makes, in order, each a URL with the form.\<close>

definition jsonout_post_all :: "(int \<times> string) list \<Rightarrow> outq \<Rightarrow> nat option \<Rightarrow> (string \<times> form_part list) list res" where
  "jsonout_post_all uplinks q p =
     res_bind (walk (fresh q) (cells q) p) (\<lambda>ms.
       Inr (map (\<lambda>(proto, url). (url, jsonout_form ms)) (filter (\<lambda>(proto, url). proto = UPLINK_JSON) uplinks)))"

text \<open>
  \<open>jsonout_post_single\<close> against the answers of the HTTP library: whether the handle and
  the header list could be made, the codes of the six options, of the request and of
  the query for the response code, and the response code. When the header list fails,
  \<open>r\<close> is returned without having been written.
\<close>

record curl_answers =
  curl_easy_init :: bool
  curl_slist_append :: bool
  setopt_codes :: "int list"
  perform_code :: int
  getinfo_code :: int
  response_code :: int

definition first_failure :: "int list \<Rightarrow> int" where
  "first_failure rs = (case find (\<lambda>r. r \<noteq> 0) rs of None \<Rightarrow> 0 | Some r \<Rightarrow> r)"

definition jsonout_post_single :: "curl_answers \<Rightarrow> int res" where
  "jsonout_post_single c =
     (if \<not> curl_easy_init c then Inr 1
      else if \<not> curl_slist_append c then Inl Uninitialised
      else
        let r = first_failure (setopt_codes c @ [perform_code c, getinfo_code c]);
            retcode = (if first_failure (setopt_codes c @ [perform_code c]) = 0 \<and> getinfo_code c = 0
                       then response_code c else 200)
        in Inr (if retcode \<noteq> 200 then -1 else r))"

lemma first_failure_0: "first_failure rs = 0 \<longleftrightarrow> (\<forall>r \<in> set rs. r = 0)"
  by (auto simp: first_failure_def find_None_iff find_Some_iff split: option.splits)

lemma post_single_success:
  "jsonout_post_single c = Inr 0 \<longleftrightarrow>
     curl_easy_init c \<and> curl_slist_append c \<and> (\<forall>r \<in> set (setopt_codes c). r = 0)
     \<and> perform_code c = 0 \<and> getinfo_code c = 0 \<and> response_code c = 200"
  by (auto simp: jsonout_post_single_def Let_def first_failure_0)

lemma length_form_items: "length (form_items n ms) = length ms + 1"
  by (induction ms arbitrary: n) auto

lemma form_items_nth:
  "i < length ms \<Longrightarrow> form_items n ms ! i = (take 31 (dec_nat (n + i)), ''application/json'', ms ! i)"
proof (induction ms arbitrary: n i)
  case (Cons m ms)
  then show ?case by (cases i) auto
qed simp

lemma form_items_nonempty [simp]: "form_items n ms \<noteq> []"
  by (cases ms) auto

lemma form_items_last: "last (form_items n ms) = (''c'', ''text/plain'', Some (take 31 (dec_nat (n + length ms))))"
  by (induction ms arbitrary: n) auto

subsection \<open>The exporting thread and the rest of the program\<close>

text \<open>
  The places where the thread can be: at the test of \<open>jsonout_die\<close>, in \<open>usleep\<close>, between
  the unlocked test of \<open>out_json_que\<close> and the lock, posting a list, or returned.
\<close>

datatype thread_pc = T_top | T_sleep | T_lock | T_post "nat option" | T_returned

record jsys =
  jq :: outq
  jpc :: thread_pc
  jsonout_die :: bool
  jposted :: "string option list list"
  jpushed :: "string option list"

definition jsys_init :: jsys where
  "jsys_init = \<lparr>jq = outq_init, jpc = T_top, jsonout_die = False, jposted = [], jpushed = []\<rparr>"

text \<open>
  One step of the program or of the thread. \<open>jpushed\<close> and \<open>jposted\<close> record what has been
  pushed and the batches handed to \<open>jsonout_post_all\<close>.
\<close>

inductive jstep :: "jsys \<Rightarrow> jsys \<Rightarrow> bool" where
  push: "jsonout_push (jq s) m = Inr q \<Longrightarrow> jstep s (s\<lparr>jq := q, jpushed := jpushed s @ [m]\<rparr>)"
| die: "jstep s (s\<lparr>jsonout_die := True\<rparr>)"
| top_return: "jpc s = T_top \<Longrightarrow> jsonout_die s \<Longrightarrow> jstep s (s\<lparr>jpc := T_returned\<rparr>)"
| top_sleep: "jpc s = T_top \<Longrightarrow> \<not> jsonout_die s \<Longrightarrow> jstep s (s\<lparr>jpc := T_sleep\<rparr>)"
| wake_empty: "jpc s = T_sleep \<Longrightarrow> out_json_que (jq s) = None \<Longrightarrow> jstep s (s\<lparr>jpc := T_top\<rparr>)"
| wake_full: "jpc s = T_sleep \<Longrightarrow> out_json_que (jq s) \<noteq> None \<Longrightarrow> jstep s (s\<lparr>jpc := T_lock\<rparr>)"
| grab: "jpc s = T_lock \<Longrightarrow> jsonout_take (jq s) = (q, p) \<Longrightarrow> jstep s (s\<lparr>jq := q, jpc := T_post p\<rparr>)"
| post: "jpc s = T_post p \<Longrightarrow> walk (fresh (jq s)) (cells (jq s)) p = Inr ms \<Longrightarrow>
     jstep s (s\<lparr>jpc := T_top, jposted := jposted s @ [ms]\<rparr>)"

inductive jreach :: "jsys \<Rightarrow> bool" where
  start: "jreach jsys_init"
| step: "jreach s \<Longrightarrow> jstep s t \<Longrightarrow> jreach t"

inductive_cases jstepE: "jstep s t"

text \<open>Start and end of the thread, with the answers of \<open>pthread_create\<close> and \<open>pthread_join\<close>.\<close>

definition jsonout_init :: "int \<Rightarrow> int" where
  "jsonout_init created = (if created \<noteq> 0 then - 1 else 0)"

definition jsonout_deinit :: "int \<Rightarrow> jsys \<Rightarrow> jsys \<times> int" where
  "jsonout_deinit joined s = (s\<lparr>jsonout_die := True\<rparr>, if joined \<noteq> 0 then - 1 else 0)"

text \<open>
  \<open>time_jsonais\<close>: the text in the buffer and the value returned, from what \<open>gmtime_r\<close>
  answers.
\<close>

definition time_jsonais :: "tod option \<Rightarrow> nat \<Rightarrow> string option \<times> int" where
  "time_jsonais dt buflen =
     (if buflen < 15 then (None, - 1)
      else case dt of
        None \<Rightarrow> (None, - 1)
      | Some t \<Rightarrow>
          let txt = pad0 4 (tm_year t + 1900) @ pad0 2 (tm_mon t + 1) @ pad0 2 (tm_mday t)
                @ pad0 2 (tm_hour t) @ pad0 2 (tm_min t) @ pad0 2 (tm_sec t)
          in (Some (take (buflen - 1) txt), int (length txt)))"

lemma time_jsonais_whole:
  assumes "tm_year t < 8100" "tm_mon t < 12" "tm_mday t < 32" "tm_hour t < 24" "tm_min t < 60" "tm_sec t < 61" "15 \<le> n"
  shows "\<exists>txt. time_jsonais (Some t) n = (Some txt, 14) \<and> length txt = 14"
  using assms by (simp add: time_jsonais_def Let_def length_pad0)

text \<open>The list the thread is posting; the cells of both lists are disjoint.\<close>

definition in_flight :: "jsys \<Rightarrow> nat list \<Rightarrow> bool" where
  "in_flight s bs \<longleftrightarrow>
     (case jpc s of T_post p \<Rightarrow> chain (cells (jq s)) p bs \<and> distinct bs \<and> set bs \<subseteq> {..<fresh (jq s)} \<and> bs \<noteq> []
      | _ \<Rightarrow> bs = [])"

definition jinv :: "jsys \<Rightarrow> bool" where
  "jinv s \<longleftrightarrow> (\<exists>as bs. outq_shape (jq s) as \<and> in_flight s bs \<and> set as \<inter> set bs = {}
     \<and> jpushed s = concat (jposted s) @ msgs (cells (jq s)) bs @ msgs (cells (jq s)) as
     \<and> (jpc s = T_lock \<longrightarrow> as \<noteq> []) \<and> [] \<notin> set (jposted s))"

lemma jinv_init: "jinv jsys_init"
  using shape_init by (auto simp: jinv_def jsys_init_def in_flight_def msgs_def)

lemma shape_head: "outq_shape q as \<Longrightarrow> out_json_que q = None \<longleftrightarrow> as = []"
  by (cases as) (auto simp: outq_shape_def)

lemma jinv_push:
  assumes "jinv s" "jsonout_push (jq s) m = Inr q"
  shows "jinv (s\<lparr>jq := q, jpushed := jpushed s @ [m]\<rparr>)"
proof -
  obtain as bs where i: "outq_shape (jq s) as" "in_flight s bs" "set as \<inter> set bs = {}"
    "jpushed s = concat (jposted s) @ msgs (cells (jq s)) bs @ msgs (cells (jq s)) as"
    "jpc s = T_lock \<longrightarrow> as \<noteq> []" "[] \<notin> set (jposted s)"
    using assms(1) by (auto simp: jinv_def)
  have fl: "set bs \<subseteq> {..<fresh (jq s)}"
    using i(2) by (auto simp: in_flight_def split: thread_pc.splits)
  have dis: "set bs \<inter> set as = {}" using i(3) by auto
  obtain q' where q': "jsonout_push (jq s) m = Inr q'" "outq_shape q' (as @ [fresh (jq s)])"
    "msgs (cells q') (as @ [fresh (jq s)]) = msgs (cells (jq s)) as @ [m]"
    "\<And>p bs. set bs \<inter> set as = {} \<Longrightarrow> set bs \<subseteq> {..<fresh (jq s)} \<Longrightarrow>
        chain (cells q') p bs = chain (cells (jq s)) p bs \<and> msgs (cells q') bs = msgs (cells (jq s)) bs"
    "fresh q' = fresh (jq s) + 1"
    by (rule shape_push [OF i(1), where s = m]) blast
  have qq: "q' = q" using q'(1) assms(2) by simp
  note fr = q'(4) [OF dis fl]
  let ?t = "s\<lparr>jq := q, jpushed := jpushed s @ [m]\<rparr>"
  have "in_flight ?t bs"
    using i(2) fr q'(5) qq by (auto simp: in_flight_def split: thread_pc.splits)
  moreover have "set (as @ [fresh (jq s)]) \<inter> set bs = {}" using i(3) fl by auto
  moreover have "jpushed ?t = concat (jposted ?t) @ msgs (cells (jq ?t)) bs
      @ msgs (cells (jq ?t)) (as @ [fresh (jq s)])"
    using i(4) q'(3) fr qq by simp
  ultimately show ?thesis
    unfolding jinv_def using i(6) q'(2) qq
    by (intro exI [of _ "as @ [fresh (jq s)]"] exI [of _ bs]) simp
qed

text \<open>Steps that only move the thread, outside \<open>T_post\<close>, or set the flag.\<close>

lemma jinv_move:
  assumes "jinv s" "jq t = jq s" "jposted t = jposted s" "jpushed t = jpushed s"
    and "jpc t = jpc s \<or> (\<forall>p. jpc s \<noteq> T_post p \<and> jpc t \<noteq> T_post p)
           \<and> (jpc t = T_lock \<longrightarrow> out_json_que (jq s) \<noteq> None)"
  shows "jinv t"
proof -
  obtain as bs where i: "outq_shape (jq s) as" "in_flight s bs" "set as \<inter> set bs = {}"
    "jpushed s = concat (jposted s) @ msgs (cells (jq s)) bs @ msgs (cells (jq s)) as"
    "jpc s = T_lock \<longrightarrow> as \<noteq> []" "[] \<notin> set (jposted s)"
    using assms(1) by (auto simp: jinv_def)
  have "in_flight t bs"
    using i(2) assms(2,5) by (auto simp: in_flight_def split: thread_pc.splits)
  moreover have "jpc t = T_lock \<longrightarrow> as \<noteq> []"
    using i(1,5) assms(5) by (auto simp: shape_head)
  ultimately show ?thesis
    unfolding jinv_def using i assms(2-4) by (intro exI [of _ as] exI [of _ bs]) simp
qed

lemma jinv_step: "jstep s t \<Longrightarrow> jinv s \<Longrightarrow> jinv t"
proof (induction rule: jstep.induct)
  case (push s m q)
  then show ?case by (intro jinv_push)
next
  case (grab s q p)
  then obtain as where as: "outq_shape (jq s) as" "as \<noteq> []" "[] \<notin> set (jposted s)"
    "jpushed s = concat (jposted s) @ msgs (cells (jq s)) as"
    by (auto simp: jinv_def in_flight_def msgs_def)
  have "outq_shape q []" and c: "chain (cells q) p as" and e: "cells q = cells (jq s)" "fresh q = fresh (jq s)"
    using take_shape [OF as(1)] grab.hyps(2) by (auto simp: jsonout_take_def)
  then show ?case
    unfolding jinv_def using as
    by (intro exI [of _ "[]"] exI [of _ as])
      (auto simp: in_flight_def outq_shape_def msgs_def)
next
  case (post s p ms)
  then obtain as bs where i: "outq_shape (jq s) as" "chain (cells (jq s)) p bs" "distinct bs"
    "set bs \<subseteq> {..<fresh (jq s)}" "bs \<noteq> []" "[] \<notin> set (jposted s)"
    "jpushed s = concat (jposted s) @ msgs (cells (jq s)) bs @ msgs (cells (jq s)) as"
    by (auto simp: jinv_def in_flight_def)
  have "ms = msgs (cells (jq s)) bs"
    using post.hyps(2) walk_chain [OF i(2) bounded_distinct_length [OF i(3,4)]] by simp
  then show ?case
    unfolding jinv_def using i
    by (intro exI [of _ as] exI [of _ "[]"]) (auto simp: in_flight_def msgs_def)
next
  case (wake_full s)
  then show ?case by (intro jinv_move [OF wake_full(3)]) auto
qed (auto intro: jinv_move)

lemma jreach_inv: "jreach s \<Longrightarrow> jinv s"
  by (induction rule: jreach.induct) (auto intro: jinv_init jinv_step)

text \<open>What the thread holds but has not handed over yet.\<close>

definition in_flight_msgs :: "jsys \<Rightarrow> string option list" where
  "in_flight_msgs s =
     (case jpc s of T_post p \<Rightarrow> (case walk (fresh (jq s)) (cells (jq s)) p of Inl _ \<Rightarrow> [] | Inr ms \<Rightarrow> ms)
      | _ \<Rightarrow> [])"

lemma in_flight_eq: "in_flight s bs \<Longrightarrow> in_flight_msgs s = msgs (cells (jq s)) bs"
proof (cases "jpc s")
  case (T_post p)
  assume "in_flight s bs"
  with T_post have "walk (fresh (jq s)) (cells (jq s)) p = Inr (msgs (cells (jq s)) bs)"
    by (intro walk_chain bounded_distinct_length) (auto simp: in_flight_def)
  with T_post show ?thesis by (simp add: in_flight_msgs_def)
qed (auto simp: in_flight_def in_flight_msgs_def msgs_def)

section \<open>Properties\<close>

text \<open>C11. Whatever the interleaving of the program and the exporting thread, everything pushed
  has been posted, is being posted, or is in the queue: in order, nothing lost, nothing twice.\<close>

theorem export_in_order:
  assumes "jreach s"
  shows "jpushed s = concat (jposted s) @ in_flight_msgs s @ pending (jq s)"
proof -
  obtain as bs where "outq_shape (jq s) as" "in_flight s bs"
    "jpushed s = concat (jposted s) @ msgs (cells (jq s)) bs @ msgs (cells (jq s)) as"
    using jreach_inv [OF assms] by (auto simp: jinv_def)
  then show ?thesis by (simp add: in_flight_eq pending_shape)
qed

theorem export_in_order_witness:
  "\<exists>s. jreach s \<and> jpushed s = [Some ''x''] \<and> jpushed s = concat (jposted s) @ in_flight_msgs s @ pending (jq s)"
proof -
  obtain q where q: "jsonout_push (jq jsys_init) (Some ''x'') = Inr q"
    using jsonout_push_ok [OF outq_ok_init, of "Some ''x''"] by (auto simp: jsys_init_def)
  let ?s = "jsys_init\<lparr>jq := q, jpushed := jpushed jsys_init @ [Some ''x'']\<rparr>"
  have r: "jreach ?s" by (rule jreach.step [OF jreach.start jstep.push [OF q]])
  show ?thesis using export_in_order [OF r] r by (intro exI [of _ ?s]) (simp add: jsys_init_def)
qed

end
