(* ===== verification/Squelch.thy ===== *)
theory Squelch
  imports Fpmatch Fir_filter
begin

section \<open>The squelch and its events (\<open>receiver.c\<close>, second part)\<close>

text \<open>
  \<open>copy_buffer\<close>, which copies a block of samples into the receiver's memory while it
  follows the noise level, opens and closes the squelch and reports both; and
  \<open>event_id\<close>, \<open>notify_queue\<close>, \<open>notify_out\<close>, \<open>notify_out_sql\<close> and
  \<open>notify_out_over_end\<close>, which build the reports. The \<open>static\<close> variables of
  \<open>copy_buffer\<close>, \<open>sql_open\<close> and \<open>current_event_id\<close> are one record: they exist once in
  the program, whatever the number of receivers.
\<close>

subsection \<open>State and environment\<close>

record squelch =
  sql_open :: bool
  sql_pos :: u64
  sql_red_step :: u32
  sql_open_at_pos :: u64
  sql_absval_sum :: u64
  current_event_id :: string
  outbox :: "string option list"
  trees :: "cJSON list"

text \<open>
  \<open>outbox\<close> lists what \<open>notify_queue\<close> handed to \<open>jsonout_push\<close>; \<open>trees\<close> is a ghost
  variable, the tree each text was printed from.

  What the system answers while one sample is handled: \<open>gettimeofday\<close> (broken down by
  \<open>gmtime_r\<close>, or \<open>None\<close> when it fails), \<open>time(NULL)\<close>, and the contents of the stack below,
  in and above \<open>filtered_samples\<close> that no write has reached.
\<close>

record sql_env =
  e_tod :: "tod option"
  e_time :: int
  e_stack :: "int \<Rightarrow> s16"

definition SAMPLE_RATE :: nat where "SAMPLE_RATE = 48000"
definition SQL_ABSVAL_DIVIDER :: nat where "SQL_ABSVAL_DIVIDER = SAMPLE_RATE div 40"
definition SQL_ABSVAL_THR_OPEN :: nat where "SQL_ABSVAL_THR_OPEN = 1500 * SQL_ABSVAL_DIVIDER"
definition SQL_ABSVAL_THR_CLOSE :: nat where "SQL_ABSVAL_THR_CLOSE = 3400 * SQL_ABSVAL_DIVIDER"
definition SQL_OPEN_SCAN_LEN :: nat where "SQL_OPEN_SCAN_LEN = SQL_ABSVAL_DIVIDER * 2"

lemmas sql_consts = SAMPLE_RATE_def SQL_ABSVAL_DIVIDER_def SQL_ABSVAL_THR_OPEN_def
  SQL_ABSVAL_THR_CLOSE_def SQL_OPEN_SCAN_LEN_def

declare sql_consts [c_consts]

definition squelch_init :: squelch where
  "squelch_init = \<lparr>sql_open = False, sql_pos = 0, sql_red_step = 0, sql_open_at_pos = 0,
     sql_absval_sum = of_nat SQL_ABSVAL_THR_CLOSE, current_event_id = [], outbox = [], trees = []\<rparr>"

subsection \<open>Reports\<close>

definition EVENT_ID_SIZE :: nat where "EVENT_ID_SIZE = 48"

text \<open>
  \<open>snprintf(buf, buflen-1, ...)\<close> writes at most \<open>buflen - 2\<close> characters and returns the
  length of the whole text.
\<close>

definition event_id :: "tod option \<Rightarrow> nat \<Rightarrow> string \<times> int" where
  "event_id tod buflen =
     (case tod of
        None \<Rightarrow> ([], -1)
      | Some tv \<Rightarrow>
          let txt = pad0 4 (tm_year tv + 1900) @ pad0 2 (tm_mon tv + 1) @ pad0 2 (tm_mday tv) @ ''-''
                @ pad0 2 (tm_hour tv) @ pad0 2 (tm_min tv) @ pad0 2 (tm_sec tv) @ ''.''
                @ pad0 3 (tv_usec tv div 1000)
          in (take (buflen - 2) txt, int (length txt)))"

definition notify_queue :: "cJSON \<Rightarrow> squelch \<Rightarrow> squelch" where
  "notify_queue no s = s\<lparr>outbox := outbox s @ [cJSON_PrintUnformatted no], trees := trees s @ [no]\<rparr>"

definition notify_out ::
  "sql_env \<Rightarrow> int \<Rightarrow> fingerprint_t \<Rightarrow> s16 list \<Rightarrow> int \<Rightarrow> int \<Rightarrow> squelch \<Rightarrow> squelch"
where
  "notify_out e q fp samples ofs last_noise s =
     (let s1 = s\<lparr>current_event_id := fst (event_id (e_tod e) EVENT_ID_SIZE)\<rparr>;
          no = cJSON_CreateObject;
          no = cJSON_AddStringToObject no ''id'' (current_event_id s1);
          no = cJSON_AddStringToObject no ''event'' ''match'';
          no = cJSON_AddNumberToObject no ''t'' (e_time e);
          no = cJSON_AddNumberToObject no ''duration'' (-1);
          no = cJSON_AddNumberToObject no ''q'' q;
          no = cJSON_AddNumberToObject no ''fplen'' (int (fp_len fp));
          no = cJSON_AddStringToObject no ''name'' (fp_name fp);
          no = cJSON_AddItemToObject no ''fp'' (cJSON_CreateShortArray (take (fp_len fp) (fp_samples fp)));
          no = cJSON_AddItemToObject no ''rx'' (cJSON_CreateShortArray samples);
          no = cJSON_AddNumberToObject no ''rxofs'' ofs;
          no = cJSON_AddNumberToObject no ''lnoise'' last_noise
      in notify_queue no s1)"

definition notify_out_sql :: "sql_env \<Rightarrow> s16 list \<Rightarrow> int \<Rightarrow> squelch \<Rightarrow> squelch" where
  "notify_out_sql e samples last_noise s =
     (let s1 = s\<lparr>current_event_id := fst (event_id (e_tod e) EVENT_ID_SIZE)\<rparr>;
          no = cJSON_CreateObject;
          no = cJSON_AddStringToObject no ''id'' (current_event_id s1);
          no = cJSON_AddStringToObject no ''event'' ''sql'';
          no = cJSON_AddNumberToObject no ''t'' (e_time e);
          no = cJSON_AddNumberToObject no ''duration'' (-1);
          no = cJSON_AddNumberToObject no ''lnoise'' last_noise;
          no = cJSON_AddItemToObject no ''rx'' (cJSON_CreateShortArray samples)
      in notify_queue no s1)"

definition notify_out_over_end :: "sql_env \<Rightarrow> u64 \<Rightarrow> squelch \<Rightarrow> squelch" where
  "notify_out_over_end e duration s =
     (let no = cJSON_CreateObject;
          no = cJSON_AddStringToObject no ''id'' (current_event_id s);
          no = cJSON_AddStringToObject no ''event'' ''sqlend'';
          no = cJSON_AddNumberToObject no ''t'' (e_time e);
          no = cJSON_AddNumberToObject no ''duration'' (uint duration)
      in notify_queue no s)"

subsection \<open>The scan when the squelch opens\<close>

text \<open>
  \<open>src\<close> is the memory from \<open>&out[od-SQL_OPEN_SCAN_LEN]\<close> on. The smoothed samples go to
  the array on the stack, which the search then reads by index.
\<close>

definition scan_open :: "fingerprint_t list \<Rightarrow> sql_env \<Rightarrow> s16 list \<Rightarrow> squelch \<Rightarrow> squelch res" where
  "scan_open fps e src s =
     res_bind (sample_filter_avg (map (\<lambda>i. e_stack e (int i)) [0..<SQL_OPEN_SCAN_LEN]) src SQL_OPEN_SCAN_LEN)
       (\<lambda>(filtered_samples, newlen).
         let last_noise_ofs = int SQL_OPEN_SCAN_LEN - int SQL_ABSVAL_DIVIDER;
             samples = (\<lambda>i. if 0 \<le> i \<and> i < int SQL_OPEN_SCAN_LEN
                             then filtered_samples ! nat i else e_stack e i)
         in res_bind (search_fingerprints fps samples newlen last_noise_ofs) (\<lambda>r.
              case r of
                None \<Rightarrow> Inr (notify_out_sql e (take newlen filtered_samples) last_noise_ofs s)
              | Some m \<Rightarrow> Inr (notify_out e (sint (r_q m)) (r_fp m) (r_rx m) (r_ofs m) (r_last_noise m) s)))"

subsection \<open>One sample\<close>

definition level_update :: "u64 \<Rightarrow> s16 \<Rightarrow> u64" where
  "level_update lev cur_sql =
     lev - lev div of_nat SQL_ABSVAL_DIVIDER
       + word_of_int (if sint cur_sql > 0 then sint cur_sql else sint cur_sql * - 1)"

definition over_length :: "squelch \<Rightarrow> u64" where
  "over_length s = ((sql_pos s - sql_open_at_pos s) * 1000) div of_nat SAMPLE_RATE"

text \<open>The two tests made on every fifteenth sample; \<open>pos\<close> is \<open>&out[od]\<close> as an index.\<close>

definition check_sql ::
  "fingerprint_t list \<Rightarrow> sql_env \<Rightarrow> s16 list \<Rightarrow> nat \<Rightarrow> squelch \<Rightarrow> squelch res"
where
  "check_sql fps e mem pos s =
     (let s1 = (if sql_open s \<and> sql_absval_sum s > of_nat SQL_ABSVAL_THR_CLOSE
                then (notify_out_over_end e (over_length s) s)\<lparr>sql_open := False\<rparr> else s)
      in if \<not> sql_open s1 \<and> sql_absval_sum s1 < of_nat SQL_ABSVAL_THR_OPEN
         then let s2 = s1\<lparr>sql_open := True, sql_open_at_pos := sql_pos s1\<rparr>
              in if pos < SQL_OPEN_SCAN_LEN then Inl Out_of_bounds
                 else scan_open fps e (drop (pos - SQL_OPEN_SCAN_LEN) mem) s2
         else Inr s1)"

definition sql_sample ::
  "fingerprint_t list \<Rightarrow> (u64 \<Rightarrow> sql_env) \<Rightarrow> s16 list \<Rightarrow> nat \<Rightarrow> s16 \<Rightarrow> squelch \<Rightarrow> squelch res"
where
  "sql_sample fps env mem pos cur_sql s =
     (let s1 = s\<lparr>sql_absval_sum := level_update (sql_absval_sum s) cur_sql,
                 sql_pos := sql_pos s + 1, sql_red_step := sql_red_step s + 1\<rparr>
      in if sql_red_step s1 = 15
         then check_sql fps (env (sql_pos s1)) mem pos (s1\<lparr>sql_red_step := 0\<rparr>)
         else Inr s1)"

subsection \<open>\<open>copy_buffer\<close>\<close>

text \<open>
  \<open>mem\<close> is the memory \<open>out\<close> points into, \<open>base\<close> the index of \<open>out[0]\<close>. \<open>minval\<close> and
  \<open>avgval_sum\<close> only feed disabled debugging output.
\<close>

function copy_buffer_loop ::
  "fingerprint_t list \<Rightarrow> (u64 \<Rightarrow> sql_env) \<Rightarrow> s16 list \<Rightarrow> s16 list \<Rightarrow> nat \<Rightarrow> nat \<Rightarrow> nat \<Rightarrow> nat \<Rightarrow> nat
    \<Rightarrow> s16 \<Rightarrow> s16 list \<Rightarrow> squelch \<Rightarrow> (s16 list \<times> squelch \<times> s16) res"
where
  "copy_buffer_loop fps env inp in_sql_hp base stp len ind od maxval mem s =
     (if od < len then
        res_bind (aget inp ind) (\<lambda>cur.
        res_bind (aset mem (base + od) cur) (\<lambda>mem1.
        res_bind (aget in_sql_hp od) (\<lambda>cur_sql.
        res_bind (sql_sample fps env mem1 (base + od) cur_sql s) (\<lambda>s1.
          copy_buffer_loop fps env inp in_sql_hp base stp len (ind + stp) (od + 1)
            (if sint cur > sint maxval then cur else maxval) mem1 s1))))
      else Inr (mem, s, maxval))"
  by pat_completeness auto
termination
  by (relation "measure (\<lambda>(fps, env, inp, hp, base, stp, len, ind, od, maxval, mem, s). len - od)") auto

declare copy_buffer_loop.simps [simp del]

definition copy_buffer ::
  "fingerprint_t list \<Rightarrow> (u64 \<Rightarrow> sql_env) \<Rightarrow> s16 list \<Rightarrow> s16 list \<Rightarrow> nat \<Rightarrow> s16 list \<Rightarrow> nat \<Rightarrow> nat
    \<Rightarrow> squelch \<Rightarrow> (s16 list \<times> squelch \<times> s16) res"
where
  "copy_buffer fps env inp mem base in_sql_hp stp len s =
     copy_buffer_loop fps env inp in_sql_hp base stp len 0 0 (word_of_int (- 32000)) mem s"

subsection \<open>What a run does to the stream of samples\<close>

text \<open>
  The same on a stream: \<open>w\<close> is the last \<open>SQL_OPEN_SCAN_LEN\<close> samples before the current
  one, and no memory is left.
\<close>

fun sql_run ::
  "fingerprint_t list \<Rightarrow> (u64 \<Rightarrow> sql_env) \<Rightarrow> s16 list \<Rightarrow> (s16 \<times> s16) list \<Rightarrow> squelch \<Rightarrow> squelch res"
where
  "sql_run fps env w [] s = Inr s"
| "sql_run fps env w ((x, hp) # xs) s =
     res_bind (sql_sample fps env w SQL_OPEN_SCAN_LEN hp s) (sql_run fps env (tl (w @ [x])) xs)"

lemma smoothed_take: "smoothed (take len src) len = smoothed src len" if "len \<le> length src"
proof -
  have "avg_sum (take len src) i = avg_sum src i" if "i < len" for i
    unfolding avg_sum_eq using that by (intro arg_cong [where f = sum_list] map_cong) auto
  then show ?thesis by (simp add: smoothed_def avg_at_def FILTER_AVG_LEN_def)
qed

lemma scan_open_take:
  assumes "SQL_OPEN_SCAN_LEN \<le> length src"
  shows "scan_open fps e (take SQL_OPEN_SCAN_LEN src) s = scan_open fps e src s"
proof -
  have "sample_filter_avg dst (take SQL_OPEN_SCAN_LEN src) SQL_OPEN_SCAN_LEN
      = sample_filter_avg dst src SQL_OPEN_SCAN_LEN" if "length dst = SQL_OPEN_SCAN_LEN" for dst
    using assms that by (simp add: sample_filter_avg_ok smoothed_take)
  then show ?thesis by (simp add: scan_open_def)
qed

lemma sql_sample_window:
  assumes "SQL_OPEN_SCAN_LEN \<le> pos" "pos \<le> length mem"
  shows "sql_sample fps env mem pos hp s =
    sql_sample fps env (window_at mem pos SQL_OPEN_SCAN_LEN) SQL_OPEN_SCAN_LEN hp s"
  using assms scan_open_take [of "drop (pos - SQL_OPEN_SCAN_LEN) mem"]
  by (simp add: sql_sample_def check_sql_def Let_def window_at_def)

lemma window_at_set_after: "n \<le> p \<Longrightarrow> p \<le> q \<Longrightarrow> window_at (xs[q := x]) p n = window_at xs p n"
  by (rule nth_equalityI) (auto simp: window_at_def)

lemma copy_buffer_loop_ok:
  assumes "SQL_OPEN_SCAN_LEN \<le> base" "base + len \<le> length mem" "fits inp stp len" "length hp = len"
    "od \<le> len" "ind = od * stp"
  shows "copy_buffer_loop fps env inp hp base stp len ind od maxval mem s =
    (let xs = drop od (channel inp stp len) in
     res_bind (sql_run fps env (window_at mem (base + od) SQL_OPEN_SCAN_LEN) (zip xs (drop od hp)) s)
       (\<lambda>s1. Inr (take (base + od) mem @ xs @ drop (base + len) mem, s1, peak_from maxval xs)))"
  using assms
proof (induction "len - od" arbitrary: od maxval mem s ind)
  case 0
  then show ?case
    by (subst copy_buffer_loop.simps) (simp add: Let_def peak_from_def)
next
  case (Suc d)
  then have od: "od < len" by simp
  let ?x = "inp ! (od * stp)"
  let ?mem = "mem[base + od := ?x]"
  let ?w = "window_at mem (base + od) SQL_OPEN_SCAN_LEN"
  have drop_od: "drop od (channel inp stp len) = ?x # drop (Suc od) (channel inp stp len)"
    using od by (metis Cons_nth_drop_Suc length_channel nth_channel)
  have drop_hp: "drop od hp = hp ! od # drop (Suc od) hp"
    using od Suc.prems by (simp add: Cons_nth_drop_Suc)
  have smp: "sql_sample fps env ?mem (base + od) (hp ! od) s = sql_sample fps env ?w SQL_OPEN_SCAN_LEN (hp ! od) s"
    using Suc.prems od by (subst sql_sample_window) (simp_all add: window_at_set_after)
  have win: "window_at ?mem (base + Suc od) SQL_OPEN_SCAN_LEN = tl (?w @ [?x])"
    using window_at_step [of SQL_OPEN_SCAN_LEN "base + od" mem ?x] Suc.prems od by simp
  have mem: "take (base + Suc od) ?mem @ ys @ drop (base + len) ?mem
      = take (base + od) mem @ (?x # ys) @ drop (base + len) mem" for ys
    using Suc.prems od by (simp add: take_Suc_conv_app_nth)
  have IH: "copy_buffer_loop fps env inp hp base stp len (ind + stp) (Suc od) m ?mem s1 =
    (let xs = drop (Suc od) (channel inp stp len) in
     res_bind (sql_run fps env (window_at ?mem (base + Suc od) SQL_OPEN_SCAN_LEN) (zip xs (drop (Suc od) hp)) s1)
       (\<lambda>s2. Inr (take (base + Suc od) ?mem @ xs @ drop (base + len) ?mem, s2, peak_from m xs)))" for m s1
    by (rule Suc.hyps(1)) (use Suc od in auto)
  have unfold: "copy_buffer_loop fps env inp hp base stp len ind od maxval mem s =
    res_bind (sql_sample fps env ?w SQL_OPEN_SCAN_LEN (hp ! od) s)
      (\<lambda>s1. copy_buffer_loop fps env inp hp base stp len (ind + stp) (Suc od)
               (if sint ?x > sint maxval then ?x else maxval) ?mem s1)"
    using Suc.prems od fitsD [OF Suc.prems(3) od]
    by (subst copy_buffer_loop.simps) (simp add: smp)
  show ?case
    unfolding unfold IH win drop_od drop_hp Let_def mem
    by (simp add: res_bind_assoc peak_from_def)
qed

lemma copy_buffer_ok:
  assumes "SQL_OPEN_SCAN_LEN \<le> base" "base + len \<le> length mem" "fits inp stp len" "length hp = len"
  shows "copy_buffer fps env inp mem base hp stp len s =
    res_bind (sql_run fps env (window_at mem base SQL_OPEN_SCAN_LEN) (zip (channel inp stp len) hp) s)
      (\<lambda>s1. Inr (take base mem @ channel inp stp len @ drop (base + len) mem, s1,
                  peak_from (word_of_int (- 32000)) (channel inp stp len)))"
  unfolding copy_buffer_def by (subst copy_buffer_loop_ok [OF assms]) (simp_all add: Let_def assms)

lemma sql_run_append:
  assumes "length w = SQL_OPEN_SCAN_LEN"
  shows "sql_run fps env w (xs @ ys) s =
    res_bind (sql_run fps env w xs s) (sql_run fps env (lastn SQL_OPEN_SCAN_LEN (w @ map fst xs)) ys)"
  using assms
proof (induction xs arbitrary: w s)
  case (Cons p xs)
  obtain x hp where p: "p = (x, hp)" by (cases p)
  have "length (tl (w @ [x])) = SQL_OPEN_SCAN_LEN" using Cons.prems by simp
  moreover have "lastn SQL_OPEN_SCAN_LEN (tl (w @ [x]) @ map fst xs) = lastn SQL_OPEN_SCAN_LEN (w @ x # map fst xs)"
    using lastn_lastn_append [of SQL_OPEN_SCAN_LEN "w @ [x]" "map fst xs"] Cons.prems by (simp add: lastn_snoc)
  ultimately have "sql_run fps env (tl (w @ [x])) (xs @ ys) = (\<lambda>s1.
    res_bind (sql_run fps env (tl (w @ [x])) xs s1)
      (sql_run fps env (lastn SQL_OPEN_SCAN_LEN (w @ x # map fst xs)) ys))"
    using Cons.IH by (intro ext) simp
  then show ?case by (simp add: p res_bind_assoc)
qed simp

subsection \<open>The level\<close>

definition LEVEL_MAX :: nat where "LEVEL_MAX = SQL_ABSVAL_DIVIDER * 32768"

definition level_nat :: "nat \<Rightarrow> s16 \<Rightarrow> nat" where
  "level_nat lev hp = lev - lev div SQL_ABSVAL_DIVIDER + nat \<bar>sint hp\<bar>"

lemma level_nat_bound: "lev \<le> LEVEL_MAX \<Longrightarrow> level_nat lev hp \<le> LEVEL_MAX"
proof -
  assume "lev \<le> LEVEL_MAX"
  then have l: "lev \<le> 39321600" by (simp add: LEVEL_MAX_def sql_consts)
  have "lev - lev div 1200 \<le> 39288832"
  proof -
    have "lev div 1200 * 1200 + lev mod 1200 = lev" by simp
    moreover have "lev mod 1200 < 1200" by simp
    ultimately show ?thesis using l by linarith
  qed
  moreover have "nat \<bar>sint hp\<bar> \<le> 32768" using abs_sint16 [of hp] by linarith
  ultimately show ?thesis by (simp add: level_nat_def LEVEL_MAX_def sql_consts)
qed

lemma level_update_nat:
  assumes "unat lev \<le> LEVEL_MAX"
  shows "unat (level_update lev hp) = level_nat (unat lev) hp"
proof -
  have a: "word_of_int (if sint hp > 0 then sint hp else sint hp * - 1) = (of_nat (nat \<bar>sint hp\<bar>) :: u64)"
    by (simp add: of_nat_nat)
  have h: "nat \<bar>sint hp\<bar> \<le> 32768" using abs_sint16 [of hp] by linarith
  have ua: "unat (of_nat (nat \<bar>sint hp\<bar>) :: u64) = nat \<bar>sint hp\<bar>"
    by (rule unat_of_nat_u64) (use h in simp)
  have ud: "unat (lev div of_nat SQL_ABSVAL_DIVIDER) = unat lev div SQL_ABSVAL_DIVIDER"
    by (simp add: unat_div sql_consts)
  have us: "unat (lev - lev div of_nat SQL_ABSVAL_DIVIDER) = unat lev - unat lev div SQL_ABSVAL_DIVIDER"
    by (subst unat_sub_u64) (simp_all add: ud)
  have lt: "unat lev - unat lev div SQL_ABSVAL_DIVIDER + nat \<bar>sint hp\<bar> < 2 ^ 64"
    using level_nat_bound [OF assms, of hp] by (simp add: level_nat_def LEVEL_MAX_def sql_consts)
  show ?thesis
    unfolding level_update_def a by (subst unat_add_u64) (use lt in \<open>simp_all only: us ua level_nat_def\<close>)
qed

subsection \<open>The abstract squelch\<close>

text \<open>
  What the squelch promises, without words, memory or reports: a level, a phase and the
  number of samples since it opened; each sample may cause one event.
\<close>

record ctl =
  c_open :: bool
  c_level :: nat
  c_phase :: nat
  c_since :: nat

datatype sql_event = Ev_open | Ev_close nat

definition ctl_tick :: "ctl \<Rightarrow> s16 \<Rightarrow> ctl \<times> sql_event list" where
  "ctl_tick c hp =
     (let lev = level_nat (c_level c) hp; since = (c_since c + 1) mod 2 ^ 64 in
      if c_phase c + 1 = 15 then
        if c_open c \<and> lev > SQL_ABSVAL_THR_CLOSE
        then (\<lparr>c_open = False, c_level = lev, c_phase = 0, c_since = since\<rparr>,
              [Ev_close ((since * 1000) mod 2 ^ 64 div SAMPLE_RATE)])
        else if \<not> c_open c \<and> lev < SQL_ABSVAL_THR_OPEN
        then (\<lparr>c_open = True, c_level = lev, c_phase = 0, c_since = 0\<rparr>, [Ev_open])
        else (\<lparr>c_open = c_open c, c_level = lev, c_phase = 0, c_since = since\<rparr>, [])
      else (\<lparr>c_open = c_open c, c_level = lev, c_phase = c_phase c + 1, c_since = since\<rparr>, []))"

fun ctl_run :: "ctl \<Rightarrow> s16 list \<Rightarrow> ctl \<times> sql_event list" where
  "ctl_run c [] = (c, [])"
| "ctl_run c (hp # hps) =
     (let (c1, ev) = ctl_tick c hp; (c2, evs) = ctl_run c1 hps in (c2, ev @ evs))"

definition ctl_of :: "squelch \<Rightarrow> ctl" where
  "ctl_of s = \<lparr>c_open = sql_open s, c_level = unat (sql_absval_sum s),
     c_phase = unat (sql_red_step s), c_since = unat (sql_pos s - sql_open_at_pos s)\<rparr>"

definition ctl_ok :: "ctl \<Rightarrow> bool" where
  "ctl_ok c \<longleftrightarrow> c_level c \<le> LEVEL_MAX \<and> c_phase c < 15 \<and> c_since c < 2 ^ 64"

definition sql_ok :: "squelch \<Rightarrow> bool" where
  "sql_ok s \<longleftrightarrow> ctl_ok (ctl_of s)"

lemma ctl_tick_ok: "ctl_ok c \<Longrightarrow> ctl_ok (fst (ctl_tick c hp))"
  using level_nat_bound [of "c_level c" hp] by (auto simp: ctl_tick_def ctl_ok_def Let_def)

lemma ctl_tick_cases:
  "snd (ctl_tick c hp) = [] \<and> c_open (fst (ctl_tick c hp)) = c_open c
   \<or> snd (ctl_tick c hp) = [Ev_open] \<and> \<not> c_open c \<and> c_open (fst (ctl_tick c hp))
   \<or> (\<exists>d. snd (ctl_tick c hp) = [Ev_close d]) \<and> c_open c \<and> \<not> c_open (fst (ctl_tick c hp))"
  by (simp add: ctl_tick_def Let_def)

lemma ctl_run_ok: "ctl_ok c \<Longrightarrow> ctl_ok (fst (ctl_run c hps))"
  by (induction hps arbitrary: c) (simp_all add: Let_def case_prod_beta ctl_tick_ok)

lemma ctl_run_append:
  "ctl_run c (xs @ ys) = (fst (ctl_run (fst (ctl_run c xs)) ys), snd (ctl_run c xs) @ snd (ctl_run (fst (ctl_run c xs)) ys))"
  by (induction xs arbitrary: c) (simp_all add: Let_def case_prod_beta)

lemma sql_ok_init: "sql_ok squelch_init"
  by (simp add: sql_ok_def ctl_ok_def ctl_of_def squelch_init_def LEVEL_MAX_def sql_consts)

subsection \<open>Reading the reports back\<close>

definition str_field :: "cJSON \<Rightarrow> string \<Rightarrow> string option" where
  "str_field t name = (case cJSON_GetObjectItem t name of None \<Rightarrow> None | Some i \<Rightarrow> jvaluestring i)"

definition num_field :: "cJSON \<Rightarrow> string \<Rightarrow> int option" where
  "num_field t name = (case cJSON_GetObjectItem t name of None \<Rightarrow> None | Some i \<Rightarrow> Some (jvalue i))"

text \<open>Which event a report tells of, and for which opening of the squelch.\<close>

definition event_of :: "cJSON \<Rightarrow> sql_event option" where
  "event_of t =
     (if str_field t ''event'' = Some ''sqlend'' then map_option (Ev_close \<circ> nat) (num_field t ''duration'')
      else if str_field t ''event'' \<in> {Some ''sql'', Some ''match''} then Some Ev_open else None)"

definition id_of :: "cJSON \<Rightarrow> string option" where
  "id_of t = str_field t ''id''"

lemma notify_queue_simps [simp]:
  "trees (notify_queue t s) = trees s @ [t]"
  "outbox (notify_queue t s) = outbox s @ [cJSON_PrintUnformatted t]"
  "current_event_id (notify_queue t s) = current_event_id s"
  "ctl_of (notify_queue t s) = ctl_of s"
  "sql_open (notify_queue t s) = sql_open s"
  "sql_absval_sum (notify_queue t s) = sql_absval_sum s"
  by (simp_all add: notify_queue_def ctl_of_def)

lemmas tree_defs = cJSON_AddStringToObject_def cJSON_AddNumberToObject_def cJSON_AddItemToObject_def
  cJSON_CreateObject_def cJSON_CreateString_def cJSON_CreateNumber_def cJSON_GetObjectItem_def
  cJSON_strcasecmp_def strcasecmp_eq_def c_tolower_def

lemma notify_out_over_end_tree:
  "\<exists>t. notify_out_over_end e d s = notify_queue t s \<and> json_ok t
     \<and> event_of t = Some (Ev_close (unat d)) \<and> id_of t = Some (current_event_id s)"
  unfolding notify_out_over_end_def Let_def
  by (intro exI conjI, rule refl)
    (simp_all add: event_of_def id_of_def str_field_def num_field_def tree_defs cJSON_types)

lemma notify_out_sql_tree:
  "\<exists>t. notify_out_sql e xs n s = notify_queue t (s\<lparr>current_event_id := fst (event_id (e_tod e) EVENT_ID_SIZE)\<rparr>)
     \<and> json_ok t \<and> event_of t = Some Ev_open \<and> id_of t = Some (fst (event_id (e_tod e) EVENT_ID_SIZE))"
  unfolding notify_out_sql_def Let_def
  by (intro exI conjI, rule refl)
    (simp_all, simp_all add: event_of_def id_of_def str_field_def num_field_def tree_defs short_array_eq)

lemma notify_out_tree:
  "\<exists>t. notify_out e q fp xs ofs n s = notify_queue t (s\<lparr>current_event_id := fst (event_id (e_tod e) EVENT_ID_SIZE)\<rparr>)
     \<and> json_ok t \<and> event_of t = Some Ev_open \<and> id_of t = Some (fst (event_id (e_tod e) EVENT_ID_SIZE))"
  unfolding notify_out_def Let_def
  by (intro exI conjI, rule refl)
    (simp_all, simp_all add: event_of_def id_of_def str_field_def num_field_def tree_defs short_array_eq)

subsection \<open>The code refines the abstract squelch\<close>

lemma scan_open_effect:
  assumes "scan_open fps e src s = Inr s1"
  shows "\<exists>t. s1 = notify_queue t (s\<lparr>current_event_id := fst (event_id (e_tod e) EVENT_ID_SIZE)\<rparr>)
     \<and> json_ok t \<and> event_of t = Some Ev_open \<and> id_of t = Some (fst (event_id (e_tod e) EVENT_ID_SIZE))"
  using assms unfolding scan_open_def
  by (auto simp: res_bind_Inr_iff Let_def split: option.splits
      dest!: sym [where t = s1] intro: notify_out_sql_tree notify_out_tree)

lemma unat_level_cmp:
  "of_nat SQL_ABSVAL_THR_CLOSE < lev \<longleftrightarrow> SQL_ABSVAL_THR_CLOSE < unat (lev :: u64)"
  "lev < of_nat SQL_ABSVAL_THR_OPEN \<longleftrightarrow> unat lev < SQL_ABSVAL_THR_OPEN"
  by (simp_all add: word_less_nat_alt sql_consts)

lemma unat_over_length:
  "unat (over_length s) = (unat (sql_pos s - sql_open_at_pos s) * 1000) mod 2 ^ 64 div SAMPLE_RATE"
proof -
  have "unat ((sql_pos s - sql_open_at_pos s) * 1000) = (unat (sql_pos s - sql_open_at_pos s) * 1000) mod 2 ^ 64"
    by (simp only: unat_word_ariths) simp
  then show ?thesis by (simp only: over_length_def unat_div) (simp add: SAMPLE_RATE_def)
qed

text \<open>What one sample adds to the reports.\<close>

definition adds :: "squelch \<Rightarrow> squelch \<Rightarrow> sql_event list \<Rightarrow> bool" where
  "adds s s1 evs \<longleftrightarrow> (\<exists>ts. trees s1 = trees s @ ts \<and> outbox s1 = outbox s @ map cJSON_PrintUnformatted ts
     \<and> map event_of ts = map Some evs \<and> list_all json_ok ts)"

lemma adds_refl [simp]: "trees s1 = trees s \<Longrightarrow> outbox s1 = outbox s \<Longrightarrow> adds s s1 []"
  by (simp add: adds_def)

lemma adds_trans: "adds s s1 es \<Longrightarrow> adds s1 s2 fs \<Longrightarrow> adds s s2 (es @ fs)"
  unfolding adds_def by (elim exE) (rule_tac x = "ts @ tsa" in exI, simp)

lemma check_sql_refines:
  assumes "check_sql fps e mem pos s = Inr s1" "sql_red_step s = 0"
  shows "if sql_open s \<and> SQL_ABSVAL_THR_CLOSE < unat (sql_absval_sum s)
    then ctl_of s1 = (ctl_of s)\<lparr>c_open := False\<rparr> \<and> adds s s1 [Ev_close (unat (over_length s))]
      \<and> current_event_id s1 = current_event_id s \<and> id_of (last (trees s1)) = Some (current_event_id s)
    else if \<not> sql_open s \<and> unat (sql_absval_sum s) < SQL_ABSVAL_THR_OPEN
    then ctl_of s1 = (ctl_of s)\<lparr>c_open := True, c_since := 0\<rparr> \<and> adds s s1 [Ev_open]
      \<and> id_of (last (trees s1)) = Some (current_event_id s1)
    else s1 = s"
proof (cases "sql_open s \<and> SQL_ABSVAL_THR_CLOSE < unat (sql_absval_sum s)")
  case True
  obtain t where t: "notify_out_over_end e (over_length s) s = notify_queue t s" "json_ok t"
    "event_of t = Some (Ev_close (unat (over_length s)))" "id_of t = Some (current_event_id s)"
    using notify_out_over_end_tree by blast
  have "\<not> unat (sql_absval_sum s) < SQL_ABSVAL_THR_OPEN" using True by (simp add: sql_consts)
  then have "s1 = (notify_queue t s)\<lparr>sql_open := False\<rparr>"
    using assms(1) True t(1) by (simp add: check_sql_def unat_level_cmp)
  then show ?thesis using True t by (auto simp: adds_def ctl_of_def notify_queue_def)
next
  case False
  note F = False
  show ?thesis
  proof (cases "\<not> sql_open s \<and> unat (sql_absval_sum s) < SQL_ABSVAL_THR_OPEN")
    case True
    let ?s2 = "s\<lparr>sql_open := True, sql_open_at_pos := sql_pos s\<rparr>"
    obtain src where "scan_open fps e src ?s2 = Inr s1"
      using assms(1) True by (auto simp: check_sql_def unat_level_cmp Let_def split: if_splits)
    then obtain t where "s1 = notify_queue t (?s2\<lparr>current_event_id := fst (event_id (e_tod e) EVENT_ID_SIZE)\<rparr>)"
      "json_ok t" "event_of t = Some Ev_open" "id_of t = Some (fst (event_id (e_tod e) EVENT_ID_SIZE))"
      using scan_open_effect by blast
    then show ?thesis using True F by (auto simp: adds_def ctl_of_def notify_queue_def)
  next
    case False
    then show ?thesis using F assms(1) by (auto simp: check_sql_def unat_level_cmp)
  qed
qed

lemma ctl_of_ticked:
  assumes "sql_ok s"
    "s1 = s\<lparr>sql_absval_sum := level_update (sql_absval_sum s) hp, sql_pos := sql_pos s + 1,
            sql_red_step := sql_red_step s + 1\<rparr>"
  shows "ctl_of s1 = \<lparr>c_open = sql_open s, c_level = level_nat (unat (sql_absval_sum s)) hp,
     c_phase = unat (sql_red_step s) + 1, c_since = (unat (sql_pos s - sql_open_at_pos s) + 1) mod 2 ^ 64\<rparr>"
proof -
  have "unat (sql_red_step s) < 15" "unat (sql_absval_sum s) \<le> LEVEL_MAX"
    using assms(1) by (auto simp: sql_ok_def ctl_ok_def ctl_of_def)
  moreover have "unat (sql_red_step s + 1) = unat (sql_red_step s) + 1"
    using calculation(1) by (simp add: unat_word_ariths)
  moreover have "sql_pos s + 1 - sql_open_at_pos s = (sql_pos s - sql_open_at_pos s) + 1" by simp
  then have "unat (sql_pos s + 1 - sql_open_at_pos s) = (unat (sql_pos s - sql_open_at_pos s) + 1) mod 2 ^ 64"
    by (simp only: unat_word_ariths) simp
  ultimately show ?thesis using assms(2) by (simp add: ctl_of_def level_update_nat)
qed

lemma unat_15: "unat (15 :: u32) = 15"
  by simp

lemma sql_sample_refines:
  assumes "sql_ok s" "sql_sample fps env mem pos hp s = Inr s1"
  shows "ctl_of s1 = fst (ctl_tick (ctl_of s) hp) \<and> adds s s1 (snd (ctl_tick (ctl_of s) hp))
    \<and> (snd (ctl_tick (ctl_of s) hp) \<noteq> [] \<longrightarrow> id_of (last (trees s1)) = Some (current_event_id s1))
    \<and> (Ev_open \<notin> set (snd (ctl_tick (ctl_of s) hp)) \<longrightarrow> current_event_id s1 = current_event_id s)"
proof -
  let ?s = "s\<lparr>sql_absval_sum := level_update (sql_absval_sum s) hp, sql_pos := sql_pos s + 1,
            sql_red_step := sql_red_step s + 1\<rparr>"
  note ticked = ctl_of_ticked [OF assms(1) refl, of hp]
  have ph: "unat (sql_red_step s + 1) = unat (sql_red_step s) + 1"
    using ticked by (simp add: ctl_of_def)
  have is15: "sql_red_step s + 1 = 15 \<longleftrightarrow> unat (sql_red_step s) + 1 = 15"
    by (metis ph unat_15 word_unat_eq_iff)
  show ?thesis
  proof (cases "sql_red_step s + 1 = 15")
    case False
    then have "s1 = ?s" using assms(2) by (simp add: sql_sample_def)
    then show ?thesis using ticked False is15
      by (simp add: ctl_tick_def Let_def) (simp add: ctl_of_def)
  next
    case True
    let ?z = "?s\<lparr>sql_red_step := 0\<rparr>"
    have c: "check_sql fps (env (sql_pos ?s)) mem pos ?z = Inr s1"
      using assms(2) True by (simp add: sql_sample_def)
    have z: "ctl_of ?z = (ctl_of ?s)\<lparr>c_phase := 0\<rparr>" by (simp add: ctl_of_def)
    have lev: "unat (sql_absval_sum ?z) = level_nat (unat (sql_absval_sum s)) hp"
      and since: "unat (sql_pos ?z - sql_open_at_pos ?z) = (unat (sql_pos s - sql_open_at_pos s) + 1) mod 2 ^ 64"
      using ticked by (simp_all add: ctl_of_def)
    show ?thesis
      using check_sql_refines [OF c] ticked z True is15 lev since
      by (auto simp: ctl_tick_def Let_def unat_over_length adds_def ctl_of_def split: if_splits)
  qed
qed

lemma sql_run_refines:
  assumes "sql_ok s" "sql_run fps env w xs s = Inr s1"
  shows "ctl_of s1 = fst (ctl_run (ctl_of s) (map snd xs)) \<and> adds s s1 (snd (ctl_run (ctl_of s) (map snd xs)))
    \<and> sql_ok s1"
  using assms
proof (induction xs arbitrary: w s)
  case (Cons p xs)
  obtain x hp where p: "p = (x, hp)" by (cases p)
  obtain s2 where s2: "sql_sample fps env w SQL_OPEN_SCAN_LEN hp s = Inr s2"
    "sql_run fps env (tl (w @ [x])) xs s2 = Inr s1"
    using Cons.prems(2) by (auto simp: p res_bind_Inr_iff)
  note r = sql_sample_refines [OF Cons.prems(1) s2(1)]
  have ok2: "sql_ok s2" using r ctl_tick_ok Cons.prems(1) by (simp add: sql_ok_def)
  show ?case
    using Cons.IH [OF ok2 s2(2)] r by (auto simp: p Let_def case_prod_beta intro: adds_trans)
qed simp

lemma scan_open_pos: "scan_open fps e src s = Inr s1 \<Longrightarrow> sql_pos s1 = sql_pos s"
  using scan_open_effect [of fps e src s s1] by (auto simp: notify_queue_def)

lemma check_sql_pos: "check_sql fps e mem pos s = Inr s1 \<Longrightarrow> sql_pos s1 = sql_pos s"
  by (auto simp: check_sql_def Let_def notify_out_over_end_def notify_queue_def split: if_splits dest!: scan_open_pos)

lemma sql_run_pos: "sql_run fps env w xs s = Inr s1 \<Longrightarrow> sql_pos s1 = sql_pos s + of_nat (length xs)"
proof (induction xs arbitrary: w s)
  case (Cons p xs)
  obtain x hp where p: "p = (x, hp)" by (cases p)
  obtain s2 where s2: "sql_sample fps env w SQL_OPEN_SCAN_LEN hp s = Inr s2"
    "sql_run fps env (tl (w @ [x])) xs s2 = Inr s1"
    using Cons.prems by (auto simp: p res_bind_Inr_iff)
  have "sql_pos s2 = sql_pos s + 1"
    using s2(1) by (auto simp: sql_sample_def Let_def split: if_splits dest!: check_sql_pos)
  then show ?case using Cons.IH [OF s2(2)] by simp
qed simp

subsection \<open>Openings and endings come in pairs\<close>

fun paired :: "cJSON list \<Rightarrow> bool" where
  "paired [] = True"
| "paired [t] = (event_of t = Some Ev_open)"
| "paired (t # c # ts) = (event_of t = Some Ev_open \<and> (case event_of c of Some (Ev_close d) \<Rightarrow> True | _ \<Rightarrow> False)
     \<and> id_of c = id_of t \<and> paired ts)"

definition sql_paired :: "squelch \<Rightarrow> bool" where
  "sql_paired s \<longleftrightarrow> paired (trees s) \<and> sql_open s = odd (length (trees s))
     \<and> (sql_open s \<longrightarrow> id_of (last (trees s)) = Some (current_event_id s))"

lemma paired_snoc:
  "paired (ts @ [t]) \<longleftrightarrow> paired ts \<and>
    (if even (length ts) then event_of t = Some Ev_open
     else (case event_of t of Some (Ev_close d) \<Rightarrow> True | _ \<Rightarrow> False) \<and> id_of t = id_of (last ts))"
proof (induction ts rule: paired.induct)
  case (3 t' c ts)
  then show ?case by (cases ts) auto
qed auto

lemma sql_sample_paired:
  assumes "sql_ok s" "sql_paired s" "sql_sample fps env mem pos hp s = Inr s1"
  shows "sql_paired s1"
proof -
  note r = sql_sample_refines [OF assms(1,3)]
  let ?ev = "snd (ctl_tick (ctl_of s) hp)"
  obtain ts where ts: "trees s1 = trees s @ ts" "map event_of ts = map Some ?ev"
    using r by (auto simp: adds_def)
  have sides: "sql_open s1 = c_open (fst (ctl_tick (ctl_of s) hp))" "c_open (ctl_of s) = sql_open s"
    using arg_cong [OF conjunct1 [OF r], of c_open] by (simp_all add: ctl_of_def)
  consider (none) "?ev = []" "sql_open s1 = sql_open s"
    | (op) "?ev = [Ev_open]" "\<not> sql_open s" "sql_open s1"
    | (cl) d where "?ev = [Ev_close d]" "sql_open s" "\<not> sql_open s1"
    using sides ctl_tick_cases [of "ctl_of s" hp] by auto
  then show ?thesis
  proof cases
    case none
    then show ?thesis using ts r assms(2) by (simp add: sql_paired_def)
  next
    case op
    then obtain t where "ts = [t]" "event_of t = Some Ev_open" using ts(2) by auto
    then show ?thesis using op ts(1) r assms(2) by (simp add: sql_paired_def paired_snoc)
  next
    case cl
    then obtain t where "ts = [t]" "event_of t = Some (Ev_close d)" using ts(2) by auto
    then show ?thesis using cl ts(1) r assms(2) by (simp add: sql_paired_def paired_snoc)
  qed
qed

lemma sql_run_paired:
  "sql_ok s \<Longrightarrow> sql_paired s \<Longrightarrow> sql_run fps env w xs s = Inr s1 \<Longrightarrow> sql_paired s1"
proof (induction xs arbitrary: w s)
  case (Cons p xs)
  obtain x hp where p: "p = (x, hp)" by (cases p)
  obtain s2 where s2: "sql_sample fps env w SQL_OPEN_SCAN_LEN hp s = Inr s2"
    "sql_run fps env (tl (w @ [x])) xs s2 = Inr s1"
    using Cons.prems(3) by (auto simp: p res_bind_Inr_iff)
  have "sql_ok s2"
    using sql_sample_refines [OF Cons.prems(1) s2(1)] ctl_tick_ok Cons.prems(1) by (simp add: sql_ok_def)
  then show ?case
    using Cons.IH sql_sample_paired [OF Cons.prems(1,2) s2(1)] s2(2) by blast
qed simp

lemma sql_paired_init: "sql_paired squelch_init"
  by (simp add: sql_paired_def squelch_init_def)

text \<open>Every report has been printed from its tree and handed to the queue.\<close>

definition reports_ok :: "squelch \<Rightarrow> bool" where
  "reports_ok s \<longleftrightarrow> sql_paired s \<and> outbox s = map cJSON_PrintUnformatted (trees s) \<and> list_all json_ok (trees s)"

lemma sql_run_reports:
  "sql_ok s \<Longrightarrow> reports_ok s \<Longrightarrow> sql_run fps env w xs s = Inr s1 \<Longrightarrow> reports_ok s1"
  using sql_run_refines [of s fps env w xs s1] sql_run_paired [of s fps env w xs s1]
  by (auto simp: reports_ok_def adds_def)

lemma reports_ok_init: "reports_ok squelch_init"
  using sql_paired_init by (simp add: reports_ok_def squelch_init_def)

lemma reports_ok_outbox: "reports_ok s \<Longrightarrow> None \<notin> set (outbox s)"
proof -
  have "cJSON_PrintUnformatted t \<noteq> None" if "json_ok t" for t
    using print_value_Some [OF that] by (simp add: cJSON_PrintUnformatted_def)
  then show "reports_ok s \<Longrightarrow> None \<notin> set (outbox s)"
    by (fastforce simp: reports_ok_def list_all_iff)
qed

subsection \<open>The run returns\<close>

text \<open>With at most as many fingerprints as slots, nothing overruns.\<close>

definition fps_ok :: "fingerprint_t list \<Rightarrow> bool" where
  "fps_ok fps \<longleftrightarrow> list_all fp_ok fps \<and> length fps \<le> TOPLEN"

lemma search_fingerprints_total:
  assumes "fps_ok fps"
  shows "\<exists>r. search_fingerprints fps samples len ln = Inr r"
proof -
  have h: "\<forall>f\<in>set fps. fp_ok f" "length (hits samples len fps) \<le> TOPLEN"
    using assms le_trans [OF length_filter_le [of "hit samples len" fps]] by (auto simp: fps_ok_def list_all_iff)
  then show ?thesis
    using search_fingerprints_eq [OF h] by (cases "hits samples len fps = []") blast+
qed

lemma scan_open_total:
  assumes "fps_ok fps" "SQL_OPEN_SCAN_LEN \<le> length src"
  shows "\<exists>s1. scan_open fps e src s = Inr s1"
proof -
  have "\<exists>s1. res_bind (search_fingerprints fps samples len ln) (\<lambda>r. case r of None \<Rightarrow> Inr f | Some m \<Rightarrow> Inr (g m)) = Inr s1"
    for samples len ln and f :: squelch and g
    using search_fingerprints_total [OF assms(1), of samples len ln] by (auto split: option.split)
  then show ?thesis
    using assms(2) by (simp add: scan_open_def sample_filter_avg_ok Let_def)
qed

lemma sql_sample_total:
  assumes "fps_ok fps" "length w = SQL_OPEN_SCAN_LEN"
  shows "\<exists>s1. sql_sample fps env w SQL_OPEN_SCAN_LEN hp s = Inr s1"
  using scan_open_total [OF assms(1), of w] assms(2)
  by (auto simp: sql_sample_def check_sql_def Let_def)

lemma sql_run_total:
  assumes "fps_ok fps" "length w = SQL_OPEN_SCAN_LEN"
  shows "\<exists>s1. sql_run fps env w xs s = Inr s1"
  using assms(2)
proof (induction xs arbitrary: w s)
  case (Cons p xs)
  obtain x hp where p: "p = (x, hp)" by (cases p)
  obtain s2 where "sql_sample fps env w SQL_OPEN_SCAN_LEN hp s = Inr s2"
    using sql_sample_total [OF assms(1) Cons.prems] by blast
  moreover have "length (tl (w @ [x])) = SQL_OPEN_SCAN_LEN" using Cons.prems by simp
  ultimately show ?case using Cons.IH by (simp add: p)
qed simp

subsection \<open>The squelch opens on silence and closes on noise\<close>

lemma level_nat_quiet: "sint hp = 0 \<Longrightarrow> level_nat lev hp \<le> lev
  \<and> (SQL_ABSVAL_THR_OPEN \<le> lev \<longrightarrow> level_nat lev hp + 1500 \<le> lev)"
proof -
  assume h: "sint hp = 0"
  have "1500 \<le> lev div 1200" if "1800000 \<le> lev" using div_le_mono [OF that, of 1200] by simp
  then show ?thesis using h div_le_dividend [of lev 1200] by (auto simp: level_nat_def sql_consts)
qed

lemma level_nat_loud: "3500 \<le> \<bar>sint hp\<bar> \<Longrightarrow>
  (if lev \<le> SQL_ABSVAL_THR_CLOSE then lev + 100 \<le> level_nat lev hp else SQL_ABSVAL_THR_CLOSE < level_nat lev hp)"
proof -
  assume h: "3500 \<le> \<bar>sint hp\<bar>"
  have d: "lev div 1200 * 1200 + lev mod 1200 = lev" "lev mod 1200 < 1200" by simp_all
  have n: "3500 \<le> nat \<bar>sint hp\<bar>" using h by simp
  show ?thesis
  proof (cases "lev \<le> 4080000")
    case True
    then have "lev div 1200 \<le> 3400" using d by linarith
    then show ?thesis using True n by (simp add: level_nat_def sql_consts)
  next
    case False
    have "4077000 < lev - lev div 1200 + 500"
    proof -
      have "1199 * (lev div 1200) + lev mod 1200 = lev - lev div 1200" using d by linarith
      moreover have "3400 \<le> lev div 1200" using False d by linarith
      ultimately show ?thesis using False d by linarith
    qed
    then show ?thesis using False n by (simp add: level_nat_def sql_consts)
  qed
qed

lemma level_nat_stays_loud:
  "SQL_ABSVAL_THR_CLOSE < lev \<Longrightarrow> 3500 \<le> \<bar>sint hp\<bar> \<Longrightarrow> SQL_ABSVAL_THR_CLOSE < level_nat lev hp"
  using level_nat_loud [of hp lev] by simp

text \<open>A condition on the level that the next check turns into an event.\<close>

lemma next_check:
  assumes step: "\<And>lev hp. P lev \<Longrightarrow> hp \<in> set hps \<Longrightarrow> P (level_nat lev hp)"
    and event: "\<And>lev. P lev \<Longrightarrow> if b then SQL_ABSVAL_THR_CLOSE < lev else lev < SQL_ABSVAL_THR_OPEN"
    and c: "c_open c = b" "P (c_level c)" "c_phase c < 15" "15 - c_phase c \<le> length hps"
  shows "snd (ctl_run c hps) \<noteq> []"
  using assms
proof (induction hps arbitrary: c)
  case (Cons hp hps)
  have p: "P (level_nat (c_level c) hp)" using Cons.prems(1,4) by simp
  show ?case
  proof (cases "c_phase c = 14")
    case True
    then have "snd (ctl_tick c hp) \<noteq> []"
      using Cons.prems(2) [OF p] Cons.prems(3) by (auto simp: ctl_tick_def Let_def split: if_splits)
    then show ?thesis by (simp add: Let_def case_prod_beta)
  next
    case False
    then have t: "fst (ctl_tick c hp) = \<lparr>c_open = c_open c, c_level = level_nat (c_level c) hp,
      c_phase = c_phase c + 1, c_since = (c_since c + 1) mod 2 ^ 64\<rparr>"
      by (simp add: ctl_tick_def Let_def)
    have "snd (ctl_run (fst (ctl_tick c hp)) hps) \<noteq> []"
      by (rule Cons.IH) (use Cons.prems False p in \<open>auto simp: t\<close>)
    then show ?thesis by (simp add: Let_def case_prod_beta)
  qed
qed simp

text \<open>While nothing is reported, the squelch keeps its side and the level follows the samples.\<close>

lemma no_event_run:
  "snd (ctl_run c hps) = [] \<Longrightarrow> c_open (fst (ctl_run c hps)) = c_open c
     \<and> c_level (fst (ctl_run c hps)) = foldl level_nat (c_level c) hps"
proof (induction hps arbitrary: c)
  case (Cons hp hps)
  then have e: "snd (ctl_tick c hp) = []" "snd (ctl_run (fst (ctl_tick c hp)) hps) = []"
    by (auto simp: Let_def case_prod_beta)
  have "c_level (fst (ctl_tick c hp)) = level_nat (c_level c) hp"
    by (simp add: ctl_tick_def Let_def)
  then show ?case
    using Cons.IH [OF e(2)] ctl_tick_cases [of c hp] e(1) by (auto simp: Let_def case_prod_beta)
qed simp

lemma quiet_level:
  "\<forall>h\<in>set hps. sint h = 0 \<Longrightarrow>
   foldl level_nat lev hps < SQL_ABSVAL_THR_OPEN \<or> foldl level_nat lev hps + 1500 * length hps \<le> lev"
proof (induction hps rule: rev_induct)
  case (snoc h hps)
  then show ?case
    using level_nat_quiet [of h "foldl level_nat lev hps"] by auto
qed simp

lemma loud_level:
  "\<forall>h\<in>set hps. 3500 \<le> \<bar>sint h\<bar> \<Longrightarrow>
   SQL_ABSVAL_THR_CLOSE < foldl level_nat lev hps \<or> lev + 100 * length hps \<le> foldl level_nat lev hps"
proof (induction hps rule: rev_induct)
  case (snoc h hps)
  then show ?case
    using level_nat_loud [of h "foldl level_nat lev hps"] by (auto split: if_splits)
qed simp

lemma ctl_quiet_event:
  assumes "ctl_ok c" "\<not> c_open c" "\<forall>h\<in>set hps. sint h = 0" "25030 \<le> length hps"
  shows "snd (ctl_run c hps) \<noteq> []"
proof
  let ?xs = "take 25015 hps" and ?ys = "drop 25015 hps"
  assume "snd (ctl_run c hps) = []"
  then have e: "snd (ctl_run c ?xs) = []" "snd (ctl_run (fst (ctl_run c ?xs)) ?ys) = []"
    using ctl_run_append [of c ?xs ?ys] by simp_all
  have q: "\<forall>h\<in>set ?xs. sint h = 0" "\<forall>h\<in>set ?ys. sint h = 0"
    using assms(3) by (auto dest: in_set_takeD in_set_dropD)
  have "foldl level_nat (c_level c) ?xs < SQL_ABSVAL_THR_OPEN"
    using quiet_level [OF q(1), of "c_level c"] assms(1,4) by (auto simp: ctl_ok_def LEVEL_MAX_def sql_consts)
  then have "snd (ctl_run (fst (ctl_run c ?xs)) ?ys) \<noteq> []"
    using no_event_run [OF e(1)] ctl_run_ok [OF assms(1), of ?xs] assms(2,4) q(2)
    by (intro next_check [where P = "\<lambda>l. l < SQL_ABSVAL_THR_OPEN" and b = False])
      (auto simp: ctl_ok_def dest: level_nat_quiet intro: le_less_trans)
  then show False using e(2) by simp
qed

lemma ctl_loud_event:
  assumes "ctl_ok c" "c_open c" "\<forall>h\<in>set hps. 3500 \<le> \<bar>sint h\<bar>" "40816 \<le> length hps"
  shows "snd (ctl_run c hps) \<noteq> []"
proof
  let ?xs = "take 40801 hps" and ?ys = "drop 40801 hps"
  assume "snd (ctl_run c hps) = []"
  then have e: "snd (ctl_run c ?xs) = []" "snd (ctl_run (fst (ctl_run c ?xs)) ?ys) = []"
    using ctl_run_append [of c ?xs ?ys] by simp_all
  have q: "\<forall>h\<in>set ?xs. 3500 \<le> \<bar>sint h\<bar>" "\<forall>h\<in>set ?ys. 3500 \<le> \<bar>sint h\<bar>"
    using assms(3) by (auto dest: in_set_takeD in_set_dropD)
  have "SQL_ABSVAL_THR_CLOSE < foldl level_nat (c_level c) ?xs"
    using loud_level [OF q(1), of "c_level c"] assms(4) by (auto simp: sql_consts)
  then have "snd (ctl_run (fst (ctl_run c ?xs)) ?ys) \<noteq> []"
    using no_event_run [OF e(1)] ctl_run_ok [OF assms(1), of ?xs] assms(2,4) q(2)
    by (intro next_check [where P = "\<lambda>l. SQL_ABSVAL_THR_CLOSE < l" and b = True])
      (auto simp: ctl_ok_def intro: level_nat_stays_loud)
  then show False using e(2) by simp
qed

lemma ctl_run_hd:
  "snd (ctl_run c hps) \<noteq> [] \<Longrightarrow>
    (if c_open c then \<exists>d. hd (snd (ctl_run c hps)) = Ev_close d else hd (snd (ctl_run c hps)) = Ev_open)"
proof (induction hps arbitrary: c)
  case (Cons hp hps)
  then show ?case
    using ctl_tick_cases [of c hp] Cons.IH [of "fst (ctl_tick c hp)"]
    by (auto simp: Let_def case_prod_beta)
qed simp

subsection \<open>Event ids\<close>

definition tod_ok :: "tod \<Rightarrow> bool" where
  "tod_ok t \<longleftrightarrow> tm_year t + 1900 < 10000 \<and> tm_mon t < 12 \<and> tm_mday t \<le> 31 \<and> tm_hour t < 24
     \<and> tm_min t < 60 \<and> tm_sec t \<le> 60 \<and> tv_usec t < 1000000"

lemma pad0_val: "digits_val 0 (pad0 w n) = n"
proof -
  have "digits_val 0 (replicate k (CHR ''0'')) = 0" for k
    by (induction k) (simp_all add: digits_val_def)
  then show ?thesis by (simp add: pad0_def digits_val_append digits_val_dec_nat)
qed

lemma pad0_inj: "pad0 w m = pad0 w n \<longleftrightarrow> m = n"
  by (metis pad0_val)

lemma event_id_text:
  assumes "tod_ok t"
  shows "event_id (Some t) EVENT_ID_SIZE =
    (pad0 4 (tm_year t + 1900) @ pad0 2 (tm_mon t + 1) @ pad0 2 (tm_mday t) @ ''-''
       @ pad0 2 (tm_hour t) @ pad0 2 (tm_min t) @ pad0 2 (tm_sec t) @ ''.'' @ pad0 3 (tv_usec t div 1000), 19)"
  using assms by (simp add: event_id_def EVENT_ID_SIZE_def Let_def tod_ok_def length_pad0 less_mult_imp_div_less)

lemma event_id_inj:
  assumes "tod_ok t" "tod_ok u" "event_id (Some t) EVENT_ID_SIZE = event_id (Some u) EVENT_ID_SIZE"
  shows "t\<lparr>tv_usec := tv_usec t div 1000\<rparr> = u\<lparr>tv_usec := tv_usec u div 1000\<rparr>"
proof -
  have "length (pad0 4 (tm_year v + 1900)) = 4" "length (pad0 2 (tm_mon v + 1)) = 2"
    "length (pad0 2 (tm_mday v)) = 2" "length (pad0 2 (tm_hour v)) = 2" "length (pad0 2 (tm_min v)) = 2"
    "length (pad0 2 (tm_sec v)) = 2" if "tod_ok v" for v
    using that by (simp_all add: length_pad0 tod_ok_def)
  then show ?thesis
    using assms by (simp add: event_id_text pad0_inj)
qed

lemma event_id_short: "length (fst (event_id tod EVENT_ID_SIZE)) < EVENT_ID_SIZE"
proof (cases tod)
  case (Some t)
  have "length (take (EVENT_ID_SIZE - 2) x) < EVENT_ID_SIZE" for x :: string
    by (simp add: EVENT_ID_SIZE_def)
  then show ?thesis by (simp only: Some event_id_def Let_def fst_conv option.case)
qed (simp add: event_id_def EVENT_ID_SIZE_def)

section \<open>Properties\<close>

text \<open>An environment that answers nothing, to evaluate examples.\<close>

definition still_env :: "u64 \<Rightarrow> sql_env" where
  "still_env = (\<lambda>_. \<lparr>e_tod = None, e_time = 0, e_stack = (\<lambda>_. 0)\<rparr>)"

lemma fps_ok_Nil: "fps_ok []"
  by (simp add: fps_ok_def)

text \<open>A quiet channel makes a closed squelch report an opening.\<close>

lemma quiet_opens:
  assumes "sql_ok s" "\<not> sql_open s" "fps_ok fps" "length w = SQL_OPEN_SCAN_LEN"
    and "list_all (\<lambda>p. sint (snd p) = 0) xs" "25030 \<le> length xs"
  shows "\<exists>s1 evs. sql_run fps env w xs s = Inr s1 \<and> adds s s1 (Ev_open # evs)"
proof -
  obtain s1 where s1: "sql_run fps env w xs s = Inr s1" using sql_run_total [OF assms(3,4)] by blast
  have "snd (ctl_run (ctl_of s) (map snd xs)) \<noteq> []"
    using assms by (intro ctl_quiet_event) (auto simp: sql_ok_def ctl_of_def list_all_iff)
  moreover have "\<not> c_open (ctl_of s)" using assms(2) by (simp add: ctl_of_def)
  ultimately obtain evs where "snd (ctl_run (ctl_of s) (map snd xs)) = Ev_open # evs"
    using ctl_run_hd [of "ctl_of s" "map snd xs"] by (cases "snd (ctl_run (ctl_of s) (map snd xs))") auto
  then show ?thesis using sql_run_refines [OF assms(1) s1] s1 by auto
qed



text \<open>C7. From the start, reports come in pairs: each opening (a match or an unknown signal) is
  followed by its end, which carries the id of that opening, and the squelch is open exactly
  when the last opening has not ended.\<close>

theorem reports_paired:
  assumes "fps_ok fps" "length w = SQL_OPEN_SCAN_LEN"
  shows "\<exists>s1. sql_run fps env w xs squelch_init = Inr s1 \<and> paired (trees s1) \<and> sql_open s1 = odd (length (trees s1))"
proof -
  obtain s1 where "sql_run fps env w xs squelch_init = Inr s1"
    using sql_run_total [OF assms] by blast
  then show ?thesis
    using sql_run_paired [OF sql_ok_init sql_paired_init] by (auto simp: sql_paired_def)
qed

theorem reports_paired_witness:
  "\<exists>s1. sql_run [] still_env (replicate SQL_OPEN_SCAN_LEN 0) (replicate 25030 (0, 0)) squelch_init = Inr s1
    \<and> trees s1 \<noteq> [] \<and> paired (trees s1) \<and> sql_open s1 = odd (length (trees s1))"
proof -
  have z: "list_all (\<lambda>p. sint (snd p) = 0) (replicate 25030 (0 :: s16, 0 :: s16))" "25030 \<le> length (replicate 25030 (0 :: s16, 0 :: s16))"
    by (simp_all add: list_all_iff)
  have w: "length (replicate SQL_OPEN_SCAN_LEN (0 :: s16)) = SQL_OPEN_SCAN_LEN" by simp
  have c: "\<not> sql_open squelch_init" by (simp add: squelch_init_def)
  show ?thesis
    using quiet_opens [OF sql_ok_init c fps_ok_Nil w z, of still_env] reports_paired [OF fps_ok_Nil w, of still_env "replicate 25030 (0, 0)"]
    by (auto simp: adds_def)
qed

text \<open>C12. A closed squelch opens: whatever its level was, 25030 samples of silence behind the
  filter (about half a second) are enough, and the first report they cause is an opening.\<close>

theorem opens_on_silence:
  assumes "sql_ok s" "\<not> sql_open s" "fps_ok fps" "length w = SQL_OPEN_SCAN_LEN"
    and "list_all (\<lambda>p. sint (snd p) = 0) xs" "25030 \<le> length xs"
  shows "\<exists>s1 evs. sql_run fps env w xs s = Inr s1 \<and> adds s s1 (Ev_open # evs)"
  by (rule quiet_opens [OF assms])

theorem opens_on_silence_witness:
  "\<exists>s1 evs. sql_run [] still_env (replicate SQL_OPEN_SCAN_LEN 0) (replicate 25030 (0, 0)) squelch_init = Inr s1
    \<and> adds squelch_init s1 (Ev_open # evs)"
  using opens_on_silence [OF sql_ok_init _ fps_ok_Nil, of "replicate SQL_OPEN_SCAN_LEN 0" "replicate 25030 (0, 0)" still_env]
  by (simp add: squelch_init_def list_all_iff)

text \<open>C13. An open squelch closes: 40816 samples of at least 3500 behind the filter (less than a
  second) are enough, and the first report they cause is an end.\<close>

theorem closes_on_noise:
  assumes "sql_ok s" "sql_open s" "fps_ok fps" "length w = SQL_OPEN_SCAN_LEN"
    and "list_all (\<lambda>p. 3500 \<le> \<bar>sint (snd p)\<bar>) xs" "40816 \<le> length xs"
  shows "\<exists>s1 d evs. sql_run fps env w xs s = Inr s1 \<and> adds s s1 (Ev_close d # evs)"
proof -
  obtain s1 where s1: "sql_run fps env w xs s = Inr s1" using sql_run_total [OF assms(3,4)] by blast
  have "snd (ctl_run (ctl_of s) (map snd xs)) \<noteq> []"
    using assms by (intro ctl_loud_event) (auto simp: sql_ok_def ctl_of_def list_all_iff)
  moreover have "c_open (ctl_of s)" using assms(2) by (simp add: ctl_of_def)
  ultimately obtain d evs where "snd (ctl_run (ctl_of s) (map snd xs)) = Ev_close d # evs"
    using ctl_run_hd [of "ctl_of s" "map snd xs"] by (cases "snd (ctl_run (ctl_of s) (map snd xs))") auto
  then show ?thesis using sql_run_refines [OF assms(1) s1] s1 by auto
qed

theorem closes_on_noise_witness:
  "\<exists>s1 d evs. sql_run [] still_env (replicate SQL_OPEN_SCAN_LEN 0) (replicate 40816 (0, 5000)) (squelch_init\<lparr>sql_open := True\<rparr>) = Inr s1
    \<and> adds (squelch_init\<lparr>sql_open := True\<rparr>) s1 (Ev_close d # evs)"
proof -
  have "sql_ok (squelch_init\<lparr>sql_open := True\<rparr>)"
    using sql_ok_init by (simp add: sql_ok_def ctl_ok_def ctl_of_def)
  moreover have "sint (5000 :: s16) = 5000" by simp
  ultimately show ?thesis
    using closes_on_noise [of "squelch_init\<lparr>sql_open := True\<rparr>" "[]" "replicate SQL_OPEN_SCAN_LEN 0"
        "replicate 40816 (0, 5000)" still_env] fps_ok_Nil
    by (simp add: list_all_iff)
qed

text \<open>For any date the calendar yields up to the year 9999, the event id is complete in its
  buffer, and two events with the same id happened in the same millisecond.\<close>

lemma event_ids_identify:
  assumes "tod_ok t" "tod_ok u"
  shows "snd (event_id (Some t) EVENT_ID_SIZE) = 19 \<and> length (fst (event_id (Some t) EVENT_ID_SIZE)) = 19
    \<and> (event_id (Some t) EVENT_ID_SIZE = event_id (Some u) EVENT_ID_SIZE
        \<longleftrightarrow> t\<lparr>tv_usec := tv_usec t div 1000\<rparr> = u\<lparr>tv_usec := tv_usec u div 1000\<rparr>)"
proof (intro conjI iffI)
  show "snd (event_id (Some t) EVENT_ID_SIZE) = 19" by (simp add: event_id_text [OF assms(1)])
  have "3 = length (pad0 3 (tv_usec t div 1000))"
    using assms(1) by (intro length_pad0 [symmetric]) (auto simp: tod_ok_def less_mult_imp_div_less)
  then show "length (fst (event_id (Some t) EVENT_ID_SIZE)) = 19"
    using assms(1) by (simp add: event_id_text length_pad0) (simp add: tod_ok_def length_pad0)
  show "t\<lparr>tv_usec := tv_usec t div 1000\<rparr> = u\<lparr>tv_usec := tv_usec u div 1000\<rparr>"
    if "event_id (Some t) EVENT_ID_SIZE = event_id (Some u) EVENT_ID_SIZE"
    using event_id_inj [OF assms that] .
  show "event_id (Some t) EVENT_ID_SIZE = event_id (Some u) EVENT_ID_SIZE"
    if "t\<lparr>tv_usec := tv_usec t div 1000\<rparr> = u\<lparr>tv_usec := tv_usec u div 1000\<rparr>"
  proof -
    have "tm_year t = tm_year u" "tm_mon t = tm_mon u" "tm_mday t = tm_mday u" "tm_hour t = tm_hour u"
      "tm_min t = tm_min u" "tm_sec t = tm_sec u" "tv_usec t div 1000 = tv_usec u div 1000"
      using that by (metis tod.select_convs tod.surjective tod.update_convs)+
    then show ?thesis by (simp add: event_id_text assms)
  qed
qed

lemma event_ids_identify_example:
  "length (fst (event_id (Some \<lparr>tm_year = 113, tm_mon = 0, tm_mday = 2, tm_hour = 3, tm_min = 4, tm_sec = 5, tv_usec = 6000\<rparr>) EVENT_ID_SIZE)) = 19"
  using event_ids_identify [of "\<lparr>tm_year = 113, tm_mon = 0, tm_mday = 2, tm_hour = 3, tm_min = 4, tm_sec = 5, tv_usec = 6000\<rparr>"
      "\<lparr>tm_year = 113, tm_mon = 0, tm_mday = 2, tm_hour = 3, tm_min = 4, tm_sec = 5, tv_usec = 6000\<rparr>"]
  by (simp add: tod_ok_def)

end
