(* ===== verification/Receiver.thy ===== *)
theory Receiver
  imports Squelch
begin

section \<open>A receiver (\<open>receiver.c\<close>, \<open>receiver.h\<close>, third part)\<close>

text \<open>
  The filter tables, \<open>init_receiver\<close> and \<open>receiver_run\<close>, which takes one block of
  interleaved samples: it makes room in the sample buffer, runs the squelch filter over the
  receiver's channel, hands the block to \<open>copy_buffer\<close> and logs the level.
\<close>

subsection \<open>Filter tables\<close>

text \<open>Each coefficient as its decimal literal: mantissa and power of ten.\<close>

definition coeffs_sql :: "(int \<times> int) list" where
  "coeffs_sql = [
     (- 363643401, - 9), (442966528, - 10), (- 167480122, - 10),
     (134063018, - 10), (- 509622442, - 10), (- 231586393, - 11),
     (- 528037096, - 10), (257976086, - 10), (- 196545184, - 10),
     (737171662, - 10), (599298853, - 12), (874691352, - 10),
     (- 456404347, - 10), (435786023, - 10), (- 169039005, - 9),
     (858638063, - 13), (- 380806415, - 9), (446237703, - 9),
     (446237703, - 9), (- 380806415, - 9), (858638063, - 13),
     (- 169039005, - 9), (435786023, - 10), (- 456404347, - 10),
     (874691352, - 10), (599298853, - 12), (737171662, - 10),
     (- 196545184, - 10), (257976086, - 10), (- 528037096, - 10),
     (- 231586393, - 11), (- 509622442, - 10), (134063018, - 10),
     (- 167480122, - 10), (442966528, - 10), (- 363643401, - 9)]"

definition coeffs_txid :: "(int \<times> int) list" where
  "coeffs_txid = [
     (14712691, - 8), (7751501, - 8), (- 2297688, - 8),
     (6114172, - 8), (- 536196, - 8), (5092962, - 8),
     (694951, - 8), (4458397, - 8), (1570522, - 8),
     (405898, - 7), (2192375, - 8), (3815735, - 8),
     (2629226, - 8), (363804, - 7), (2967061, - 8),
     (3514475, - 8), (3193517, - 8), (3362722, - 8),
     (3362722, - 8), (3193517, - 8), (3514475, - 8),
     (2967061, - 8), (363804, - 7), (2629226, - 8),
     (3815735, - 8), (2192375, - 8), (405898, - 7),
     (1570522, - 8), (4458397, - 8), (694951, - 8),
     (5092962, - 8), (- 536196, - 8), (6114172, - 8),
     (- 2297688, - 8), (7751501, - 8), (14712691, - 8)]"

definition COEFFS_L :: nat where "COEFFS_L = 36"

definition literals :: "'f fops \<Rightarrow> (int \<times> int) list \<Rightarrow> 'f list" where
  "literals ops tab = map (\<lambda>(m, e). f_lit ops m e) tab"

lemma coeffs_length [simp]: "length coeffs_sql = COEFFS_L" "length coeffs_txid = COEFFS_L"
  by (simp_all add: coeffs_sql_def coeffs_txid_def COEFFS_L_def)

lemma length_literals [simp]: "length (literals ops tab) = length tab"
  by (simp add: literals_def)

text \<open>Both tables are palindromes, so both filters have linear phase.\<close>

lemma coeffs_palindrome: "rev coeffs_sql = coeffs_sql" "rev coeffs_txid = coeffs_txid"
  by (simp_all add: coeffs_sql_def coeffs_txid_def)

subsection \<open>The receiver\<close>

definition RECEIVER_BUFLEN :: nat where "RECEIVER_BUFLEN = 16384"
definition RECEIVER_BUF_COPY :: nat where "RECEIVER_BUF_COPY = RECEIVER_BUFLEN div 4"

text \<open>
  \<open>buffers\<close> holds the two arrays of the struct one behind the other, as memory does:
  \<open>buffer_sql\<close>, then \<open>buffer_txid\<close>. An index past both is past the allocation.
\<close>

record 'f receiver =
  filter_sql :: "'f fir"
  filter_txid :: "'f fir"
  rx_name :: char
  num_ch :: nat
  ch_ofs :: nat
  last_levellog :: int
  bufpos :: nat
  buffers :: "s16 list"

definition init_receiver :: "'f fops \<Rightarrow> char \<Rightarrow> nat \<Rightarrow> nat \<Rightarrow> 'f receiver" where
  "init_receiver ops name nch chofs =
     \<lparr>filter_sql = filter_init ops COEFFS_L (literals ops coeffs_sql),
      filter_txid = filter_init ops COEFFS_L (literals ops coeffs_txid),
      rx_name = name, num_ch = nch, ch_ofs = chofs, last_levellog = 0,
      bufpos = RECEIVER_BUFLEN div 4,
      buffers = replicate RECEIVER_BUFLEN (word_of_int (- 16000)) @ replicate RECEIVER_BUFLEN 0\<rparr>"

text \<open>
  The copy to the front when the block would not fit: the code compares with the number of
  samples divided by the number of channels, though it stores one sample per channel for
  each of the \<open>len\<close> frames.
\<close>

definition make_room :: "'f receiver \<Rightarrow> nat \<Rightarrow> 'f receiver res" where
  "make_room rx len =
     (if num_ch rx = 0 then Inl Div_by_zero
      else if bufpos rx + len div num_ch rx > RECEIVER_BUFLEN then
        if bufpos rx < RECEIVER_BUF_COPY \<or> bufpos rx > length (buffers rx) then Inl Out_of_bounds
        else Inr (rx\<lparr>buffers := window_at (buffers rx) (bufpos rx) RECEIVER_BUF_COPY
                              @ drop RECEIVER_BUF_COPY (buffers rx),
                     bufpos := RECEIVER_BUF_COPY\<rparr>)
      else Inr rx)"

text \<open>What is logged: that the level is too high, or the level, with the channel and the peak.\<close>

datatype level_log = Level_too_high nat s16 | Level nat s16

text \<open>
  \<open>level = maxval / 32768 * 100\<close> is exact in a \<open>float\<close> (\<open>maxval * 100\<close> has fewer than 24
  bits), so \<open>level > 99.0\<close> is an integer comparison. \<open>now1\<close> and \<open>now2\<close> are the clock at the
  two calls.
\<close>

definition level_report :: "int \<Rightarrow> int \<Rightarrow> int \<Rightarrow> s16 \<Rightarrow> 'f receiver \<Rightarrow> 'f receiver \<times> level_log option" where
  "level_report sound_levellog now1 now2 maxval rx =
     (let level_distance = now1 - last_levellog rx in
      if 100 * sint maxval > 99 * 32768 \<and> (level_distance \<ge> 30 \<or> level_distance \<ge> sound_levellog)
      then (rx\<lparr>last_levellog := now2\<rparr>, Some (Level_too_high (ch_ofs rx) maxval))
      else if sound_levellog \<noteq> 0 \<and> level_distance \<ge> sound_levellog
      then (rx\<lparr>last_levellog := now2\<rparr>, Some (Level (ch_ofs rx) maxval))
      else (rx, None))"

definition receiver_run ::
  "'f fops \<Rightarrow> fingerprint_t list \<Rightarrow> (u64 \<Rightarrow> sql_env) \<Rightarrow> int \<Rightarrow> int \<Rightarrow> int \<Rightarrow> 'f receiver \<Rightarrow> s16 list \<Rightarrow> nat
    \<Rightarrow> squelch \<Rightarrow> ('f receiver \<times> squelch \<times> level_log option) res"
where
  "receiver_run ops fps env sound_levellog now1 now2 rx buf len s =
     (if len > RECEIVER_BUFLEN div 2 then Inl Aborted
      else
        let inp = drop (ch_ofs rx) buf in
        res_bind (make_room rx len) (\<lambda>rx1.
        res_bind (filter_run_buf ops (filter_sql rx1) inp (num_ch rx1) len) (\<lambda>(f, sql_hp_filtered, _).
        res_bind (copy_buffer fps env inp (buffers rx1) (bufpos rx1) sql_hp_filtered (num_ch rx1) len s)
          (\<lambda>(mem, s1, maxval).
            let rx2 = rx1\<lparr>filter_sql := f, buffers := mem, bufpos := bufpos rx1 + len\<rparr>;
                (rx3, lg) = level_report sound_levellog now1 now2 maxval rx2
            in Inr (rx3, s1, lg)))))"

subsection \<open>The invariant and one block\<close>

definition rx_ok :: "'f receiver \<Rightarrow> bool" where
  "rx_ok rx \<longleftrightarrow> fir_ok COEFFS_L (filter_sql rx) \<and> 0 < num_ch rx
     \<and> RECEIVER_BUF_COPY \<le> bufpos rx \<and> bufpos rx \<le> RECEIVER_BUFLEN + RECEIVER_BUFLEN div 2
     \<and> length (buffers rx) = 2 * RECEIVER_BUFLEN"

definition rx_hist :: "'f receiver \<Rightarrow> s16 list" where
  "rx_hist rx = window_at (buffers rx) (bufpos rx) RECEIVER_BUF_COPY"

definition rx_channel :: "'f receiver \<Rightarrow> s16 list \<Rightarrow> nat \<Rightarrow> s16 list" where
  "rx_channel rx buf len = channel (drop (ch_ofs rx) buf) (num_ch rx) len"

definition block_ok :: "'f receiver \<Rightarrow> s16 list \<Rightarrow> nat \<Rightarrow> bool" where
  "block_ok rx buf len \<longleftrightarrow> len \<le> RECEIVER_BUFLEN div 2 \<and> fits (drop (ch_ofs rx) buf) (num_ch rx) len"

lemmas rx_consts = RECEIVER_BUFLEN_def RECEIVER_BUF_COPY_def

declare rx_consts [c_consts]

lemma rx_ok_init: "0 < nch \<Longrightarrow> rx_ok (init_receiver ops name nch chofs)"
  using fir_ok_init [of COEFFS_L "literals ops coeffs_sql" ops]
  by (simp add: rx_ok_def init_receiver_def rx_consts COEFFS_L_def BufferLen_def)

lemma rx_hist_init: "rx_hist (init_receiver ops name nch chofs) = replicate RECEIVER_BUF_COPY (word_of_int (- 16000))"
  by (simp add: rx_hist_def init_receiver_def window_at_def rx_consts)

lemma window_at_lastn:
  assumes "m \<le> n" "n \<le> p" "p \<le> length xs"
  shows "window_at xs p m = lastn m (window_at xs p n)"
proof (rule nth_equalityI)
  show "length (window_at xs p m) = length (lastn m (window_at xs p n))" using assms by simp
  fix i assume "i < length (window_at xs p m)"
  then have i: "i < m" using assms by simp
  have "window_at xs p n ! (n - m + i) = xs ! (p - n + (n - m + i))"
    using assms i by (intro nth_window_at) auto
  moreover have "p - n + (n - m + i) = p - m + i" using assms by linarith
  ultimately show "window_at xs p m ! i = lastn m (window_at xs p n) ! i"
    using assms i by (simp add: nth_window_at nth_lastn)
qed

lemma window_at_append:
  assumes "n \<le> p" "p + length ys \<le> length xs"
  shows "window_at (take p xs @ ys @ zs) (p + length ys) n = lastn n (window_at xs p n @ ys)"
proof (rule nth_equalityI)
  show "length (window_at (take p xs @ ys @ zs) (p + length ys) n) = length (lastn n (window_at xs p n @ ys))"
    using assms by simp
  fix i assume "i < length (window_at (take p xs @ ys @ zs) (p + length ys) n)"
  then have i: "i < n" using assms by simp
  have l: "lastn n (window_at xs p n @ ys) ! i = (window_at xs p n @ ys) ! (length ys + i)"
    using assms i by (simp add: nth_lastn)
  have r: "window_at (take p xs @ ys @ zs) (p + length ys) n ! i = (take p xs @ ys @ zs) ! (p + length ys - n + i)"
    using assms i by (simp add: nth_window_at)
  show "window_at (take p xs @ ys @ zs) (p + length ys) n ! i = lastn n (window_at xs p n @ ys) ! i"
  proof (cases "length ys + i < n")
    case True
    then have "p + length ys - n + i < p" using assms by linarith
    moreover have "p + length ys - n + i = p - n + (length ys + i)" using assms by linarith
    ultimately show ?thesis using True assms unfolding l r by (simp add: nth_append nth_window_at)
  next
    case False
    then have "p \<le> p + length ys - n + i" "p + length ys - n + i - p = length ys + i - n"
      "length ys + i - n < length ys" using assms i by linarith+
    then show ?thesis using False assms unfolding l r by (simp add: nth_append)
  qed
qed

lemma make_room_ok:
  assumes "rx_ok rx" "len \<le> RECEIVER_BUFLEN div 2"
  shows "\<exists>rx1. make_room rx len = Inr rx1 \<and> rx_ok rx1 \<and> rx_hist rx1 = rx_hist rx
    \<and> bufpos rx1 + len \<le> RECEIVER_BUFLEN + RECEIVER_BUFLEN div 2
    \<and> rx1\<lparr>buffers := b, bufpos := p\<rparr> = rx\<lparr>buffers := b, bufpos := p\<rparr>"
proof (cases "bufpos rx + len div num_ch rx > RECEIVER_BUFLEN")
  case True
  let ?w = "window_at (buffers rx) (bufpos rx) RECEIVER_BUF_COPY"
  let ?b = "?w @ drop RECEIVER_BUF_COPY (buffers rx)"
  have r: "RECEIVER_BUF_COPY \<le> bufpos rx" "bufpos rx \<le> length (buffers rx)"
    using assms(1) by (auto simp: rx_ok_def rx_consts)
  then have l: "length ?w = RECEIVER_BUF_COPY" by simp
  have w: "window_at ?b RECEIVER_BUF_COPY RECEIVER_BUF_COPY = ?w"
    by (rule window_at_memcpy) (use r in auto)
  have "make_room rx len = Inr (rx\<lparr>buffers := ?b, bufpos := RECEIVER_BUF_COPY\<rparr>)"
    using True r assms(1) by (simp add: make_room_def rx_ok_def)
  then show ?thesis
    using assms w l by (auto simp: rx_ok_def rx_hist_def rx_consts)
next
  case False
  have "bufpos rx \<le> RECEIVER_BUFLEN" using False by linarith
  then show ?thesis using False assms by (auto simp: make_room_def rx_ok_def)
qed

text \<open>
  A block of any number of channels: the receiver behaves as the run over the stream of its
  channel, with the squelch filter's outputs beside the samples, and no write leaves the
  struct.
\<close>

lemma receiver_run_ok:
  assumes "rx_ok rx" "block_ok rx buf len"
  defines "xs \<equiv> rx_channel rx buf len"
  shows "\<exists>rx1. rx_ok rx1 \<and> rx_hist rx1 = lastn RECEIVER_BUF_COPY (rx_hist rx @ xs)
    \<and> filter_sql rx1 = fir_feed ops (filter_sql rx) xs \<and> num_ch rx1 = num_ch rx \<and> ch_ofs rx1 = ch_ofs rx
    \<and> (\<forall>fps env s. receiver_run ops fps env lv now1 now2 rx buf len s =
        res_bind (sql_run fps env (lastn SQL_OPEN_SCAN_LEN (rx_hist rx))
                    (zip xs (fir_outputs ops (filter_sql rx) xs)) s)
          (\<lambda>s1. Inr (rx1, s1, snd (level_report lv now1 now2 (peak_from (word_of_int (- 32000)) xs) rx))))"
proof -
  have len: "len \<le> RECEIVER_BUFLEN div 2" and fit: "fits (drop (ch_ofs rx) buf) (num_ch rx) len"
    using assms(2) by (auto simp: block_ok_def)
  obtain rx0 where rx0: "make_room rx len = Inr rx0" "rx_ok rx0" "rx_hist rx0 = rx_hist rx"
    "bufpos rx0 + len \<le> RECEIVER_BUFLEN + RECEIVER_BUFLEN div 2"
    "rx0\<lparr>buffers := [], bufpos := 0\<rparr> = rx\<lparr>buffers := [], bufpos := 0\<rparr>"
    using make_room_ok [OF assms(1) len] by blast
  have same: "filter_sql rx0 = filter_sql rx" "num_ch rx0 = num_ch rx" "ch_ofs rx0 = ch_ofs rx"
    "last_levellog rx0 = last_levellog rx"
    using rx0(5) by (metis receiver.select_convs receiver.update_convs receiver.surjective)+
  have xs: "channel (drop (ch_ofs rx) buf) (num_ch rx) len = xs" by (simp add: xs_def rx_channel_def)
  have lx: "length xs = len" by (simp add: xs_def rx_channel_def)
  define mem where "mem = take (bufpos rx0) (buffers rx0) @ xs @ drop (bufpos rx0 + len) (buffers rx0)"
  define rx2 where "rx2 = rx0\<lparr>filter_sql := fir_feed ops (filter_sql rx) xs, buffers := mem, bufpos := bufpos rx0 + len\<rparr>"
  let ?mx = "peak_from (word_of_int (- 32000)) xs"
  define rx1 where "rx1 = fst (level_report lv now1 now2 ?mx rx2)"
  have base: "RECEIVER_BUF_COPY \<le> bufpos rx0" "bufpos rx0 + len \<le> length (buffers rx0)"
    using rx0(2,4) by (auto simp: rx_ok_def rx_consts)
  have ok: "fir_ok COEFFS_L (filter_sql rx)" using assms(1) by (simp add: rx_ok_def)
  have h: "window_at mem (bufpos rx0 + len) RECEIVER_BUF_COPY = lastn RECEIVER_BUF_COPY (rx_hist rx @ xs)"
    unfolding mem_def using window_at_append [of RECEIVER_BUF_COPY "bufpos rx0" xs "buffers rx0"] base rx0(3)
    by (simp add: lx rx_hist_def)
  have w: "window_at (buffers rx0) (bufpos rx0) SQL_OPEN_SCAN_LEN = lastn SQL_OPEN_SCAN_LEN (rx_hist rx)"
    unfolding rx0(3) [symmetric] rx_hist_def [of rx0]
    by (rule window_at_lastn) (use base in \<open>auto simp: c_consts\<close>)
  have ok2: "rx_ok rx2"
    using rx0(2,4) base fir_ok_feed [OF ok] lx by (simp add: rx_ok_def rx2_def mem_def)
  have lr: "rx_ok (fst (level_report lv a b m r)) = rx_ok r"
    "rx_hist (fst (level_report lv a b m r)) = rx_hist r" "filter_sql (fst (level_report lv a b m r)) = filter_sql r"
    "num_ch (fst (level_report lv a b m r)) = num_ch r" "ch_ofs (fst (level_report lv a b m r)) = ch_ofs r"
    for a b m and r :: "'a receiver"
    by (simp_all add: level_report_def Let_def rx_ok_def rx_hist_def)
  have lg: "snd (level_report lv now1 now2 m (rx0\<lparr>filter_sql := f, buffers := b, bufpos := p\<rparr>))
      = snd (level_report lv now1 now2 m rx)" for m f b p
    by (auto simp: level_report_def Let_def same)
  have frun: "filter_run_buf ops (filter_sql rx0) (drop (ch_ofs rx) buf) (num_ch rx0) len =
      Inr (fir_feed ops (filter_sql rx) xs, fir_outputs ops (filter_sql rx) xs, peak_from 0 xs)"
    using filter_run_buf_ok [OF ok fit, of ops] by (simp add: same xs)
  have le: "SQL_OPEN_SCAN_LEN \<le> bufpos rx0" using base(1) by (simp add: c_consts)
  have crun: "copy_buffer fps env (drop (ch_ofs rx) buf) (buffers rx0) (bufpos rx0)
       (fir_outputs ops (filter_sql rx) xs) (num_ch rx0) len s =
     res_bind (sql_run fps env (lastn SQL_OPEN_SCAN_LEN (rx_hist rx)) (zip xs (fir_outputs ops (filter_sql rx) xs)) s)
       (\<lambda>s1. Inr (mem, s1, ?mx))" for fps env s
    using copy_buffer_ok [of "bufpos rx0" len "buffers rx0" "drop (ch_ofs rx) buf" "num_ch rx0"
        "fir_outputs ops (filter_sql rx) xs" fps env s] base fit le
    by (simp add: w xs same lx mem_def)
  have "\<forall>fps env s. receiver_run ops fps env lv now1 now2 rx buf len s =
        res_bind (sql_run fps env (lastn SQL_OPEN_SCAN_LEN (rx_hist rx))
                    (zip xs (fir_outputs ops (filter_sql rx) xs)) s)
          (\<lambda>s1. Inr (rx1, s1, snd (level_report lv now1 now2 ?mx rx)))"
    using len by (simp add: receiver_run_def rx0(1) frun crun Let_def res_bind_assoc case_prod_beta
        lg rx1_def rx2_def)
  moreover have "rx_ok rx1" "rx_hist rx1 = lastn RECEIVER_BUF_COPY (rx_hist rx @ xs)"
    "filter_sql rx1 = fir_feed ops (filter_sql rx) xs" "num_ch rx1 = num_ch rx" "ch_ofs rx1 = ch_ofs rx"
    using ok2 h by (simp_all add: rx1_def lr) (simp_all add: rx2_def rx_hist_def same)
  ultimately show ?thesis by blast
qed

subsection \<open>A sequence of blocks\<close>

record block =
  b_buf :: "s16 list"
  b_len :: nat
  b_now1 :: int
  b_now2 :: int

fun receiver_blocks ::
  "'f fops \<Rightarrow> fingerprint_t list \<Rightarrow> (u64 \<Rightarrow> sql_env) \<Rightarrow> int \<Rightarrow> 'f receiver \<Rightarrow> block list \<Rightarrow> squelch
    \<Rightarrow> ('f receiver \<times> squelch) res"
where
  "receiver_blocks ops fps env lv rx [] s = Inr (rx, s)"
| "receiver_blocks ops fps env lv rx (b # bs) s =
     res_bind (receiver_run ops fps env lv (b_now1 b) (b_now2 b) rx (b_buf b) (b_len b) s)
       (\<lambda>(rx1, s1, lg). receiver_blocks ops fps env lv rx1 bs s1)"

text \<open>The samples of the receiver's channel in all the blocks.\<close>

definition stream_of :: "'f receiver \<Rightarrow> block list \<Rightarrow> s16 list" where
  "stream_of rx bs = concat (map (\<lambda>b. rx_channel rx (b_buf b) (b_len b)) bs)"

definition blocks_ok :: "'f receiver \<Rightarrow> block list \<Rightarrow> bool" where
  "blocks_ok rx bs \<longleftrightarrow> list_all (\<lambda>b. block_ok rx (b_buf b) (b_len b)) bs"

text \<open>The whole sequence is one run over the stream: where it is cut does not matter.\<close>

lemma receiver_blocks_ok:
  assumes "rx_ok rx" "blocks_ok rx bs"
  shows "\<exists>rx1. rx_ok rx1 \<and> rx_hist rx1 = lastn RECEIVER_BUF_COPY (rx_hist rx @ stream_of rx bs)
    \<and> filter_sql rx1 = fir_feed ops (filter_sql rx) (stream_of rx bs)
    \<and> (\<forall>fps env s. receiver_blocks ops fps env lv rx bs s =
        res_bind (sql_run fps env (lastn SQL_OPEN_SCAN_LEN (rx_hist rx))
                    (zip (stream_of rx bs) (fir_outputs ops (filter_sql rx) (stream_of rx bs))) s)
          (\<lambda>s1. Inr (rx1, s1)))"
  using assms
proof (induction bs arbitrary: rx)
  case Nil
  have "length (rx_hist rx) = RECEIVER_BUF_COPY"
    using Nil.prems(1) by (simp add: rx_hist_def rx_ok_def rx_consts)
  then show ?case using Nil.prems(1) by (intro exI [of _ rx]) (simp add: stream_of_def)
next
  case (Cons b bs)
  let ?xs = "rx_channel rx (b_buf b) (b_len b)" and ?h = "rx_hist rx"
  have hl: "length ?h = RECEIVER_BUF_COPY"
    using Cons.prems(1) by (simp add: rx_hist_def rx_ok_def rx_consts)
  have b: "block_ok rx (b_buf b) (b_len b)" using Cons.prems(2) by (simp add: blocks_ok_def)
  obtain rx1 where rx1: "rx_ok rx1" "rx_hist rx1 = lastn RECEIVER_BUF_COPY (?h @ ?xs)"
    "filter_sql rx1 = fir_feed ops (filter_sql rx) ?xs" "num_ch rx1 = num_ch rx" "ch_ofs rx1 = ch_ofs rx"
    "\<And>fps env s. receiver_run ops fps env lv (b_now1 b) (b_now2 b) rx (b_buf b) (b_len b) s =
        res_bind (sql_run fps env (lastn SQL_OPEN_SCAN_LEN ?h) (zip ?xs (fir_outputs ops (filter_sql rx) ?xs)) s)
          (\<lambda>s1. Inr (rx1, s1, snd (level_report lv (b_now1 b) (b_now2 b) (peak_from (word_of_int (- 32000)) ?xs) rx)))"
    using receiver_run_ok [OF Cons.prems(1) b, where ops = ops] by blast
  have same: "stream_of rx1 bs = stream_of rx bs" "blocks_ok rx1 bs"
    using Cons.prems(2) rx1(4,5) by (simp_all add: stream_of_def rx_channel_def blocks_ok_def block_ok_def)
  let ?ys = "stream_of rx bs"
  have st: "stream_of rx (b # bs) = ?xs @ ?ys" by (simp add: stream_of_def)
  obtain rx2 where rx2: "rx_ok rx2" "rx_hist rx2 = lastn RECEIVER_BUF_COPY (rx_hist rx1 @ ?ys)"
    "filter_sql rx2 = fir_feed ops (filter_sql rx1) ?ys"
    "\<And>fps env s. receiver_blocks ops fps env lv rx1 bs s =
        res_bind (sql_run fps env (lastn SQL_OPEN_SCAN_LEN (rx_hist rx1)) (zip ?ys (fir_outputs ops (filter_sql rx1) ?ys)) s)
          (\<lambda>s1. Inr (rx2, s1))"
    using Cons.IH [OF rx1(1) same(2)] unfolding same(1) by blast
  have lw: "length (lastn SQL_OPEN_SCAN_LEN ?h) = SQL_OPEN_SCAN_LEN"
    by (simp add: hl c_consts)
  have hist: "lastn SQL_OPEN_SCAN_LEN (rx_hist rx1) = lastn SQL_OPEN_SCAN_LEN (lastn SQL_OPEN_SCAN_LEN ?h @ map fst (zip ?xs (fir_outputs ops (filter_sql rx) ?xs)))"
    by (simp add: rx1(2) lastn_lastn c_consts)
  have zips: "zip (?xs @ ?ys) (fir_outputs ops (filter_sql rx) (?xs @ ?ys))
      = zip ?xs (fir_outputs ops (filter_sql rx) ?xs) @ zip ?ys (fir_outputs ops (filter_sql rx1) ?ys)"
    by (simp add: fir_outputs_append rx1(3))
  have "receiver_blocks ops fps env lv rx (b # bs) s =
      res_bind (sql_run fps env (lastn SQL_OPEN_SCAN_LEN ?h)
                  (zip (?xs @ ?ys) (fir_outputs ops (filter_sql rx) (?xs @ ?ys))) s)
        (\<lambda>s1. Inr (rx2, s1))" for fps env s
    unfolding zips sql_run_append [OF lw] by (simp add: rx1(6) rx2(4) res_bind_assoc hist)
  then show ?case
    using rx2(1-3) unfolding st by (intro exI [of _ rx2]) (simp add: rx1(2,3) fir_feed_append)
qed

subsection \<open>How far a block reaches\<close>

text \<open>
  With one channel the room made is the room used, and nothing passes \<open>buffer_sql\<close>. With two
  the test halves the length, and a block can reach half its length into \<open>buffer_txid\<close>.
\<close>

lemma room_one_channel:
  assumes "rx_ok rx" "num_ch rx = 1" "len \<le> RECEIVER_BUFLEN div 2" "make_room rx len = Inr rx1"
  shows "bufpos rx1 + len \<le> RECEIVER_BUFLEN"
  using assms by (auto simp: make_room_def rx_consts split: if_splits)

lemma room_two_channels:
  assumes "num_ch rx = 2" "bufpos rx + len div 2 \<le> RECEIVER_BUFLEN" "RECEIVER_BUFLEN < bufpos rx + len"
  shows "make_room rx len = Inr rx"
  using assms by (simp add: make_room_def)

lemma receiver_run_abort:
  "RECEIVER_BUFLEN div 2 < len \<Longrightarrow> receiver_run ops fps env lv now1 now2 rx buf len s = Inl Aborted"
  by (simp add: receiver_run_def)

section \<open>Properties\<close>



end
