(* ===== verification/Cfgfile.thy ===== *)
theory Cfgfile
  imports Cstrings
begin

section \<open>Configuration file parsing (\<open>cfgfile.c\<close>, \<open>cfgfile.h\<close>)\<close>

text \<open>
  The splitting of a line into arguments with quotes and escapes, the joining back, the
  command table and the reading of a file. A line is the list of its characters up to the
  terminating NUL. The code decodes escapes in place; the lemma \<open>parse_string_inplace\<close>
  shows that it never writes beyond what it has read, so that working on lists is the same.
\<close>

definition CFGLINE_LEN :: nat where "CFGLINE_LEN = 102400"

definition hatoll :: "string \<Rightarrow> u64" where
  "hatoll s = foldl (\<lambda>res c. res * 10 + of_nat (ch c - 48)) 0 (takeWhile c_isdigit s)"

definition strlwr :: "string \<Rightarrow> string" where
  "strlwr s = map c_tolower s"

subsection \<open>Values\<close>

text \<open>Each returns what is stored and the code's return value.\<close>

definition do_string :: "string option \<Rightarrow> string list \<Rightarrow> string option \<times> int" where
  "do_string dest argv = (if length argv < 2 then (dest, - 1) else (Some (argv ! 1), 0))"

definition do_int :: "int \<Rightarrow> string list \<Rightarrow> int \<times> int" where
  "do_int dest argv = (if length argv < 2 then (dest, - 1) else (c_atoi (argv ! 1), 0))"

definition do_toggle :: "int \<Rightarrow> string list \<Rightarrow> int \<times> int" where
  "do_toggle dest argv =
     (if length argv < 2 then (dest, - 1)
      else if list_ex (strcasecmp_eq (argv ! 1)) [''true'', ''on'', ''1'', ''enable'', ''enabled'', ''yes'']
      then (1, 1) else (0, 0))"

subsection \<open>Escapes\<close>

definition is_octal :: "char \<Rightarrow> bool" where
  "is_octal c \<longleftrightarrow> 48 \<le> ch c \<and> ch c \<le> 55"

text \<open>\<open>(char) strtoul(str, &str, 8)\<close>: all the octal digits there are, not only three.\<close>

definition octal_char :: "string \<Rightarrow> char" where
  "octal_char ds = char_of (min (2 ^ 64 - 1) (foldl (\<lambda>a c. a * 8 + (ch c - 48)) 0 ds) mod 256)"

text \<open>
  From behind the opening quote: the characters stored and the rest of the line, or
  \<open>None\<close> when the line ends in a backslash. For \<open>\x\<close> the code steps back onto the \<open>x\<close>, where
  \<open>strtoul\<close> finds no digits: a NUL is stored and the \<open>x\<close> follows as itself.
\<close>

lemma dropWhile_less: "length (dropWhile P xs) < Suc (Suc (length xs))"
  using length_dropWhile_le [of P xs] by linarith

function (sequential) parse_string :: "string \<Rightarrow> (string \<times> string) option" where
  "parse_string [] = Some ([], [])"
| "parse_string (c # cs) =
     (if c = CHR 0x22 then Some ([], cs)
      else if c = CHR 0x5C then
        (case cs of
           [] \<Rightarrow> None
         | e # es \<Rightarrow>
             if e = CHR ''n'' then map_option (apfst (Cons (CHR 0x0A))) (parse_string es)
             else if e = CHR ''t'' then map_option (apfst (Cons (CHR 0x09))) (parse_string es)
             else if e = CHR ''v'' then map_option (apfst (Cons (CHR 0x0B))) (parse_string es)
             else if e = CHR ''b'' then map_option (apfst (Cons (CHR 0x08))) (parse_string es)
             else if e = CHR ''r'' then map_option (apfst (Cons (CHR 0x0D))) (parse_string es)
             else if e = CHR ''f'' then map_option (apfst (Cons (CHR 0x0C))) (parse_string es)
             else if e = CHR ''a'' then map_option (apfst (Cons (CHR 0x07))) (parse_string es)
             else if e = CHR ''x'' then map_option (apfst (Cons (CHR 0x00))) (parse_string (e # es))
             else if is_octal e then
               map_option (apfst (Cons (octal_char (takeWhile is_octal (e # es)))))
                 (parse_string (dropWhile is_octal (e # es)))
             else map_option (apfst (Cons e)) (parse_string es))
      else map_option (apfst (Cons c)) (parse_string cs))"
  by pat_completeness auto
termination
  by (relation "measure length") (auto simp: dropWhile_less)

declare parse_string.simps [simp del]

text \<open>What C sees of the stored characters: up to the first NUL.\<close>

definition cstr :: "string \<Rightarrow> string" where
  "cstr s = takeWhile (\<lambda>c. c \<noteq> CHR 0x00) s"

subsection \<open>Arguments\<close>

text \<open>\<open>ct\<close> counts the arguments stored; the result is \<open>None\<close> where the code returns 0 at once.\<close>

function parse_args_from :: "nat \<Rightarrow> string \<Rightarrow> string list option" where
  "parse_args_from ct cmd =
     (if ct < 255 then
        let cmd1 = dropWhile c_isspace cmd in
        if cmd1 = [] then Some []
        else if hd cmd1 = CHR 0x22 then
          (case parse_string (tl cmd1) of
             None \<Rightarrow> None
           | Some (a, rest) \<Rightarrow> map_option (Cons (cstr a)) (parse_args_from (ct + 1) (drop 1 rest)))
        else map_option (Cons (takeWhile (\<lambda>c. \<not> c_isspace c) cmd1))
               (parse_args_from (ct + 1) (drop 1 (dropWhile (\<lambda>c. \<not> c_isspace c) cmd1)))
      else Some [])"
  by pat_completeness auto
termination
  by (relation "measure (\<lambda>(ct, cmd). 255 - ct)") auto

declare parse_args_from.simps [simp del]

text \<open>The arguments; the length is the return value.\<close>

definition parse_args :: "string \<Rightarrow> string list" where
  "parse_args cmd = (case parse_args_from 0 cmd of None \<Rightarrow> [] | Some as \<Rightarrow> as)"

text \<open>\<open>strncat\<close> into the static array, as much as fits.\<close>

definition bounded_cat :: "nat \<Rightarrow> string \<Rightarrow> string \<Rightarrow> string" where
  "bounded_cat sz s t = s @ take (sz - length s - 1) t"

definition argstr :: "nat \<Rightarrow> string list \<Rightarrow> string" where
  "argstr arg argv =
     butlast (foldl (\<lambda>s a. bounded_cat CFGLINE_LEN (bounded_cat CFGLINE_LEN s a) '' '') [] (drop arg argv))"

subsection \<open>Commands\<close>

type_synonym 's command = "string \<times> (string list \<Rightarrow> 's \<Rightarrow> ('s \<times> int) res)"

definition find_command :: "'s command list \<Rightarrow> string \<Rightarrow> 's command option" where
  "find_command cmds name = find (\<lambda>c. strncasecmp_eq (fst c) name (length name)) cmds"

definition cmdparse :: "'s command list \<Rightarrow> string \<Rightarrow> 's \<Rightarrow> ('s \<times> int) res" where
  "cmdparse cmds cmdline s =
     (let argv = parse_args cmdline in
      if argv = [] \<or> take 1 (hd argv) = ''#'' then Inr (s, 0)
      else let name = strlwr (hd argv) in
        case find_command cmds name of
          None \<Rightarrow> Inr (s, - 1)
        | Some c \<Rightarrow> snd c (name # tl argv) s)"

subsection \<open>Files\<close>

text \<open>\<open>fgets\<close>: up to and with a newline, at most \<open>CFGLINE_LEN - 1\<close> characters.\<close>

fun fgets :: "nat \<Rightarrow> string \<Rightarrow> string \<times> string" where
  "fgets 0 s = ([], s)"
| "fgets (Suc n) [] = ([], [])"
| "fgets (Suc n) (c # cs) =
     (if c = CHR 0x0A then ([c], cs) else let (l, r) = fgets n cs in (c # l, r))"

lemma fgets_split: "fgets n s = (l, r) \<Longrightarrow> s = l @ r"
  by (induction n s arbitrary: l r rule: fgets.induct) (auto split: if_splits prod.splits)

lemma fgets_progress: "fgets (Suc n) (c # cs) = (l, r) \<Longrightarrow> l \<noteq> []"
  by (auto split: if_splits prod.splits)

text \<open>The loop over the lines, until a command fails.\<close>

function read_lines :: "'s command list \<Rightarrow> string \<Rightarrow> 's \<Rightarrow> ('s \<times> int) res" where
  "read_lines cmds content s =
     (if content = [] then Inr (s, 0)
      else let (line, rest) = fgets (CFGLINE_LEN - 1) content in
        res_bind (cmdparse cmds (cstr line) s)
          (\<lambda>(s1, ret). if ret < 0 then Inr (s1, 2) else read_lines cmds rest s1))"
  by pat_completeness auto
termination
proof (relation "measure (\<lambda>(cmds, content, s). length content)")
  fix content :: string and x and line rest :: string
  assume c: "content \<noteq> []" "x = fgets (CFGLINE_LEN - 1) content" "(line, rest) = x"
  obtain n where n: "CFGLINE_LEN - 1 = Suc n" by (simp add: CFGLINE_LEN_def)
  obtain d ds where d: "content = d # ds" using c(1) by (cases content) auto
  have "fgets (Suc n) (d # ds) = (line, rest)" using c n d by simp
  then have "length rest < length content"
    using fgets_progress fgets_split d by (metis append_self_conv2 length_append length_greater_0_conv less_add_same_cancel2)
  then show "((cmds, rest, s1), cmds, content, s) \<in> measure (\<lambda>(cmds, content, s). length content)"
    for cmds :: "'a command list" and s1 s by simp
qed simp

declare read_lines.simps [simp del]

definition cfg_fallbacks :: "string list" where
  "cfg_fallbacks = [''/etc/gnuais.conf'', ''/usr/local/etc/gnuais.conf'', ''/usr/etc/gnuais.conf'']"

text \<open>\<open>fs\<close> tells which paths can be opened, and their contents.\<close>

definition read_cfgfile :: "(string \<Rightarrow> string option) \<Rightarrow> string \<Rightarrow> 's command list \<Rightarrow> 's \<Rightarrow> ('s \<times> int) res" where
  "read_cfgfile fs f cmds s =
     (case find (\<lambda>p. fs p \<noteq> None) (f # cfg_fallbacks) of
        None \<Rightarrow> Inr (s, 1)
      | Some p \<Rightarrow> read_lines cmds (the (fs p)) s)"

subsection \<open>Decoding in place is safe\<close>

lemma apfst_Some: "map_option (apfst (Cons x)) o1 = Some (d, r) \<longleftrightarrow> (\<exists>d1. o1 = Some (d1, r) \<and> d = x # d1)"
  by (cases o1) (auto simp: apfst_def map_prod_def split: prod.splits)

lemma parse_string_step:
  assumes "parse_string (c # cs) = Some (d, r)" "c \<noteq> CHR 0x22"
  shows "\<exists>x d1 p w v. parse_string v = Some (d1, r) \<and> d = x # d1 \<and> c # cs = p # w @ v"
proof (cases "c = CHR 0x5C")
  case False
  then obtain d1 where "parse_string cs = Some (d1, r)" "d = c # d1"
    using assms by (subst (asm) parse_string.simps(2)) (auto simp: apfst_Some)
  then show ?thesis by (intro exI [of _ c] exI [of _ d1] exI [of _ "[]"] exI [of _ cs]) simp
next
  case True
  then obtain e es where e: "cs = e # es"
    using assms by (cases cs) (subst (asm) parse_string.simps(2), simp)+
  have split: "c # cs = c # takeWhile is_octal (e # es) @ dropWhile is_octal (e # es)"
    "c # cs = c # [e] @ es" "c # cs = c # [] @ (e # es)"
    using e by simp_all
  have "\<exists>x d1 v. parse_string v = Some (d1, r) \<and> d = x # d1
      \<and> v \<in> {es, e # es, dropWhile is_octal (e # es)}"
    using assms(1) unfolding True e
    by (subst (asm) parse_string.simps(2)) (simp only: apfst_Some split: if_splits list.splits, auto)
  then show ?thesis using split by blast
qed

lemma parse_string_inplace:
  "parse_string s = Some (d, r) \<Longrightarrow> \<exists>u. s = u @ r \<and> length d \<le> length u"
proof (induction s arbitrary: d r rule: length_induct)
  case (1 s)
  show ?case
  proof (cases s)
    case Nil
    then show ?thesis using "1.prems" by (simp add: parse_string.simps)
  next
    case (Cons c cs)
    show ?thesis
    proof (cases "c = CHR 0x22")
      case True
      then show ?thesis using "1.prems" Cons by (simp add: parse_string.simps)
    next
      case False
      then obtain x d1 p w v where v: "parse_string v = Some (d1, r)" "d = x # d1" "s = p # w @ v"
        using parse_string_step "1.prems" Cons by metis
      then have "length v < length s" by simp
      with v(1) obtain u where "v = u @ r" "length d1 \<le> length u" using "1.IH" by blast
      then show ?thesis using v by (intro exI [of _ "p # w @ u"]) simp
    qed
  qed
qed

subsection \<open>Quoting\<close>

text \<open>How a word has to be written for the parser to give it back.\<close>

definition quote_char :: "char \<Rightarrow> string" where
  "quote_char c =
     (if c = CHR 0x22 then [CHR 0x5C, CHR 0x22]
      else if c = CHR 0x5C then [CHR 0x5C, CHR 0x5C]
      else if c = CHR 0x0A then [CHR 0x5C, CHR ''n''] else [c])"

definition quote :: "string \<Rightarrow> string" where
  "quote w = CHR 0x22 # concat (map quote_char w) @ [CHR 0x22]"

lemma parse_string_quoted:
  "parse_string (concat (map quote_char w) @ CHR 0x22 # r) = Some (w, r)"
proof (induction w)
  case Nil
  then show ?case by (simp add: parse_string.simps)
next
  case (Cons c w)
  have "parse_string (quote_char c @ s) = map_option (apfst (Cons c)) (parse_string s)" for s
    by (auto simp: quote_char_def parse_string.simps is_octal_def)
  then show ?case using Cons by simp
qed

lemma cstr_no_nul: "CHR 0x00 \<notin> set w \<Longrightarrow> cstr w = w"
  by (auto simp: cstr_def takeWhile_eq_all_conv)

text \<open>A line of words, each quoted and followed by a blank.\<close>

definition quoted_line :: "string list \<Rightarrow> string" where
  "quoted_line ws = concat (map (\<lambda>w. quote w @ '' '') ws)"

lemma parse_args_from_quoted:
  "ct + length ws \<le> 255 \<Longrightarrow> \<forall>w\<in>set ws. CHR 0x00 \<notin> set w \<Longrightarrow> \<forall>c\<in>set t. c_isspace c \<Longrightarrow>
   parse_args_from ct (quoted_line ws @ t) = Some ws"
proof (induction ws arbitrary: ct)
  case Nil
  then have "dropWhile c_isspace t = []" by simp
  then show ?case by (subst parse_args_from.simps) (simp add: quoted_line_def)
next
  case (Cons w ws)
  have sp: "\<not> c_isspace (CHR 0x22)" by (simp add: c_isspace_def)
  have l: "quoted_line (w # ws) @ t = CHR 0x22 # concat (map quote_char w) @ CHR 0x22 # CHR '' '' # quoted_line ws @ t"
    by (simp add: quoted_line_def quote_def)
  show ?case
    using Cons.IH [of "Suc ct"] Cons.prems
    by (subst parse_args_from.simps) (simp add: l sp parse_string_quoted cstr_no_nul)
qed

lemma parse_args_quoted:
  "length ws \<le> 255 \<Longrightarrow> \<forall>w\<in>set ws. CHR 0x00 \<notin> set w \<Longrightarrow> \<forall>c\<in>set t. c_isspace c \<Longrightarrow>
   parse_args (quoted_line ws @ t) = ws"
  by (simp add: parse_args_def parse_args_from_quoted)

lemma parse_args_from_bound: "parse_args_from ct cmd = Some as \<Longrightarrow> ct \<le> 255 \<Longrightarrow> ct + length as \<le> 255"
proof (induction ct cmd arbitrary: as rule: parse_args_from.induct)
  case (1 ct cmd)
  show ?case
  proof (cases "ct < 255 \<and> dropWhile c_isspace cmd \<noteq> []")
    case False
    then have "as = []" using "1.prems" by (subst (asm) parse_args_from.simps) (auto simp: Let_def split: if_splits)
    then show ?thesis using "1.prems" by simp
  next
    case True
    obtain a as' cmd' where "as = a # as'" "parse_args_from (ct + 1) cmd' = Some as'"
      and "(\<exists>b r. parse_string (tl (dropWhile c_isspace cmd)) = Some (b, r) \<and> hd (dropWhile c_isspace cmd) = CHR 0x22 \<and> cmd' = drop 1 r)
        \<or> hd (dropWhile c_isspace cmd) \<noteq> CHR 0x22 \<and> cmd' = drop 1 (dropWhile (\<lambda>c. \<not> c_isspace c) (dropWhile c_isspace cmd))"
      using "1.prems" True
      by (subst (asm) parse_args_from.simps) (auto simp: Let_def split: if_splits option.splits prod.splits)
    then show ?thesis using "1.IH" True by fastforce
  qed
qed

lemma parse_args_bound: "length (parse_args cmd) \<le> 255"
  using parse_args_from_bound [of 0 cmd] by (auto simp: parse_args_def split: option.splits)

subsection \<open>Plain words\<close>

definition plain :: "string \<Rightarrow> bool" where
  "plain w \<longleftrightarrow> w \<noteq> [] \<and> hd w \<noteq> CHR 0x22 \<and> list_all (\<lambda>c. \<not> c_isspace c) w"

fun words_line :: "string list \<Rightarrow> string" where
  "words_line [] = []"
| "words_line [w] = w"
| "words_line (w # ws) = w @ '' '' @ words_line ws"

lemma parse_args_from_plain:
  "ct + length ws \<le> 255 \<Longrightarrow> list_all plain ws \<Longrightarrow> parse_args_from ct (words_line ws) = Some ws"
proof (induction ws arbitrary: ct rule: words_line.induct)
  case 1
  then show ?case by (subst parse_args_from.simps) simp
next
  case (2 w)
  then have "\<forall>c\<in>set w. \<not> c_isspace c" "w \<noteq> []" by (auto simp: plain_def list_all_iff)
  then have w: "dropWhile c_isspace w = w" "takeWhile (\<lambda>c. \<not> c_isspace c) w = w" "dropWhile (\<lambda>c. \<not> c_isspace c) w = []"
    by (cases w; simp add: takeWhile_eq_all_conv)+
  have "parse_args_from (Suc ct) [] = Some []" by (subst parse_args_from.simps) simp
  then show ?case using 2 w(1,2,3) by (subst parse_args_from.simps) (simp add: plain_def del: dropWhile_eq_Nil_conv)
next
  case (3 w v ws)
  let ?r = "words_line (v # ws)"
  have sp: "c_isspace (CHR '' '')" by (simp add: c_isspace_def)
  have w: "w \<noteq> []" "hd w \<noteq> CHR 0x22" "\<forall>c\<in>set w. \<not> c_isspace c"
    using 3 by (auto simp: plain_def list_all_iff)
  then have "dropWhile c_isspace (w @ CHR '' '' # ?r) = w @ CHR '' '' # ?r"
    by (cases w) auto
  moreover have "takeWhile (\<lambda>c. \<not> c_isspace c) (w @ CHR '' '' # ?r) = w"
    "dropWhile (\<lambda>c. \<not> c_isspace c) (w @ CHR '' '' # ?r) = CHR '' '' # ?r"
    using w sp by (simp_all add: takeWhile_append2 dropWhile_append2)
  moreover have "parse_args_from (Suc ct) ?r = Some (v # ws)" using 3 by simp
  ultimately show ?case using 3 w by (subst parse_args_from.simps) simp
qed

lemma argstr_fold:
  "length s + sum_list (map (\<lambda>a. length a + 1) as) < CFGLINE_LEN \<Longrightarrow>
   foldl (\<lambda>s a. bounded_cat CFGLINE_LEN (bounded_cat CFGLINE_LEN s a) '' '') s as = s @ concat (map (\<lambda>a. a @ '' '') as)"
proof (induction as arbitrary: s)
  case (Cons a as)
  have "bounded_cat CFGLINE_LEN (bounded_cat CFGLINE_LEN s a) '' '' = s @ a @ '' ''"
    using Cons.prems by (simp add: bounded_cat_def)
  then show ?case using Cons.IH [of "s @ a @ '' ''"] Cons.prems by simp
qed simp

lemma butlast_words: "butlast (concat (map (\<lambda>a. a @ '' '') ws)) = words_line ws"
  by (induction ws rule: words_line.induct) (simp_all add: butlast_append)

lemma argstr_eq:
  "sum_list (map (\<lambda>a. length a + 1) (drop arg argv)) < CFGLINE_LEN \<Longrightarrow> argstr arg argv = words_line (drop arg argv)"
  using argstr_fold [of "[]" "drop arg argv"] by (simp add: argstr_def butlast_words)

subsection \<open>The escape \<open>\x\<close>\<close>

lemma parse_string_plain:
  "list_all (\<lambda>c. c \<noteq> CHR 0x22 \<and> c \<noteq> CHR 0x5C) u \<Longrightarrow> parse_string (u @ s) = map_option (apfst ((@) u)) (parse_string s)"
proof (induction u)
  case Nil
  show ?case by (cases "parse_string s") auto
next
  case (Cons c u)
  then show ?case by (subst append_Cons, subst parse_string.simps(2)) (cases "parse_string s"; simp add: apfst_def map_prod_def split: prod.splits)
qed

lemma hex_escape_cuts:
  assumes "list_all (\<lambda>c. c \<noteq> CHR 0x22 \<and> c \<noteq> CHR 0x5C \<and> c \<noteq> CHR 0x00) u"
    "list_all (\<lambda>c. c \<noteq> CHR 0x22 \<and> c \<noteq> CHR 0x5C) v"
  shows "parse_args (CHR 0x22 # u @ CHR 0x5C # CHR ''x'' # v @ [CHR 0x22]) = [u]"
proof -
  have v: "parse_string (CHR ''x'' # v @ [CHR 0x22]) = Some (CHR ''x'' # v, [])"
    using parse_string_plain [of "CHR ''x'' # v" "[CHR 0x22]"] assms(2) by (simp add: parse_string.simps)
  have "parse_string (CHR 0x5C # CHR ''x'' # v @ [CHR 0x22]) = Some (CHR 0x00 # CHR ''x'' # v, [])"
    by (subst parse_string.simps(2)) (simp add: v)
  then have p: "parse_string (u @ CHR 0x5C # CHR ''x'' # v @ [CHR 0x22]) = Some (u @ CHR 0x00 # CHR ''x'' # v, [])"
    using assms(1) by (subst parse_string_plain) (auto simp: list_all_iff)
  have c: "cstr (u @ CHR 0x00 # w) = u" for w
    using assms(1) by (simp add: cstr_def list_all_iff takeWhile_append2)
  have e: "parse_args_from (Suc 0) [] = Some []" by (subst parse_args_from.simps) simp
  show ?thesis unfolding parse_args_def
    by (subst parse_args_from.simps) (simp add: p c e c_isspace_def)
qed

section \<open>Properties\<close>

text \<open>C26. Quoting is undone by parsing: up to 255 arbitrary words free of NUL, each quoted with
  its special characters escaped, come back as the arguments, whatever blanks end the line.\<close>

theorem quoted_words_roundtrip:
  assumes "length ws \<le> 255" "\<forall>w\<in>set ws. CHR 0x00 \<notin> set w" "\<forall>c\<in>set t. c_isspace c"
  shows "parse_args (quoted_line ws @ t) = ws"
  by (rule parse_args_quoted [OF assms])

theorem quoted_words_roundtrip_witness:
  "parse_args (quoted_line [''a b'', [CHR 0x22, CHR 0x5C, CHR 0x0A], []] @ [CHR 0x0A]) = [''a b'', [CHR 0x22, CHR 0x5C, CHR 0x0A], []]"
  by (rule quoted_words_roundtrip) (auto simp: c_isspace_def)

text \<open>\<open>argstr\<close> joins the arguments from a position on with blanks, and parsing its result
  gives plain words back.\<close>

lemma argstr_roundtrip:
  assumes "sum_list (map (\<lambda>a. length a + 1) (drop arg argv)) < CFGLINE_LEN" "list_all plain (drop arg argv)"
    and "length (drop arg argv) \<le> 255"
  shows "argstr arg argv = words_line (drop arg argv) \<and> parse_args (argstr arg argv) = drop arg argv"
  using parse_args_from_plain [of 0 "drop arg argv"] assms by (simp add: argstr_eq parse_args_def)

lemma argstr_roundtrip_plain:
  "argstr 1 [''x'', ''ab'', ''c''] = ''ab c'' \<and> parse_args (argstr 1 [''x'', ''ab'', ''c'']) = [''ab'', ''c'']"
proof -
  have "sum_list (map (\<lambda>a. length a + 1) (drop 1 [''x'', ''ab'', ''c''])) < CFGLINE_LEN"
    "list_all plain (drop 1 [''x'', ''ab'', ''c''])" "length (drop 1 [''x'', ''ab'', ''c'']) \<le> 255"
    by (simp_all add: CFGLINE_LEN_def plain_def c_isspace_def)
  note r = argstr_roundtrip [OF this]
  have d: "drop 1 [''x'', ''ab'', ''c''] = [''ab'', ''c'']" by simp
  show ?thesis using r unfolding d words_line.simps append.simps .
qed

text \<open>The escape \<open>\x\<close>, documented as a C-style escape, does not decode: the argument ends
  where it stands, whatever digits follow.\<close>

lemma hex_escape_truncates:
  assumes "list_all (\<lambda>c. c \<noteq> CHR 0x22 \<and> c \<noteq> CHR 0x5C \<and> c \<noteq> CHR 0x00) u"
    and "list_all (\<lambda>c. c \<noteq> CHR 0x22 \<and> c \<noteq> CHR 0x5C) v"
  shows "parse_args (CHR 0x22 # u @ CHR 0x5C # CHR ''x'' # v @ [CHR 0x22]) = [u]"
  by (rule hex_escape_cuts [OF assms])

lemma hex_escape_truncates_example:
  "parse_args (CHR 0x22 # ''a'' @ CHR 0x5C # CHR ''x'' # ''41'' @ [CHR 0x22]) = [''a'']"
  by (rule hex_escape_truncates) simp_all

end
