(* ===== verification/Rwlock.thy ===== *)
theory Rwlock
  imports Prelude
begin

section \<open>The read-write lock (\<open>rwlock.c\<close>)\<close>

text \<open>
  The critical sections of each operation, and the system of threads that run them. A
  section runs with the mutex held, so it is one step; \<open>pthread_cond_wait\<close> gives the mutex
  up, so a wait ends one step and the test after waking begins another. The mutex and
  condition calls of pthreads are taken to succeed, except where a status is returned to
  the caller (\<open>rwl_destroy\<close>).
\<close>

subsection \<open>The lock and its critical sections\<close>

record rwlock =
  valid :: bool
  r_active :: nat
  w_active :: bool
  r_wait :: nat
  w_wait :: nat

definition EBUSY :: int where "EBUSY = 16"
definition EINVAL :: int where "EINVAL = 22"

definition rwl_init :: rwlock where
  "rwl_init = \<lparr>valid = True, r_active = 0, w_active = False, r_wait = 0, w_wait = 0\<rparr>"

text \<open>\<open>Got\<close> the lock, \<open>Wait\<close> on the condition, or \<open>Fail\<close> with an error code.\<close>

datatype outcome = Got rwlock | Wait rwlock | Fail int

definition rwl_rdlock :: "rwlock \<Rightarrow> outcome" where
  "rwl_rdlock l =
     (if \<not> valid l then Fail EINVAL
      else if w_active l then Wait (l\<lparr>r_wait := r_wait l + 1\<rparr>)
      else Got (l\<lparr>r_active := r_active l + 1\<rparr>))"

text \<open>The test of the \<open>while\<close> loop after a wake-up, and what follows the loop.\<close>

definition rwl_rdlock_woken :: "rwlock \<Rightarrow> outcome" where
  "rwl_rdlock_woken l =
     (if w_active l then Wait l
      else Got (l\<lparr>r_wait := r_wait l - 1, r_active := r_active l + 1\<rparr>))"

definition rwl_tryrdlock :: "rwlock \<Rightarrow> outcome" where
  "rwl_tryrdlock l =
     (if \<not> valid l then Fail EINVAL
      else if w_active l then Fail EBUSY
      else Got (l\<lparr>r_active := r_active l + 1\<rparr>))"

definition rwl_readcleanup :: "rwlock \<Rightarrow> rwlock" where
  "rwl_readcleanup l = l\<lparr>r_wait := r_wait l - 1\<rparr>"

datatype wake = Nobody | Signal_write | Broadcast_read

definition rwl_rdunlock :: "rwlock \<Rightarrow> rwlock \<times> wake" where
  "rwl_rdunlock l =
     (let l1 = l\<lparr>r_active := r_active l - 1\<rparr>
      in (l1, if r_active l1 = 0 \<and> w_wait l1 > 0 then Signal_write else Nobody))"

definition rwl_wrlock :: "rwlock \<Rightarrow> outcome" where
  "rwl_wrlock l =
     (if \<not> valid l then Fail EINVAL
      else if w_active l \<or> r_active l > 0 then Wait (l\<lparr>w_wait := w_wait l + 1\<rparr>)
      else Got (l\<lparr>w_active := True\<rparr>))"

definition rwl_wrlock_woken :: "rwlock \<Rightarrow> outcome" where
  "rwl_wrlock_woken l =
     (if w_active l \<or> r_active l > 0 then Wait l
      else Got (l\<lparr>w_wait := w_wait l - 1, w_active := True\<rparr>))"

definition rwl_writecleanup :: "rwlock \<Rightarrow> rwlock" where
  "rwl_writecleanup l = l\<lparr>w_wait := w_wait l - 1\<rparr>"

definition rwl_trywrlock :: "rwlock \<Rightarrow> outcome" where
  "rwl_trywrlock l =
     (if \<not> valid l then Fail EINVAL
      else if w_active l \<or> r_active l > 0 then Fail EBUSY
      else Got (l\<lparr>w_active := True\<rparr>))"

definition rwl_wrunlock :: "rwlock \<Rightarrow> rwlock \<times> wake" where
  "rwl_wrunlock l =
     (let l1 = l\<lparr>w_active := False\<rparr>
      in (l1, if r_wait l1 > 0 then Broadcast_read else if w_wait l1 > 0 then Signal_write else Nobody))"

text \<open>The statuses are those of the unlock and of the three destructions.\<close>

definition rwl_destroy :: "int \<Rightarrow> int \<Rightarrow> int \<Rightarrow> int \<Rightarrow> rwlock \<Rightarrow> rwlock \<times> int" where
  "rwl_destroy st_unlock status status1 status2 l =
     (if \<not> valid l then (l, EINVAL)
      else if r_active l > 0 \<or> w_active l then (l, EBUSY)
      else if r_wait l \<noteq> 0 \<or> w_wait l \<noteq> 0 then (l, EBUSY)
      else let l1 = l\<lparr>valid := False\<rparr> in
        if st_unlock \<noteq> 0 then (l1, st_unlock)
        else (l1, if status = 0 then status else if status1 = 0 then status1 else status2))"

subsection \<open>Threads\<close>

text \<open>
  Where a thread is with respect to the lock. \<open>RWait\<close> and \<open>WWait\<close> sleep on a condition;
  \<open>RWoken\<close> and \<open>WWoken\<close> have been woken and will test again.
\<close>

datatype tstate = Idle | RWait | RWoken | Reading | WWait | WWoken | Writing

type_synonym system = "rwlock \<times> tstate list"

text \<open>A broadcast wakes every reader; a signal wakes one writer, if one sleeps.\<close>

definition wake_readers :: "tstate list \<Rightarrow> tstate list" where
  "wake_readers ts = map (\<lambda>t. if t = RWait then RWoken else t) ts"

inductive woken :: "wake \<Rightarrow> tstate list \<Rightarrow> tstate list \<Rightarrow> bool" where
  woken_nobody: "woken Nobody ts ts"
| woken_readers: "woken Broadcast_read ts (wake_readers ts)"
| woken_writer: "i < length ts \<Longrightarrow> ts ! i = WWait \<Longrightarrow> woken Signal_write ts (ts[i := WWoken])"
| woken_none: "WWait \<notin> set ts \<Longrightarrow> woken Signal_write ts ts"

inductive rw_step :: "system \<Rightarrow> system \<Rightarrow> bool" where
  s_rdlock_got: "i < length ts \<Longrightarrow> ts ! i = Idle \<Longrightarrow> rwl_rdlock l = Got l' \<Longrightarrow> rw_step (l, ts) (l', ts[i := Reading])"
| s_rdlock_wait: "i < length ts \<Longrightarrow> ts ! i = Idle \<Longrightarrow> rwl_rdlock l = Wait l' \<Longrightarrow> rw_step (l, ts) (l', ts[i := RWait])"
| s_rdtry: "i < length ts \<Longrightarrow> ts ! i = Idle \<Longrightarrow> rwl_tryrdlock l = Got l' \<Longrightarrow> rw_step (l, ts) (l', ts[i := Reading])"
| s_rdwoken_got: "i < length ts \<Longrightarrow> ts ! i = RWoken \<Longrightarrow> rwl_rdlock_woken l = Got l' \<Longrightarrow> rw_step (l, ts) (l', ts[i := Reading])"
| s_rdwoken_wait: "i < length ts \<Longrightarrow> ts ! i = RWoken \<Longrightarrow> rwl_rdlock_woken l = Wait l' \<Longrightarrow> rw_step (l, ts) (l', ts[i := RWait])"
| s_rdspurious: "i < length ts \<Longrightarrow> ts ! i = RWait \<Longrightarrow> rw_step (l, ts) (l, ts[i := RWoken])"
| s_rdcancel: "i < length ts \<Longrightarrow> ts ! i = RWait \<Longrightarrow> rw_step (l, ts) (rwl_readcleanup l, ts[i := Idle])"
| s_rdunlock: "i < length ts \<Longrightarrow> ts ! i = Reading \<Longrightarrow> rwl_rdunlock l = (l', w) \<Longrightarrow> woken w (ts[i := Idle]) ts'
    \<Longrightarrow> rw_step (l, ts) (l', ts')"
| s_wrlock_got: "i < length ts \<Longrightarrow> ts ! i = Idle \<Longrightarrow> rwl_wrlock l = Got l' \<Longrightarrow> rw_step (l, ts) (l', ts[i := Writing])"
| s_wrlock_wait: "i < length ts \<Longrightarrow> ts ! i = Idle \<Longrightarrow> rwl_wrlock l = Wait l' \<Longrightarrow> rw_step (l, ts) (l', ts[i := WWait])"
| s_wrtry: "i < length ts \<Longrightarrow> ts ! i = Idle \<Longrightarrow> rwl_trywrlock l = Got l' \<Longrightarrow> rw_step (l, ts) (l', ts[i := Writing])"
| s_wrwoken_got: "i < length ts \<Longrightarrow> ts ! i = WWoken \<Longrightarrow> rwl_wrlock_woken l = Got l' \<Longrightarrow> rw_step (l, ts) (l', ts[i := Writing])"
| s_wrwoken_wait: "i < length ts \<Longrightarrow> ts ! i = WWoken \<Longrightarrow> rwl_wrlock_woken l = Wait l' \<Longrightarrow> rw_step (l, ts) (l', ts[i := WWait])"
| s_wrspurious: "i < length ts \<Longrightarrow> ts ! i = WWait \<Longrightarrow> rw_step (l, ts) (l, ts[i := WWoken])"
| s_wrcancel: "i < length ts \<Longrightarrow> ts ! i = WWait \<Longrightarrow> rw_step (l, ts) (rwl_writecleanup l, ts[i := Idle])"
| s_wrunlock: "i < length ts \<Longrightarrow> ts ! i = Writing \<Longrightarrow> rwl_wrunlock l = (l', w) \<Longrightarrow> woken w (ts[i := Idle]) ts'
    \<Longrightarrow> rw_step (l, ts) (l', ts')"

inductive rw_reach :: "system \<Rightarrow> bool" where
  rw_start: "rw_reach (rwl_init, replicate n Idle)"
| rw_next: "rw_reach s \<Longrightarrow> rw_step s s' \<Longrightarrow> rw_reach s'"

inductive_cases woken_cases: "woken w ts ts'"
inductive_simps woken_nobody_iff [simp]: "woken Nobody ts ts'"
inductive_simps woken_readers_iff [simp]: "woken Broadcast_read ts ts'"

subsection \<open>Counting threads\<close>

definition num :: "tstate \<Rightarrow> tstate list \<Rightarrow> nat" where
  "num t ts = length (filter ((=) t) ts)"

lemma num_pos: "0 < num t ts \<longleftrightarrow> t \<in> set ts"
  by (auto simp: num_def filter_empty_conv)

lemma num_at: "i < length ts \<Longrightarrow> 0 < num (ts ! i) ts"
  by (simp add: num_pos)

lemma num_update:
  "i < length ts \<Longrightarrow> num t (ts[i := b]) = num t ts - (if t = ts ! i then 1 else 0) + (if t = b then 1 else 0)"
proof (induction ts arbitrary: i)
  case (Cons a ts)
  show ?case
  proof (cases i)
    case (Suc j)
    moreover have "0 < num (ts ! j) ts" using Cons.prems Suc by (simp add: num_at)
    ultimately show ?thesis using Cons by (auto simp: num_def)
  qed (auto simp: num_def)
qed simp

lemma num_Cons: "num t (a # ts) = (if t = a then 1 else 0) + num t ts"
  by (simp add: num_def)

lemma num_Nil [simp]: "num t [] = 0"
  by (simp add: num_def)

lemma wake_readers_Cons: "wake_readers (a # ts) = (if a = RWait then RWoken else a) # wake_readers ts"
  by (simp add: wake_readers_def)

lemma num_wake_readers:
  "num t (wake_readers ts) =
    (if t = RWait then 0 else if t = RWoken then num RWait ts + num RWoken ts else num t ts)"
proof (induction ts)
  case Nil
  then show ?case by (simp add: wake_readers_def)
next
  case (Cons a ts)
  then show ?case by (auto simp: wake_readers_Cons num_Cons)
qed

lemma num_replicate_Idle: "t \<noteq> Idle \<Longrightarrow> num t (replicate n Idle) = 0"
  by (simp add: num_def)

text \<open>
  The counters count the threads; a writer is alone; a reader sleeps only while a writer is
  active; and while a writer sleeps somebody is active or about to test again.
\<close>

definition rw_inv :: "rwlock \<Rightarrow> tstate list \<Rightarrow> bool" where
  "rw_inv l ts \<longleftrightarrow> valid l
     \<and> r_active l = num Reading ts
     \<and> (if w_active l then 1 else 0) = num Writing ts
     \<and> r_wait l = num RWait ts + num RWoken ts
     \<and> w_wait l = num WWait ts + num WWoken ts
     \<and> \<not> (w_active l \<and> 0 < r_active l)
     \<and> (0 < num RWait ts \<longrightarrow> w_active l)
     \<and> (0 < num WWait ts \<longrightarrow> w_active l \<or> 0 < r_active l \<or> 0 < num RWoken ts \<or> 0 < num WWoken ts)"

lemmas rw_op_defs = rwl_rdlock_def rwl_tryrdlock_def rwl_rdlock_woken_def rwl_readcleanup_def rwl_rdunlock_def
  rwl_wrlock_def rwl_trywrlock_def rwl_wrlock_woken_def rwl_writecleanup_def rwl_wrunlock_def

lemma woken_num:
  assumes "woken w ts ts'"
  shows "(w = Nobody \<longrightarrow> (\<forall>t. num t ts' = num t ts))
    \<and> (w = Broadcast_read \<longrightarrow> num RWait ts' = 0 \<and> num RWoken ts' = num RWait ts + num RWoken ts
         \<and> (\<forall>t. t \<noteq> RWait \<longrightarrow> t \<noteq> RWoken \<longrightarrow> num t ts' = num t ts))
    \<and> (w = Signal_write \<longrightarrow> (\<forall>t. t \<noteq> WWait \<longrightarrow> t \<noteq> WWoken \<longrightarrow> num t ts' = num t ts)
         \<and> num WWait ts' + num WWoken ts' = num WWait ts + num WWoken ts
         \<and> (0 < num WWait ts \<longrightarrow> 0 < num WWoken ts') \<and> (num WWait ts = 0 \<longrightarrow> num WWait ts' = 0))"
  using assms
proof (cases rule: woken.cases)
  case (woken_writer i)
  then show ?thesis using num_at [of i ts] by (auto simp: num_update)
next
  case woken_none
  then show ?thesis by (auto simp flip: num_pos)
qed (auto simp: num_wake_readers)

lemma rw_step_inv: "rw_step (l, ts) (l', ts') \<Longrightarrow> rw_inv l ts \<Longrightarrow> rw_inv l' ts'"
proof (induction "(l, ts)" "(l', ts')" rule: rw_step.induct)
  case (s_rdunlock i w)
  have p: "0 < num Reading ts" using num_at [OF s_rdunlock(1)] s_rdunlock(2) by simp
  have l: "\<not> w_active l" "r_active l = num Reading ts" "num RWait ts = 0" "num Writing ts = 0"
    using s_rdunlock(5) p by (auto simp: rw_inv_def)
  define us where "us = ts[i := Idle]"
  have us0: "num Reading us = num Reading ts - 1"
    using s_rdunlock(1,2) by (simp add: us_def num_update)
  have us: "num t us = num t ts" if "t \<noteq> Reading" "t \<noteq> Idle" for t
    using s_rdunlock(1,2) that by (simp add: us_def num_update)
  show ?case
  proof (cases "num Reading ts = 1 \<and> 0 < w_wait l")
    case True
    then have w: "w = Signal_write" "l' = l\<lparr>r_active := 0\<rparr>"
      using s_rdunlock(3) l by (auto simp: rwl_rdunlock_def Let_def)
    note wk = woken_num [OF s_rdunlock(4), folded us_def, unfolded w(1), simplified]
    show ?thesis using wk us0 us l True s_rdunlock(5) by (auto simp: w(2) rw_inv_def)
  next
    case False
    then have w: "w = Nobody" "l' = l\<lparr>r_active := num Reading ts - 1\<rparr>"
      using s_rdunlock(3) l p by (auto simp: rwl_rdunlock_def Let_def)
    note wk = woken_num [OF s_rdunlock(4), folded us_def, unfolded w(1), simplified]
    show ?thesis using wk us0 us l False p s_rdunlock(5) by (auto simp: w(2) rw_inv_def)
  qed
next
  case (s_wrunlock i w)
  have p: "0 < num Writing ts" using num_at [OF s_wrunlock(1)] s_wrunlock(2) by simp
  have l: "w_active l" "num Writing ts = 1" "r_active l = 0" "num Reading ts = 0"
    using s_wrunlock(5) p by (auto simp: rw_inv_def split: if_splits)
  define us where "us = ts[i := Idle]"
  have us0: "num Writing us = 0"
    using s_wrunlock(1,2) l(2) by (simp add: us_def num_update)
  have us: "num t us = num t ts" if "t \<noteq> Writing" "t \<noteq> Idle" for t
    using s_wrunlock(1,2) that by (simp add: us_def num_update)
  have l': "l' = l\<lparr>w_active := False\<rparr>"
    "w = (if r_wait l > 0 then Broadcast_read else if w_wait l > 0 then Signal_write else Nobody)"
    using s_wrunlock(3) by (auto simp: rwl_wrunlock_def Let_def)
  note wk = woken_num [OF s_wrunlock(4), folded us_def]
  show ?case
  proof (cases "r_wait l > 0")
    case True
    then show ?thesis using wk us0 us l l' s_wrunlock(5) by (simp add: rw_inv_def)
  next
    case False
    then show ?thesis using wk us0 us l l' s_wrunlock(5) by (cases "w_wait l > 0") (simp add: rw_inv_def, linarith?)+
  qed
next
  case (s_rdlock_got i)
  then show ?case using num_at [of i ts] by (auto simp: rw_op_defs rw_inv_def num_update split: if_splits)
next
  case (s_rdlock_wait i)
  then show ?case using num_at [of i ts] by (auto simp: rw_op_defs rw_inv_def num_update split: if_splits)
next
  case (s_rdtry i)
  then show ?case using num_at [of i ts] by (auto simp: rw_op_defs rw_inv_def num_update split: if_splits)
next
  case (s_rdwoken_got i)
  then show ?case using num_at [of i ts] by (auto simp: rw_op_defs rw_inv_def num_update split: if_splits)
next
  case (s_rdwoken_wait i)
  then show ?case using num_at [of i ts] by (auto simp: rw_op_defs rw_inv_def num_update split: if_splits)
next
  case (s_rdspurious i)
  then show ?case using num_at [of i ts] by (auto simp: rw_op_defs rw_inv_def num_update split: if_splits)
next
  case (s_rdcancel i)
  then show ?case using num_at [of i ts] by (auto simp: rw_op_defs rw_inv_def num_update split: if_splits)
next
  case (s_wrlock_got i)
  then show ?case using num_at [of i ts] by (auto simp: rw_op_defs rw_inv_def num_update split: if_splits)
next
  case (s_wrlock_wait i)
  then show ?case using num_at [of i ts] by (auto simp: rw_op_defs rw_inv_def num_update split: if_splits)
next
  case (s_wrtry i)
  then show ?case using num_at [of i ts] by (auto simp: rw_op_defs rw_inv_def num_update split: if_splits)
next
  case (s_wrwoken_got i)
  then show ?case using num_at [of i ts] by (auto simp: rw_op_defs rw_inv_def num_update split: if_splits)
next
  case (s_wrwoken_wait i)
  then show ?case using num_at [of i ts] by (auto simp: rw_op_defs rw_inv_def num_update split: if_splits)
next
  case (s_wrspurious i)
  then show ?case using num_at [of i ts] by (auto simp: rw_op_defs rw_inv_def num_update split: if_splits)
next
  case (s_wrcancel i)
  then show ?case using num_at [of i ts] by (auto simp: rw_op_defs rw_inv_def num_update split: if_splits)
qed

lemma rw_reach_inv: "rw_reach s \<Longrightarrow> rw_inv (fst s) (snd s)"
proof (induction rule: rw_reach.induct)
  case (rw_start n)
  show ?case by (simp add: rw_inv_def rwl_init_def num_replicate_Idle)
next
  case (rw_next s s')
  then show ?case
    using rw_step_inv [of "fst s" "snd s" "fst s'" "snd s'"] by simp
qed

section \<open>Properties\<close>

lemma num_two: "i < j \<Longrightarrow> j < length ts \<Longrightarrow> ts ! i = t \<Longrightarrow> ts ! j = t \<Longrightarrow> 2 \<le> num t ts"
proof (induction ts arbitrary: i j)
  case (Cons a ts)
  show ?case
  proof (cases i)
    case 0
    then have "0 < num t ts" using Cons.prems by (cases j) (auto simp: num_pos)
    then show ?thesis using 0 Cons.prems by (simp add: num_Cons)
  next
    case (Suc k)
    then obtain m where "j = Suc m" using Cons.prems by (cases j) auto
    then have "2 \<le> num t ts" using Suc Cons.prems by (intro Cons.IH [of k m]) auto
    then show ?thesis by (simp add: num_Cons)
  qed
qed simp

text \<open>C19. The lock excludes: in every reachable state a thread that holds it for writing is the
  only one that holds it at all.\<close>

theorem rw_exclusion:
  assumes "rw_reach (l, ts)" "i < length ts" "j < length ts" "ts ! i = Writing" "ts ! j \<in> {Reading, Writing}"
  shows "i = j"
proof (rule ccontr)
  assume ne: "i \<noteq> j"
  have inv: "rw_inv l ts" using rw_reach_inv [OF assms(1)] by simp
  have w: "0 < num Writing ts" using num_at [OF assms(2)] assms(4) by simp
  then have one: "num Writing ts = 1" and r: "num Reading ts = 0"
    using inv by (auto simp: rw_inv_def split: if_splits)
  have "ts ! j = Writing" using assms(3,5) r num_at [of j ts] by auto
  then have "2 \<le> num Writing ts"
    using ne assms(2-4) num_two [of i j ts Writing] num_two [of j i ts Writing] by (cases "i < j") auto
  then show False using one by simp
qed

lemma reach_write: "rw_reach (rwl_init\<lparr>w_active := True\<rparr>, [Writing, Idle, Idle])"
proof -
  have "rw_step (rwl_init, replicate 3 Idle) (rwl_init\<lparr>w_active := True\<rparr>, (replicate 3 Idle)[0 := Writing])"
    by (rule rw_step.s_wrlock_got) (simp_all add: rwl_wrlock_def rwl_init_def)
  from rw_next [OF rw_start this] show ?thesis by (simp add: numeral_3_eq_3)
qed

lemma reach_wait: "rw_reach (rwl_init\<lparr>w_active := True, r_wait := 1\<rparr>, [Writing, RWait, Idle])"
proof -
  have "rw_step (rwl_init\<lparr>w_active := True\<rparr>, [Writing, Idle, Idle])
      (rwl_init\<lparr>w_active := True, r_wait := 1\<rparr>, [Writing, Idle, Idle][1 := RWait])"
    by (rule rw_step.s_rdlock_wait) (simp_all add: rwl_rdlock_def rwl_init_def)
  from rw_next [OF reach_write this] show ?thesis by simp
qed

theorem rw_exclusion_witness:
  "rw_reach (rwl_init\<lparr>w_active := True, r_wait := 1\<rparr>, [Writing, RWait, Idle])
    \<and> {j. j < 3 \<and> [Writing, RWait, Idle] ! j \<in> {Reading, Writing}} = {0}"
  using reach_wait rw_exclusion [OF reach_wait, of 0] by (auto simp: numeral_3_eq_3)

text \<open>C20. No wake-up is lost: whenever a thread sleeps on the lock while nobody holds it, some
  thread has been woken and takes the lock with its next step.\<close>

theorem rw_no_lost_wakeup:
  assumes "rw_reach (l, ts)" "RWait \<in> set ts \<or> WWait \<in> set ts" "Reading \<notin> set ts" "Writing \<notin> set ts"
  shows "\<exists>i l1 t. i < length ts \<and> ts ! i \<in> {RWoken, WWoken} \<and> t \<in> {Reading, Writing}
    \<and> rw_step (l, ts) (l1, ts[i := t])"
proof -
  have inv: "rw_inv l ts" using rw_reach_inv [OF assms(1)] by simp
  have z: "num Reading ts = 0" "num Writing ts = 0" using assms(3,4) num_pos [of Reading ts] num_pos [of Writing ts] by auto
  then have na: "\<not> w_active l" "r_active l = 0" using inv by (auto simp: rw_inv_def split: if_splits)
  have "RWoken \<in> set ts \<or> WWoken \<in> set ts"
    using inv na assms(2) by (auto simp: rw_inv_def num_pos)
  then show ?thesis
  proof
    assume "RWoken \<in> set ts"
    then obtain i where i: "i < length ts" "ts ! i = RWoken" by (auto simp: in_set_conv_nth)
    have "rwl_rdlock_woken l = Got (l\<lparr>r_wait := r_wait l - 1, r_active := r_active l + 1\<rparr>)"
      using na by (simp add: rwl_rdlock_woken_def)
    then show ?thesis using i rw_step.s_rdwoken_got [OF i] by blast
  next
    assume "WWoken \<in> set ts"
    then obtain i where i: "i < length ts" "ts ! i = WWoken" by (auto simp: in_set_conv_nth)
    have "rwl_wrlock_woken l = Got (l\<lparr>w_wait := w_wait l - 1, w_active := True\<rparr>)"
      using na by (simp add: rwl_wrlock_woken_def)
    then show ?thesis using i rw_step.s_wrwoken_got [OF i] by blast
  qed
qed

lemma reach_woken:
  "rw_reach (rwl_init\<lparr>r_wait := 1, w_wait := 1\<rparr>, [Idle, RWoken, WWait])"
proof -
  have 1: "rw_step (rwl_init\<lparr>w_active := True\<rparr>, [Writing, Idle, Idle])
     (rwl_init\<lparr>w_active := True, r_wait := 1\<rparr>, [Writing, Idle, Idle][1 := RWait])"
    by (rule rw_step.s_rdlock_wait) (simp_all add: rwl_rdlock_def rwl_init_def)
  have 2: "rw_step (rwl_init\<lparr>w_active := True, r_wait := 1\<rparr>, [Writing, RWait, Idle])
     (rwl_init\<lparr>w_active := True, r_wait := 1, w_wait := 1\<rparr>, [Writing, RWait, Idle][2 := WWait])"
    by (rule rw_step.s_wrlock_wait) (simp_all add: rwl_wrlock_def rwl_init_def)
  have 3: "rw_step (rwl_init\<lparr>w_active := True, r_wait := 1, w_wait := 1\<rparr>, [Writing, RWait, WWait])
     (rwl_init\<lparr>r_wait := 1, w_wait := 1\<rparr>, [Idle, RWoken, WWait])"
    by (rule rw_step.s_wrunlock [of 0 _ _ _ Broadcast_read])
      (simp_all add: rwl_wrunlock_def rwl_init_def wake_readers_def)
  have "rw_reach (rwl_init\<lparr>w_active := True, r_wait := 1\<rparr>, [Writing, RWait, Idle])"
    using rw_next [OF reach_write 1] by simp
  from rw_next [OF this 2] have "rw_reach (rwl_init\<lparr>w_active := True, r_wait := 1, w_wait := 1\<rparr>, [Writing, RWait, WWait])"
    by (simp add: numeral_2_eq_2)
  from rw_next [OF this 3] show ?thesis .
qed

theorem rw_no_lost_wakeup_witness:
  "\<exists>i l1 t. i < 3 \<and> t \<in> {Reading, Writing}
    \<and> rw_step (rwl_init\<lparr>r_wait := 1, w_wait := 1\<rparr>, [Idle, RWoken, WWait]) (l1, [Idle, RWoken, WWait][i := t])"
proof -
  have "\<exists>i l1 t. i < length [Idle, RWoken, WWait] \<and> [Idle, RWoken, WWait] ! i \<in> {RWoken, WWoken} \<and> t \<in> {Reading, Writing}
    \<and> rw_step (rwl_init\<lparr>r_wait := 1, w_wait := 1\<rparr>, [Idle, RWoken, WWait]) (l1, [Idle, RWoken, WWait][i := t])"
    by (rule rw_no_lost_wakeup [OF reach_woken]) simp_all
  then obtain i l1 t where "i < 3" "t \<in> {Reading, Writing}"
    "rw_step (rwl_init\<lparr>r_wait := 1, w_wait := 1\<rparr>, [Idle, RWoken, WWait]) (l1, [Idle, RWoken, WWait][i := t])"
    by (auto simp: numeral_3_eq_3)
  then show ?thesis by blast
qed

end
