(* ===== verification/Hlog.thy ===== *)
theory Hlog
  imports Rwlock Cstrings
begin

section \<open>Logging (\<open>hlog.c\<close>, \<open>hlog.h\<close>)\<close>

text \<open>
  The logger: names of levels and destinations, the bounded formatting of a message, the
  write to a file, and the opening and closing of the two logs with their locks. Messages
  come formatted (\<open>vsnprintf\<close> without its limit); the clock, process and thread numbers and
  the results of \<open>open\<close> are arguments.
\<close>

definition LOG_LEN :: nat where "LOG_LEN = 8192"

definition L_STDERR :: int where "L_STDERR = 1"
definition L_SYSLOG :: int where "L_SYSLOG = 2"
definition L_FILE :: int where "L_FILE = 3"
definition LOG_INFO :: int where "LOG_INFO = 6"

definition log_basename :: string where "log_basename = ''gnuais.log''"
definition accesslog_basename :: string where "accesslog_basename = ''gnuais.access.log''"

definition log_levelnames :: "string list" where
  "log_levelnames = [''EMERG'', ''ALERT'', ''CRIT'', ''ERR'', ''WARNING'', ''NOTICE'', ''INFO'', ''DEBUG'']"

definition log_destnames :: "string list" where
  "log_destnames = [''none'', ''stderr'', ''syslog'', ''file'']"

definition str_append :: "string option \<Rightarrow> string \<Rightarrow> string" where
  "str_append s txt = (case s of None \<Rightarrow> [] | Some s0 \<Rightarrow> s0) @ take (LOG_LEN - 1) txt"

fun pick_from :: "string \<Rightarrow> string list \<Rightarrow> int \<Rightarrow> int" where
  "pick_from s [] i = - 1"
| "pick_from s (n # ns) i = (if strcasecmp_eq s n then i else pick_from s ns (i + 1))"

definition pick_loglevel :: "string \<Rightarrow> string list \<Rightarrow> int" where
  "pick_loglevel s names = pick_from s names 0"

subsection \<open>One message\<close>

record logger =
  log_dest :: int
  log_level :: int
  log_name :: "string option"
  log_dir :: "string option"
  log_fname :: "string option"
  log_file :: int
  log_file_lock :: rwlock

definition logger_init :: logger where
  "logger_init = \<lparr>log_dest = L_STDERR, log_level = LOG_INFO, log_name = None, log_dir = None,
     log_fname = None, log_file = - 1, log_file_lock = rwl_init\<rparr>"

text \<open>\<open>%4d\<close> pads with spaces.\<close>

definition padsp :: "nat \<Rightarrow> nat \<Rightarrow> string" where
  "padsp w n = replicate (w - length (dec_nat n)) (CHR '' '') @ dec_nat n"

definition log_line :: "tod \<Rightarrow> nat \<Rightarrow> nat \<Rightarrow> string option \<Rightarrow> int \<Rightarrow> string \<Rightarrow> string" where
  "log_line tv pid thread name priority s =
     padsp 4 (tm_year tv + 1900) @ ''/'' @ pad0 2 (tm_mon tv + 1) @ ''/'' @ pad0 2 (tm_mday tv) @ '' ''
     @ pad0 2 (tm_hour tv) @ '':'' @ pad0 2 (tm_min tv) @ '':'' @ pad0 2 (tm_sec tv) @ ''.'' @ pad0 6 (tv_usec tv) @ '' ''
     @ (case name of Some n \<Rightarrow> n | None \<Rightarrow> ''gnuais'') @ ''['' @ dec_nat pid @ '':'' @ dec_nat thread @ ''] ''
     @ log_levelnames ! nat priority @ '': '' @ s @ [CHR 0x0A]"

text \<open>
  \<open>len = snprintf(wb, LOG_LEN, ...); wb[LOG_LEN-1] = 0; write(log_file, wb, len)\<close>: \<open>len\<close>
  is the length the text would have had, not that of the buffer.
\<close>

definition write_line :: "string \<Rightarrow> string res" where
  "write_line txt =
     (let wb = take (LOG_LEN - 1) txt; len = length txt in
      if len \<le> length wb then Inr (take len wb)
      else if len = LOG_LEN then Inr (wb @ [CHR 0x00])
      else Inl Out_of_bounds)"

datatype log_out = Nothing | To_stderr string | To_file string | To_syslog int string

definition hlog :: "tod \<Rightarrow> nat \<Rightarrow> nat \<Rightarrow> logger \<Rightarrow> int \<Rightarrow> string \<Rightarrow> (int \<times> log_out) res" where
  "hlog tv pid thread g priority0 msg =
     (let priority = (if priority0 > 7 then 7 else if priority0 < 0 then 0 else priority0) in
      if priority > log_level g then Inr (0, Nothing)
      else
        let s = take (LOG_LEN - 1) msg in
        if log_dest g = L_STDERR then Inr (1, To_stderr (log_line tv pid thread (log_name g) priority s))
        else if log_dest g = L_FILE \<and> log_file g \<ge> 0
        then res_bind (write_line (log_line tv pid thread (log_name g) priority s)) (\<lambda>t. Inr (1, To_file t))
        else if log_dest g = L_SYSLOG
        then Inr (1, To_syslog priority (log_levelnames ! nat priority @ '': '' @ s))
        else Inr (1, Nothing))"

subsection \<open>Opening and closing\<close>

text \<open>The logger ends the program when it cannot go on; a lock it already holds blocks it.\<close>

datatype stop = Exits int | Blocks | Crashes

definition wrlock :: "rwlock \<Rightarrow> stop + rwlock" where
  "wrlock l = (case rwl_wrlock l of Got l1 \<Rightarrow> Inr l1 | Wait l1 \<Rightarrow> Inl Blocks | Fail e \<Rightarrow> Inr l)"

definition open_log :: "int \<Rightarrow> string \<Rightarrow> bool \<Rightarrow> logger \<Rightarrow> stop + logger" where
  "open_log fd name reopen g =
     (case (if reopen then Inr (log_file_lock g) else wrlock (log_file_lock g)) of
        Inl e \<Rightarrow> Inl e
      | Inr lk \<Rightarrow>
          let g1 = g\<lparr>log_file_lock := lk, log_name := Some name\<rparr> in
          if log_dest g = L_FILE then
            (case log_dir g of
               None \<Rightarrow> Inl Crashes
             | Some d \<Rightarrow>
                 let g2 = g1\<lparr>log_fname := Some (d @ ''/'' @ log_basename), log_file := fd\<rparr> in
                 if fd < 0 then Inl (Exits 1)
                 else Inr (g2\<lparr>log_file_lock := fst (rwl_wrunlock lk)\<rparr>))
          else Inr (g1\<lparr>log_file_lock := fst (rwl_wrunlock lk)\<rparr>))"

definition close_log :: "int \<Rightarrow> bool \<Rightarrow> logger \<Rightarrow> stop + logger" where
  "close_log fd reopen g =
     (case log_name g of
        None \<Rightarrow> Inl Crashes
      | Some s \<Rightarrow>
          (case wrlock (log_file_lock g) of
             Inl e \<Rightarrow> Inl e
           | Inr lk \<Rightarrow>
               let g1 = g\<lparr>log_file_lock := lk, log_name := None\<rparr>;
                   g2 = (if log_dest g \<noteq> L_SYSLOG \<and> log_dest g = L_FILE
                         then g1\<lparr>log_file := - 1, log_fname := None\<rparr> else g1)
               in if reopen then open_log fd s True g2
                  else Inr (g2\<lparr>log_file_lock := fst (rwl_wrunlock lk)\<rparr>)))"

text \<open>\<open>writepid\<close>, with what \<open>fopen\<close>, \<open>fprintf\<close> and \<open>fclose\<close> answer: the text printed and the result.\<close>

record pid_io =
  pid_fopen :: bool
  pid_fprintf :: int
  pid_fclose :: int

definition writepid :: "pid_io \<Rightarrow> nat \<Rightarrow> string option \<times> int" where
  "writepid io pid =
     (if \<not> pid_fopen io then (None, 0)
      else if pid_fprintf io < 0 then (None, 0)
      else if pid_fclose io \<noteq> 0 then (Some (dec_nat pid @ [CHR 0x0A]), 0)
      else (Some (dec_nat pid @ [CHR 0x0A]), 1))"

lemma writepid_ok: "snd (writepid io pid) \<noteq> 0 \<longleftrightarrow> pid_fopen io \<and> 0 \<le> pid_fprintf io \<and> pid_fclose io = 0"
  by (simp add: writepid_def)

record accesslogger =
  accesslog_dir :: "string option"
  accesslog_fname :: "string option"
  accesslog_file :: int
  accesslog_lock :: rwlock

definition accesslog_open :: "int \<Rightarrow> string \<Rightarrow> bool \<Rightarrow> accesslogger \<Rightarrow> stop + (accesslogger \<times> int)" where
  "accesslog_open fd logd reopen a =
     (case (if reopen then Inr (accesslog_lock a) else wrlock (accesslog_lock a)) of
        Inl e \<Rightarrow> Inl e
      | Inr lk \<Rightarrow>
          Inr (a\<lparr>accesslog_dir := Some logd, accesslog_fname := Some (logd @ ''/'' @ accesslog_basename),
                 accesslog_file := fd, accesslog_lock := fst (rwl_wrunlock lk)\<rparr>, fd))"

definition accesslog_close :: "int \<Rightarrow> string option \<Rightarrow> accesslogger \<Rightarrow> stop + (accesslogger \<times> int)" where
  "accesslog_close fd reopenpath a =
     (case wrlock (accesslog_lock a) of
        Inl e \<Rightarrow> Inl e
      | Inr lk \<Rightarrow>
          let a1 = a\<lparr>accesslog_lock := lk, accesslog_fname := None, accesslog_dir := None, accesslog_file := - 1\<rparr>
          in case reopenpath of
               Some p \<Rightarrow> accesslog_open fd p True a1
             | None \<Rightarrow> Inr (a1\<lparr>accesslog_lock := fst (rwl_wrunlock lk)\<rparr>, 0))"

text \<open>What is written, and whether the loss of lines is reported (once).\<close>

definition accesslog :: "tod \<Rightarrow> accesslogger \<Rightarrow> string \<Rightarrow> (accesslogger \<times> string option \<times> bool) res" where
  "accesslog tv a msg =
     (let s = take (LOG_LEN - 1) msg;
          txt = ''['' @ pad0 4 (tm_year tv + 1900) @ ''/'' @ pad0 2 (tm_mon tv + 1) @ ''/'' @ pad0 2 (tm_mday tv) @ '' ''
                @ pad0 2 (tm_hour tv) @ '':'' @ pad0 2 (tm_min tv) @ '':'' @ pad0 2 (tm_sec tv) @ ''] '' @ s @ [CHR 0x0A]
      in if accesslog_file a \<ge> 0 then res_bind (write_line txt) (\<lambda>t. Inr (a, Some t, False))
         else if accesslog_file a \<noteq> - 666 then Inr (a\<lparr>accesslog_file := - 666\<rparr>, None, True)
         else Inr (a, None, False))"

subsection \<open>Lemmas\<close>

lemma pick_from_cases:
  "(\<exists>k<length ns. pick_from s ns i = i + int k \<and> strcasecmp_eq s (ns ! k) \<and> (\<forall>j<k. \<not> strcasecmp_eq s (ns ! j)))
   \<or> pick_from s ns i = - 1 \<and> (\<forall>n\<in>set ns. \<not> strcasecmp_eq s n)"
proof (induction ns arbitrary: i)
  case (Cons n ns)
  show ?case
  proof (cases "strcasecmp_eq s n")
    case True
    then show ?thesis by (intro disjI1 exI [of _ 0]) simp
  next
    case False
    from Cons.IH [of "i + 1"] show ?thesis
    proof (elim disjE exE conjE)
      fix k assume "k < length ns" "pick_from s ns (i + 1) = i + 1 + int k" "strcasecmp_eq s (ns ! k)"
        "\<forall>j<k. \<not> strcasecmp_eq s (ns ! j)"
      then show ?thesis using False
        by (intro disjI1 exI [of _ "Suc k"]) (auto simp: less_Suc_eq_0_disj)
    qed (use False in simp)
  qed
qed simp

lemma pick_destnames:
  "pick_loglevel ''stderr'' log_destnames = L_STDERR" "pick_loglevel ''SYSLOG'' log_destnames = L_SYSLOG"
  "pick_loglevel ''File'' log_destnames = L_FILE"
  by code_simp+

lemma write_line_ok: "length txt < LOG_LEN \<Longrightarrow> write_line txt = Inr txt"
  by (simp add: write_line_def)

lemma write_line_over: "LOG_LEN < length txt \<Longrightarrow> write_line txt = Inl Out_of_bounds"
  by (simp add: write_line_def LOG_LEN_def)

lemma wrunlock_wrlock: "rwl_wrlock l = Got l1 \<Longrightarrow> fst (rwl_wrunlock l1) = l"
  by (cases l) (auto simp: rwl_wrlock_def rwl_wrunlock_def Let_def split: if_splits)

text \<open>A closed lock is free again after every operation that returns.\<close>

lemma open_log_lock: "open_log fd name False g = Inr g1 \<Longrightarrow> valid (log_file_lock g) \<Longrightarrow> log_file_lock g1 = log_file_lock g"
  by (auto simp: open_log_def wrlock_def Let_def rwl_wrlock_def rwl_wrunlock_def split: sum.splits outcome.splits if_splits option.splits)

lemma close_log_lock: "close_log fd reopen g = Inr g1 \<Longrightarrow> valid (log_file_lock g) \<Longrightarrow> log_file_lock g1 = log_file_lock g"
  by (auto simp: close_log_def open_log_def wrlock_def Let_def rwl_wrlock_def rwl_wrunlock_def
      split: sum.splits outcome.splits if_splits option.splits)

section \<open>Properties\<close>

lemma log_line_length: "length s + 2 \<le> length (log_line tv pid thread name priority s)"
  by (simp add: log_line_def)

text \<open>C25. A message that reaches the log file is written whole when its line fits the buffer; a
  message of \<open>LOG_LEN - 1\<close> characters or more makes the logger write from behind the buffer,
  because the length \<open>snprintf\<close> returns is not that of what it stored.\<close>

theorem hlog_file_line:
  assumes "log_dest g = L_FILE" "0 \<le> log_file g" "0 \<le> priority" "priority \<le> 7" "priority \<le> log_level g"
  shows "(length (log_line tv pid thread (log_name g) priority msg) < LOG_LEN \<longrightarrow>
      hlog tv pid thread g priority msg = Inr (1, To_file (log_line tv pid thread (log_name g) priority msg)))
    \<and> (LOG_LEN - 1 \<le> length msg \<longrightarrow> hlog tv pid thread g priority msg = Inl Out_of_bounds)"
proof -
  have h: "hlog tv pid thread g priority msg = res_bind
      (write_line (log_line tv pid thread (log_name g) priority (take (LOG_LEN - 1) msg))) (\<lambda>t. Inr (1, To_file t))"
    using assms by (simp add: hlog_def Let_def L_FILE_def L_STDERR_def)
  have "hlog tv pid thread g priority msg = Inr (1, To_file (log_line tv pid thread (log_name g) priority msg))"
    if l: "length (log_line tv pid thread (log_name g) priority msg) < LOG_LEN"
  proof -
    have "length msg \<le> LOG_LEN - 1"
      using l log_line_length [of msg tv pid thread "log_name g" priority] by linarith
    then show ?thesis using l by (simp add: h write_line_ok)
  qed
  moreover have "hlog tv pid thread g priority msg = Inl Out_of_bounds" if "LOG_LEN - 1 \<le> length msg"
  proof -
    have "length (take (LOG_LEN - 1) msg) = LOG_LEN - 1" using that by simp
    then have "LOG_LEN < length (log_line tv pid thread (log_name g) priority (take (LOG_LEN - 1) msg))"
      using log_line_length [of "take (LOG_LEN - 1) msg" tv pid thread "log_name g" priority] by (simp add: LOG_LEN_def)
    then show ?thesis by (simp add: h write_line_over)
  qed
  ultimately show ?thesis by blast
qed

definition file_logger :: logger where
  "file_logger = logger_init\<lparr>log_dest := L_FILE, log_file := 3\<rparr>"

theorem hlog_file_line_witness:
  "hlog \<lparr>tm_year = 113, tm_mon = 0, tm_mday = 2, tm_hour = 3, tm_min = 4, tm_sec = 5, tv_usec = 6\<rparr> 1 2 file_logger 5
     (replicate 9000 (CHR ''x'')) = Inl Out_of_bounds"
  using hlog_file_line [of file_logger 5 "\<lparr>tm_year = 113, tm_mon = 0, tm_mday = 2, tm_hour = 3, tm_min = 4, tm_sec = 5, tv_usec = 6\<rparr>"
      1 2 "replicate 9000 (CHR ''x'')"]
  by (simp add: file_logger_def logger_init_def L_FILE_def LOG_INFO_def LOG_LEN_def)

end
