(* ===== verification/Cfg.thy ===== *)
theory Cfg
  imports Cfgfile Hlog Out_json
begin

section \<open>The configuration (\<open>cfg.c\<close>, \<open>cfg.h\<close>)\<close>

text \<open>
  The variables the configuration sets, the directives, the checks after reading the file,
  and the command line. The list of uplinks is a list in the order of the \<open>next\<close> pointers;
  the back pointers \<open>prevp\<close> are never read.
\<close>

subsection \<open>Variables\<close>

record uplink_config_t =
  u_proto :: int
  u_name :: string
  u_url :: string

record config =
  cfgfile :: string
  pidfile :: "string option"
  logdir :: "string option"
  fpdir :: "string option"
  logname :: string
  sound_device :: "string option"
  sound_in_file :: "string option"
  sound_out_file :: "string option"
  sound_channels :: int
  sound_levellog :: int
  fork_a_daemon :: bool
  stats_interval :: int
  expiry_interval :: int
  uplink_config :: "uplink_config_t list"
  new_uplink_config :: "uplink_config_t list"

definition SOUND_CHANNELS_MONO :: int where "SOUND_CHANNELS_MONO = 1"
definition SOUND_CHANNELS_BOTH :: int where "SOUND_CHANNELS_BOTH = 2"
definition SOUND_CHANNELS_LEFT :: int where "SOUND_CHANNELS_LEFT = 3"
definition SOUND_CHANNELS_RIGHT :: int where "SOUND_CHANNELS_RIGHT = 4"

lemmas sound_channels_defs = SOUND_CHANNELS_MONO_def SOUND_CHANNELS_BOTH_def SOUND_CHANNELS_LEFT_def
  SOUND_CHANNELS_RIGHT_def

definition def_sound_device :: string where "def_sound_device = ''default''"

text \<open>\<open>PROGNAME\<close> comes from the generated \<open>config.h\<close>.\<close>

definition config_init :: "string \<Rightarrow> config" where
  "config_init progname = \<lparr>cfgfile = progname @ ''.conf'', pidfile = None, logdir = None, fpdir = None,
     logname = progname, sound_device = None, sound_in_file = None, sound_out_file = None,
     sound_channels = SOUND_CHANNELS_MONO, sound_levellog = 0, fork_a_daemon = False,
     stats_interval = 0, expiry_interval = 0, uplink_config = [], new_uplink_config = []\<rparr>"

subsection \<open>Intervals\<close>

text \<open>
  \<open>np\<close> is the text since the last unit letter, \<open>t\<close> the sum so far. The products are
  \<open>int\<close>s, the sum is a \<open>time_t\<close>.
\<close>

definition int_mult :: "int \<Rightarrow> int \<Rightarrow> int" where
  "int_mult a b = sint (word_of_int (a * b) :: u32)"

definition unit_value :: "char \<Rightarrow> int \<Rightarrow> int" where
  "unit_value c i =
     (if c = CHR ''s'' then i
      else if c = CHR ''m'' then int_mult 60 i
      else if c = CHR ''h'' then int_mult (60 * 60) i
      else if c = CHR ''d'' then int_mult (24 * 60 * 60) i
      else 0)"

fun parse_interval_from :: "string \<Rightarrow> string \<Rightarrow> int \<Rightarrow> int" where
  "parse_interval_from np [] t = (if np \<noteq> [] then t + c_atoi np else t)"
| "parse_interval_from np (c # p) t =
     (if \<not> c_isdigit c then parse_interval_from [] p (t + unit_value (c_tolower c) (c_atoi np))
      else parse_interval_from (np @ [c]) p t)"

definition parse_interval :: "string \<Rightarrow> int" where
  "parse_interval origs = parse_interval_from [] origs 0"

definition do_interval :: "int \<Rightarrow> string list \<Rightarrow> int \<times> int" where
  "do_interval dest argv =
     (if length argv < 2 then (dest, - 1) else (sint (word_of_int (parse_interval (argv ! 1)) :: u32), 0))"

subsection \<open>Other directives\<close>

definition do_sound_ch :: "int \<Rightarrow> string list \<Rightarrow> int \<times> int" where
  "do_sound_ch dest argv =
     (if length argv < 2 then (dest, - 1)
      else if strcasecmp_eq (argv ! 1) ''mono'' then (SOUND_CHANNELS_MONO, 0)
      else if strcasecmp_eq (argv ! 1) ''both'' then (SOUND_CHANNELS_BOTH, 0)
      else if strcasecmp_eq (argv ! 1) ''left'' then (SOUND_CHANNELS_LEFT, 0)
      else if strcasecmp_eq (argv ! 1) ''right'' then (SOUND_CHANNELS_RIGHT, 0)
      else (dest, - 1))"

text \<open>\<open>argv[argc]\<close> is the null pointer, and \<open>hstrdup\<close> takes its length.\<close>

definition do_uplink :: "uplink_config_t list \<Rightarrow> string list \<Rightarrow> (uplink_config_t list \<times> int) res" where
  "do_uplink lq argv =
     (if length argv < 3 then Inr (lq, - 1)
      else if \<not> strcasecmp_eq (argv ! 2) ''json'' then Inr (lq, - 2)
      else if length argv = 3 then Inl Null_pointer
      else Inr (\<lparr>u_proto = UPLINK_JSON, u_name = argv ! 1, u_url = argv ! 3\<rparr> # lq, 0))"

definition strupr :: "string \<Rightarrow> string" where
  "strupr s = map c_toupper s"

fun free_uplink_config :: "uplink_config_t list \<Rightarrow> uplink_config_t list" where
  "free_uplink_config [] = []"
| "free_uplink_config (u # us) = free_uplink_config us"

text \<open>The command table.\<close>

definition cfg_cmds :: "config command list" where
  "cfg_cmds =
     [(''logdir'', \<lambda>a c. let (v, r) = do_string (logdir c) a in Inr (c\<lparr>logdir := v\<rparr>, r)),
      (''fingerprints'', \<lambda>a c. let (v, r) = do_string (fpdir c) a in Inr (c\<lparr>fpdir := v\<rparr>, r)),
      (''statsinterval'', \<lambda>a c. let (v, r) = do_interval (stats_interval c) a in Inr (c\<lparr>stats_interval := v\<rparr>, r)),
      (''expiryinterval'', \<lambda>a c. let (v, r) = do_interval (expiry_interval c) a in Inr (c\<lparr>expiry_interval := v\<rparr>, r)),
      (''uplink'', \<lambda>a c. res_bind (do_uplink (new_uplink_config c) a) (\<lambda>(v, r). Inr (c\<lparr>new_uplink_config := v\<rparr>, r))),
      (''sounddevice'', \<lambda>a c. let (v, r) = do_string (sound_device c) a in Inr (c\<lparr>sound_device := v\<rparr>, r)),
      (''soundinfile'', \<lambda>a c. let (v, r) = do_string (sound_in_file c) a in Inr (c\<lparr>sound_in_file := v\<rparr>, r)),
      (''soundoutfile'', \<lambda>a c. let (v, r) = do_string (sound_out_file c) a in Inr (c\<lparr>sound_out_file := v\<rparr>, r)),
      (''soundchannels'', \<lambda>a c. let (v, r) = do_sound_ch (sound_channels c) a in Inr (c\<lparr>sound_channels := v\<rparr>, r)),
      (''soundlevellog'', \<lambda>a c. let (v, r) = do_int (sound_levellog c) a in Inr (c\<lparr>sound_levellog := v\<rparr>, r))]"

subsection \<open>Reading the configuration\<close>

text \<open>The bytes allocated for the name of the pid file, and what \<open>sprintf\<close> puts there.\<close>

definition pidfile_alloc :: "string \<Rightarrow> string \<Rightarrow> nat" where
  "pidfile_alloc dir name = length dir + 1 + length name + 3 + 2"

definition pidfile_name :: "string \<Rightarrow> string \<Rightarrow> string" where
  "pidfile_name dir name = dir @ ''/'' @ name @ ''.pid''"

text \<open>What \<open>read_config\<close> does after the file has been read; \<open>ldir\<close> is the logger's \<open>log_dir\<close>.\<close>

definition apply_defaults :: "string option \<Rightarrow> config \<Rightarrow> config" where
  "apply_defaults ldir c0 =
     (let c1 = (case ldir of
                  Some d \<Rightarrow> c0\<lparr>logdir := Some d\<rparr>
                | None \<Rightarrow> if logdir c0 = None then c0\<lparr>logdir := Some ''.''\<rparr> else c0);
          c2 = (if sound_in_file c1 = None \<and> sound_device c1 = None
                then c1\<lparr>sound_device := Some def_sound_device\<rparr> else c1);
          c3 = (if sound_in_file c2 \<noteq> None \<and> sound_device c2 \<noteq> None
                then c2\<lparr>sound_device := None\<rparr> else c2);
          c4 = c3\<lparr>uplink_config := free_uplink_config (uplink_config c3)\<rparr>;
          c5 = c4\<lparr>uplink_config := new_uplink_config c4, new_uplink_config := []\<rparr>
      in if pidfile c5 = None then c5\<lparr>pidfile := Some (pidfile_name (the (logdir c5)) (logname c5))\<rparr>
         else c5)"

definition read_config :: "(string \<Rightarrow> string option) \<Rightarrow> string option \<Rightarrow> config \<Rightarrow> (config \<times> int) res" where
  "read_config fs ldir c =
     res_bind (read_cfgfile fs (cfgfile c) cfg_cmds c)
       (\<lambda>(c0, ret). if ret \<noteq> 0 then Inr (c0, - 1) else Inr (apply_defaults ldir c0, 0))"

subsection \<open>The command line\<close>

text \<open>
  What \<open>getopt\<close> hands out, option letters with their arguments, is a parameter. The
  result is the new variables, or the status \<open>main\<close> exits with.
\<close>

definition one_option :: "char \<times> string \<Rightarrow> config \<times> logger \<times> bool \<Rightarrow> config \<times> logger \<times> bool" where
  "one_option oa st =
     (case oa of (s, optarg) \<Rightarrow> case st of (c, g, failed) \<Rightarrow>
      if s = CHR ''c'' then (c\<lparr>cfgfile := optarg\<rparr>, g, failed)
      else if s = CHR ''f'' then (c\<lparr>fork_a_daemon := True\<rparr>, g, failed)
      else if s = CHR ''n'' then (c\<lparr>logname := optarg\<rparr>, g, failed)
      else if s = CHR ''r'' then (c, g\<lparr>log_dir := Some optarg\<rparr>, failed)
      else if s = CHR ''e'' then
        (let i = pick_loglevel optarg log_levelnames in
         if i > - 1 then (c, g\<lparr>log_level := i\<rparr>, failed) else (c, g, True))
      else if s = CHR ''o'' then
        (let i = pick_loglevel optarg log_destnames in
         if i > - 1 then (c, g\<lparr>log_dest := i\<rparr>, failed) else (c, g, True))
      else if s = CHR ''l'' then (c\<lparr>sound_in_file := Some optarg\<rparr>, g, failed)
      else if s = CHR ''s'' then (c\<lparr>sound_out_file := Some optarg\<rparr>, g, failed)
      else if s = CHR ''?'' \<or> s = CHR ''h'' then (c, g, True)
      else (c, g, failed))"

definition parse_cmdline :: "(char \<times> string) list \<Rightarrow> config \<Rightarrow> logger \<Rightarrow> int + (config \<times> logger)" where
  "parse_cmdline opts c g =
     (let (c1, g1, failed) = foldl (\<lambda>st oa. one_option oa st) (c, g, False) opts;
          failed1 = (failed \<or> log_dest g1 = L_FILE \<and> log_dir g1 = None)
      in if failed1 then Inl 1 else Inr (c1, g1))"

subsection \<open>Intervals: what is written is what is read\<close>

definition unit_secs :: "char \<Rightarrow> nat" where
  "unit_secs c =
     (if c = CHR ''s'' then 1 else if c = CHR ''m'' then 60 else if c = CHR ''h'' then 3600
      else if c = CHR ''d'' then 86400 else 0)"

definition interval_text :: "(nat \<times> char) list \<Rightarrow> string" where
  "interval_text us = concat (map (\<lambda>(n, c). dec_nat n @ [c]) us)"

definition interval_ok :: "nat \<times> char \<Rightarrow> bool" where
  "interval_ok u \<longleftrightarrow> snd u \<in> {CHR ''s'', CHR ''m'', CHR ''h'', CHR ''d''} \<and> fst u * unit_secs (snd u) < 2 ^ 31"

lemma parse_interval_digits:
  "\<forall>c\<in>set ds. c_isdigit c \<Longrightarrow> parse_interval_from np (ds @ p) t = parse_interval_from (np @ ds) p t"
  by (induction ds arbitrary: np) simp_all

lemma unit_value_ok:
  assumes "interval_ok (n, c)"
  shows "unit_value c (c_atoi (dec_nat n)) = int (n * unit_secs c)"
proof -
  have u: "1 \<le> unit_secs c" "n * unit_secs c < 2 ^ 31" using assms by (auto simp: interval_ok_def unit_secs_def)
  have "n * 1 \<le> n * unit_secs c" using u(1) by (intro mult_le_mono2)
  then have "n < 2 ^ 31" using u(2) by linarith
  then have a: "c_atoi (dec_nat n) = int n" by (rule c_atoi_dec_nat)
  have m: "int_mult (int k) (int n) = int (k * n)" if "k * n < 2 ^ 31" for k
  proof -
    have "- (2 ^ 31) \<le> int (k * n)" "int (k * n) < 2 ^ 31"
      using that by (simp_all del: of_nat_mult)
    then have "sint (word_of_int (int (k * n)) :: u32) = int (k * n)" by (rule sint_of_int32)
    then show ?thesis by (simp only: int_mult_def of_nat_mult)
  qed
  show ?thesis
    using u(2) assms m [of 60] m [of 3600] m [of 86400]
    by (auto simp: interval_ok_def unit_value_def unit_secs_def a mult.commute)
qed

lemma parse_interval_units:
  "list_all interval_ok us \<Longrightarrow>
   parse_interval_from [] (interval_text us) t = t + int (sum_list (map (\<lambda>(n, c). n * unit_secs c) us))"
proof (induction us arbitrary: t)
  case Nil
  then show ?case by (simp add: interval_text_def)
next
  case (Cons u us)
  obtain n c where u: "u = (n, c)" by (cases u)
  have c: "\<not> c_isdigit c" "c_tolower c = c" using Cons.prems by (auto simp: u interval_ok_def c_isdigit_def c_tolower_def)
  have "parse_interval_from [] (interval_text (u # us)) t = parse_interval_from [] (dec_nat n @ c # interval_text us) t"
    by (simp add: interval_text_def u)
  also have "\<dots> = parse_interval_from (dec_nat n) (c # interval_text us) t"
    using parse_interval_digits [of "dec_nat n" "[]" "c # interval_text us" t] dec_nat_digits by simp
  also have "\<dots> = parse_interval_from [] (interval_text us) (t + int (n * unit_secs c))"
    using c unit_value_ok Cons.prems u by simp
  finally show ?case using Cons by (simp add: u)
qed

subsection \<open>Directives\<close>

definition cfg_names :: "string list" where
  "cfg_names = [''logdir'', ''fingerprints'', ''statsinterval'', ''expiryinterval'', ''uplink'', ''sounddevice'',
     ''soundinfile'', ''soundoutfile'', ''soundchannels'', ''soundlevellog'']"

lemma cfg_names_eq: "map fst cfg_cmds = cfg_names"
  by (simp add: cfg_cmds_def cfg_names_def)

lemma length_cfg_cmds: "length cfg_cmds = 10"
  using arg_cong [OF cfg_names_eq, of length] by (simp add: cfg_names_def)

lemma find_command_first:
  "i < length cmds \<Longrightarrow> strncasecmp_eq (fst (cmds ! i)) name (length name) \<Longrightarrow>
   \<forall>j<i. \<not> strncasecmp_eq (fst (cmds ! j)) name (length name) \<Longrightarrow> find_command cmds name = Some (cmds ! i)"
  unfolding find_command_def by (subst find_Some_iff) blast

lemma cfg_names_distinct:
  "list_all (\<lambda>i. strncasecmp_eq (cfg_names ! i) (cfg_names ! i) (length (cfg_names ! i))
     \<and> list_all (\<lambda>j. \<not> strncasecmp_eq (cfg_names ! j) (cfg_names ! i) (length (cfg_names ! i))) [0..<i]) [0..<10]"
  by code_simp

lemma find_command_names:
  assumes "i < length cfg_cmds"
  shows "find_command cfg_cmds (fst (cfg_cmds ! i)) = Some (cfg_cmds ! i)"
proof -
  have n: "fst (cfg_cmds ! j) = cfg_names ! j" if "j < length cfg_cmds" for j
    using that by (metis cfg_names_eq nth_map)
  have "i \<in> set [0..<10]" using assms by (simp add: length_cfg_cmds)
  then show ?thesis
    using cfg_names_distinct assms n by (intro find_command_first) (auto simp: list_all_iff)
qed

text \<open>
  A directive written in full, in any case and with any arguments, each quoted, reaches its
  handler with those arguments.
\<close>

lemma cmdparse_quoted:
  assumes "i < length cfg_cmds" "strlwr d = fst (cfg_cmds ! i)" "length args < 255"
    "\<forall>w\<in>set (d # args). CHR 0x00 \<notin> set w" "\<forall>c\<in>set t. c_isspace c"
  shows "cmdparse cfg_cmds (quoted_line (d # args) @ t) c = snd (cfg_cmds ! i) (fst (cfg_cmds ! i) # args) c"
proof -
  have a: "parse_args (quoted_line (d # args) @ t) = d # args"
    by (rule parse_args_quoted) (use assms in auto)
  have "take 1 (cfg_names ! i) \<noteq> ''#''" "cfg_names ! i = fst (cfg_cmds ! i)"
  proof -
    have "list_all (\<lambda>i. take 1 (cfg_names ! i) \<noteq> ''#'') [0..<10]" by code_simp
    then show "take 1 (cfg_names ! i) \<noteq> ''#''" using assms(1) by (simp add: list_all_iff length_cfg_cmds)
    show "cfg_names ! i = fst (cfg_cmds ! i)" using assms(1) by (metis cfg_names_eq nth_map)
  qed
  moreover have "take 1 (strlwr d) = ''#''" if "take 1 d = ''#''"
    using that by (cases d) (auto simp: strlwr_def c_tolower_def)
  ultimately have "take 1 d \<noteq> ''#''" using assms(2) by auto
  then show ?thesis
    using find_command_names [OF assms(1)] by (simp add: cmdparse_def a assms(2) Let_def)
qed

lemma uplink_without_url:
  assumes "\<forall>c\<in>set t. c_isspace c" "CHR 0x00 \<notin> set name"
  shows "cmdparse cfg_cmds (quoted_line [''uplink'', name, ''json''] @ t) c = Inl Null_pointer"
proof -
  have "cfg_cmds ! 4 = (''uplink'', \<lambda>a c. res_bind (do_uplink (new_uplink_config c) a) (\<lambda>(v, r). Inr (c\<lparr>new_uplink_config := v\<rparr>, r)))"
    by (simp add: cfg_cmds_def)
  moreover have "strlwr ''uplink'' = ''uplink''" by code_simp
  ultimately show ?thesis
    using cmdparse_quoted [of 4 "''uplink''" "[name, ''json'']" t c] assms
    by (simp add: length_cfg_cmds do_uplink_def)
qed

subsection \<open>After reading\<close>

lemma free_uplink_config_empty [simp]: "free_uplink_config us = []"
  by (induction us) simp_all

lemma apply_defaults_props:
  shows "logdir (apply_defaults ldir c) = (case ldir of Some d \<Rightarrow> Some d | None \<Rightarrow> Some (case logdir c of Some d \<Rightarrow> d | None \<Rightarrow> ''.''))"
    and "sound_device (apply_defaults ldir c) =
      (if sound_in_file c \<noteq> None then None else Some (case sound_device c of Some d \<Rightarrow> d | None \<Rightarrow> def_sound_device))"
    and "sound_in_file (apply_defaults ldir c) = sound_in_file c"
    and "uplink_config (apply_defaults ldir c) = new_uplink_config c"
    and "new_uplink_config (apply_defaults ldir c) = []"
    and "pidfile (apply_defaults ldir c) \<noteq> None"
  by (auto simp: apply_defaults_def Let_def split: option.splits)

lemma pidfile_fits: "length (pidfile_name dir name) + 1 = pidfile_alloc dir name"
  by (simp add: pidfile_name_def pidfile_alloc_def)

subsection \<open>The command line leaves the logger usable\<close>

lemma log_level_bounds: "- 1 \<le> pick_loglevel s ns \<and> pick_loglevel s ns < int (length ns)"
  using pick_from_cases [where s = s and ns = ns and i = 0] by (auto simp: pick_loglevel_def)

definition logger_ok :: "logger \<Rightarrow> bool" where
  "logger_ok g \<longleftrightarrow> 0 \<le> log_level g \<and> log_level g < 8 \<and> 0 \<le> log_dest g \<and> log_dest g \<le> L_FILE
     \<and> log_file_lock g = rwl_init"

lemma one_option_ok: "logger_ok (fst (snd st)) \<Longrightarrow> logger_ok (fst (snd (one_option oa st)))"
proof -
  assume ok: "logger_ok (fst (snd st))"
  obtain s a where oa: "oa = (s, a)" by (cases oa)
  obtain c g f where st: "st = (c, g, f)" by (cases st) auto
  have b: "pick_loglevel a log_levelnames < 8" "pick_loglevel a log_destnames \<le> L_FILE"
    using log_level_bounds [of a log_levelnames] log_level_bounds [of a log_destnames]
    by (simp_all add: log_levelnames_def log_destnames_def L_FILE_def)
  show ?thesis using ok b unfolding oa st one_option_def prod.case
    by (simp add: logger_ok_def Let_def)
qed

lemma parse_cmdline_ok:
  assumes "parse_cmdline opts c logger_init = Inr (c1, g1)"
  shows "logger_ok g1 \<and> (log_dest g1 = L_FILE \<longrightarrow> log_dir g1 \<noteq> None)"
proof -
  have "logger_ok (fst (snd (foldl (\<lambda>st oa. one_option oa st) st opts)))" if "logger_ok (fst (snd st))" for st
    using that by (induction opts arbitrary: st) (simp_all add: one_option_ok)
  from this [of "(c, logger_init, False)"] show ?thesis
    using assms by (auto simp: parse_cmdline_def Let_def logger_init_def logger_ok_def LOG_INFO_def
        L_STDERR_def L_FILE_def split: prod.splits if_splits)
qed

lemma open_log_after_cmdline:
  assumes "parse_cmdline opts c logger_init = Inr (c1, g1)" "0 \<le> fd"
  shows "\<exists>g2. open_log fd (logname c1) False g1 = Inr g2 \<and> log_file_lock g2 = rwl_init \<and> log_name g2 = Some (logname c1)"
  using parse_cmdline_ok [OF assms(1)] assms(2)
  by (auto simp: open_log_def wrlock_def rwl_wrlock_def rwl_init_def rwl_wrunlock_def logger_ok_def Let_def)

section \<open>Properties\<close>

text \<open>An interval written as numbers with the units d, h, m and s, in any order and number,
  is read as the number of seconds it stands for, as long as each part fits an \<open>int\<close>.\<close>

lemma interval_roundtrip:
  assumes "list_all interval_ok us"
  shows "parse_interval (interval_text us) = int (sum_list (map (\<lambda>(n, c). n * unit_secs c) us))"
  using parse_interval_units [OF assms, of 0] by (simp add: parse_interval_def)

lemma interval_roundtrip_example:
  "parse_interval (interval_text [(1, CHR ''d''), (2, CHR ''h''), (3, CHR ''m''), (4, CHR ''s'')]) = 93784"
  using interval_roundtrip [of "[(1, CHR ''d''), (2, CHR ''h''), (3, CHR ''m''), (4, CHR ''s'')]"]
  by (simp add: interval_ok_def unit_secs_def)

text \<open>C27. Every directive of the table, written in full in any case, runs its own handler with
  the arguments of the line, however they are quoted.\<close>

theorem directive_dispatch:
  assumes "i < length cfg_cmds" "strlwr d = fst (cfg_cmds ! i)" "length args < 255"
    and "\<forall>w\<in>set (d # args). CHR 0x00 \<notin> set w" "\<forall>c\<in>set t. c_isspace c"
  shows "cmdparse cfg_cmds (quoted_line (d # args) @ t) c = snd (cfg_cmds ! i) (fst (cfg_cmds ! i) # args) c"
  by (rule cmdparse_quoted [OF assms])

theorem directive_dispatch_witness:
  "cmdparse cfg_cmds (quoted_line [''Fingerprints'', ''/my fp''] @ [CHR 0x0A]) (config_init ''edy'')
     = Inr ((config_init ''edy'')\<lparr>fpdir := Some ''/my fp''\<rparr>, 0)"
proof -
  have l: "strlwr ''Fingerprints'' = ''fingerprints''" by code_simp
  have c: "cfg_cmds ! 1 = (''fingerprints'', \<lambda>a c. let (v, r) = do_string (fpdir c) a in Inr (c\<lparr>fpdir := v\<rparr>, r))"
    by (simp add: cfg_cmds_def)
  have "cmdparse cfg_cmds (quoted_line (''Fingerprints'' # [''/my fp'']) @ [CHR 0x0A]) (config_init ''edy'')
     = snd (cfg_cmds ! 1) (fst (cfg_cmds ! 1) # [''/my fp'']) (config_init ''edy'')"
    by (rule directive_dispatch) (simp_all add: length_cfg_cmds l c c_isspace_def del: One_nat_def)
  then show ?thesis unfolding c by (simp add: do_string_def)
qed

text \<open>After a successful reading there is exactly one sound source (a file wins over a
  device, and the default device is taken when there is neither), a log directory (the command
  line's wins), a pid file, and the new uplinks have replaced the old.\<close>

lemma read_config_result:
  assumes "read_cfgfile fs (cfgfile c) cfg_cmds c = Inr (c0, 0)"
  shows "\<exists>c1. read_config fs ldir c = Inr (c1, 0)
    \<and> (sound_device c1 = None) = (sound_in_file c1 \<noteq> None) \<and> sound_in_file c1 = sound_in_file c0
    \<and> logdir c1 = Some (case ldir of Some d \<Rightarrow> d | None \<Rightarrow> (case logdir c0 of Some d \<Rightarrow> d | None \<Rightarrow> ''.''))
    \<and> pidfile c1 \<noteq> None \<and> uplink_config c1 = new_uplink_config c0 \<and> new_uplink_config c1 = []"
  using apply_defaults_props [of ldir c0] assms
  by (auto simp: read_config_def split: option.splits if_splits)

lemma read_config_result_example:
  "\<exists>c1. read_config (\<lambda>p. Some []) None (config_init ''edy'') = Inr (c1, 0) \<and> logdir c1 = Some ''.''"
proof -
  have "read_cfgfile (\<lambda>p. Some []) (cfgfile (config_init ''edy'')) cfg_cmds (config_init ''edy'') = Inr (config_init ''edy'', 0)"
    by (simp add: read_cfgfile_def read_lines.simps)
  from read_config_result [OF this, of None] show ?thesis by (auto simp: config_init_def)
qed

text \<open>A command line that is accepted leaves the logger in a state from which opening the log
  succeeds if the file can be opened: a log directory is set whenever a file is the destination,
  level and destination are in range, and the lock comes back free.\<close>

lemma cmdline_then_open_log:
  assumes "parse_cmdline opts c logger_init = Inr (c1, g1)" "0 \<le> fd"
  shows "\<exists>g2. open_log fd (logname c1) False g1 = Inr g2 \<and> log_file_lock g2 = rwl_init
    \<and> log_name g2 = Some (logname c1) \<and> logger_ok g1"
  using open_log_after_cmdline [OF assms] parse_cmdline_ok [OF assms(1)] by blast

lemma cmdline_then_open_log_example:
  "\<exists>g1 g2. parse_cmdline [(CHR ''o'', ''FILE''), (CHR ''r'', ''/tmp'')] (config_init ''edy'') logger_init = Inr (config_init ''edy'', g1)
    \<and> open_log 3 ''edy'' False g1 = Inr g2"
proof -
  have p: "pick_loglevel ''FILE'' log_destnames = 3" by code_simp
  have "parse_cmdline [(CHR ''o'', ''FILE''), (CHR ''r'', ''/tmp'')] (config_init ''edy'') logger_init
      = Inr (config_init ''edy'', logger_init\<lparr>log_dest := 3, log_dir := Some ''/tmp''\<rparr>)"
    by (simp add: parse_cmdline_def one_option_def p L_FILE_def)
  from cmdline_then_open_log [OF this, of 3] this show ?thesis by (auto simp: config_init_def)
qed

end
