(* ===== verification/Edysquelch.thy ===== *)
theory Edysquelch
  imports Receiver Cfg
begin

section \<open>The main loop (\<open>edysquelch.c\<close>)\<close>

text \<open>
  What \<open>main\<close> does between start-up and shutdown: the receivers for the configured
  channels, and the loop that reads a block of frames, records it and runs the receivers.
  Reading is a parameter: the list of what \<open>fread\<close> or \<open>input_read\<close> delivers.
\<close>

text \<open>
  One turn of the loop: the buffer after the read, the count the read returned, whether a
  \<open>SIGINT\<close> arrives during the turn, and the clock for each receiver.
\<close>

record input =
  i_buffer :: "s16 list"
  i_read :: int
  i_sigint :: bool
  i_now_a :: "int \<times> int"
  i_now_b :: "int \<times> int"

record 'f program =
  rx_a :: "'f receiver"
  rx_b :: "'f receiver option"
  sq :: squelch
  recorded :: "(s16 list \<times> nat) list"
  is_done :: bool

definition channel_count :: "int \<Rightarrow> nat" where
  "channel_count chans = (if chans \<noteq> SOUND_CHANNELS_MONO then 2 else 1)"

definition start_receivers :: "'f fops \<Rightarrow> int \<Rightarrow> 'f program" where
  "start_receivers ops chans =
     (if chans \<noteq> SOUND_CHANNELS_MONO
      then \<lparr>rx_a = init_receiver ops (CHR ''A'') 2 0, rx_b = Some (init_receiver ops (CHR ''B'') 2 1),
            sq = squelch_init, recorded = [], is_done = False\<rparr>
      else \<lparr>rx_a = init_receiver ops (CHR ''A'') 1 0, rx_b = None,
            sq = squelch_init, recorded = [], is_done = False\<rparr>)"

text \<open>The size of the buffer when the sound comes from a file.\<close>

definition file_buffer_l :: nat where
  "file_buffer_l = 1024 - 1024 mod 5"

definition run_a ::
  "'f fops \<Rightarrow> fingerprint_t list \<Rightarrow> (u64 \<Rightarrow> sql_env) \<Rightarrow> int \<Rightarrow> input \<Rightarrow> 'f program \<Rightarrow> 'f program res"
where
  "run_a ops fps env lv i p =
     res_bind (receiver_run ops fps env lv (fst (i_now_a i)) (snd (i_now_a i)) (rx_a p) (i_buffer i)
                 (nat (i_read i)) (sq p))
       (\<lambda>(rx, s, lg). Inr (p\<lparr>rx_a := rx, sq := s\<rparr>))"

definition run_b ::
  "'f fops \<Rightarrow> fingerprint_t list \<Rightarrow> (u64 \<Rightarrow> sql_env) \<Rightarrow> int \<Rightarrow> input \<Rightarrow> 'f program \<Rightarrow> 'f program res"
where
  "run_b ops fps env lv i p =
     (case rx_b p of
        None \<Rightarrow> Inl Null_pointer
      | Some b \<Rightarrow>
          res_bind (receiver_run ops fps env lv (fst (i_now_b i)) (snd (i_now_b i)) b (i_buffer i)
                      (nat (i_read i)) (sq p))
            (\<lambda>(rx, s, lg). Inr (p\<lparr>rx_b := Some rx, sq := s\<rparr>)))"

definition main_turn ::
  "'f fops \<Rightarrow> fingerprint_t list \<Rightarrow> (u64 \<Rightarrow> sql_env) \<Rightarrow> int \<Rightarrow> int \<Rightarrow> bool \<Rightarrow> bool \<Rightarrow> input \<Rightarrow> 'f program
    \<Rightarrow> 'f program res"
where
  "main_turn ops fps env lv chans from_file sound_out i p =
     (let p0 = p\<lparr>is_done := is_done p \<or> i_sigint i \<or> from_file \<and> i_read i \<le> 0\<rparr> in
      if i_read i \<le> 0 then Inr p0
      else
        let p1 = (if sound_out then p0\<lparr>recorded := recorded p0 @ [(i_buffer i, nat (i_read i))]\<rparr> else p0) in
        res_bind (if chans = SOUND_CHANNELS_MONO then run_a ops fps env lv i p1 else Inr p1) (\<lambda>p2.
        res_bind (if chans = SOUND_CHANNELS_BOTH \<or> chans = SOUND_CHANNELS_RIGHT
                  then run_a ops fps env lv i p2 else Inr p2) (\<lambda>p3.
        if chans = SOUND_CHANNELS_BOTH \<or> chans = SOUND_CHANNELS_LEFT
        then run_b ops fps env lv i p3 else Inr p3)))"

text \<open>The loop over what the input delivers; it stops early once \<open>done\<close> is set.\<close>

fun main_loop ::
  "'f fops \<Rightarrow> fingerprint_t list \<Rightarrow> (u64 \<Rightarrow> sql_env) \<Rightarrow> int \<Rightarrow> int \<Rightarrow> bool \<Rightarrow> bool \<Rightarrow> input list \<Rightarrow> 'f program
    \<Rightarrow> 'f program res"
where
  "main_loop ops fps env lv chans from_file sound_out [] p = Inr p"
| "main_loop ops fps env lv chans from_file sound_out (i # is) p =
     (if is_done p then Inr p
      else res_bind (main_turn ops fps env lv chans from_file sound_out i p)
             (main_loop ops fps env lv chans from_file sound_out is))"

subsection \<open>Every turn is safe\<close>

definition program_ok :: "int \<Rightarrow> 'f program \<Rightarrow> bool" where
  "program_ok chans p \<longleftrightarrow>
     rx_ok (rx_a p) \<and> num_ch (rx_a p) = channel_count chans \<and> ch_ofs (rx_a p) = 0
     \<and> (chans \<noteq> SOUND_CHANNELS_MONO \<longrightarrow>
          (\<exists>b. rx_b p = Some b \<and> rx_ok b \<and> num_ch b = 2 \<and> ch_ofs b = 1))
     \<and> sql_ok (sq p) \<and> reports_ok (sq p)"

text \<open>A block as the reads deliver it: as many frames as counted, and no more than the limit.\<close>

definition input_ok :: "int \<Rightarrow> input \<Rightarrow> bool" where
  "input_ok chans i \<longleftrightarrow> (0 < i_read i \<longrightarrow>
     i_read i \<le> int (RECEIVER_BUFLEN div 2) \<and> nat (i_read i) * channel_count chans \<le> length (i_buffer i))"

lemma program_ok_start: "program_ok chans (start_receivers ops chans)"
  by (simp add: program_ok_def start_receivers_def rx_ok_init sql_ok_init reports_ok_init channel_count_def)
    (simp add: init_receiver_def)

lemma fits_frames:
  assumes "n * nch \<le> length buf" "ofs < nch"
  shows "fits (drop ofs buf) nch n"
proof (cases n)
  case (Suc m)
  then have "m * nch + nch \<le> length buf" using assms by simp
  then show ?thesis using Suc assms by (simp add: fits_def)
qed (simp add: fits_def)

lemma run_receiver_ok:
  assumes "rx_ok rx" "0 < i_read i" "input_ok chs i" "num_ch rx = channel_count chs" "ch_ofs rx < channel_count chs"
    "fps_ok fps" "sql_ok s" "reports_ok s"
  shows "\<exists>rx1 s1 lg. receiver_run ops fps env lv now1 now2 rx (i_buffer i) (nat (i_read i)) s = Inr (rx1, s1, lg)
    \<and> rx_ok rx1 \<and> num_ch rx1 = num_ch rx \<and> ch_ofs rx1 = ch_ofs rx \<and> sql_ok s1 \<and> reports_ok s1
    \<and> sql_run fps env (lastn SQL_OPEN_SCAN_LEN (rx_hist rx))
        (zip (rx_channel rx (i_buffer i) (nat (i_read i)))
             (fir_outputs ops (filter_sql rx) (rx_channel rx (i_buffer i) (nat (i_read i))))) s = Inr s1"
proof -
  have b: "block_ok rx (i_buffer i) (nat (i_read i))"
    using assms(2-5) fits_frames [of "nat (i_read i)" "num_ch rx" "i_buffer i" "ch_ofs rx"]
    by (auto simp: block_ok_def input_ok_def nat_le_iff)
  obtain rx1 where rx1: "rx_ok rx1" "num_ch rx1 = num_ch rx" "ch_ofs rx1 = ch_ofs rx"
    "\<And>s. receiver_run ops fps env lv now1 now2 rx (i_buffer i) (nat (i_read i)) s =
      res_bind (sql_run fps env (lastn SQL_OPEN_SCAN_LEN (rx_hist rx))
        (zip (rx_channel rx (i_buffer i) (nat (i_read i)))
             (fir_outputs ops (filter_sql rx) (rx_channel rx (i_buffer i) (nat (i_read i))))) s)
       (\<lambda>s1. Inr (rx1, s1, snd (level_report lv now1 now2
          (peak_from (word_of_int (- 32000)) (rx_channel rx (i_buffer i) (nat (i_read i)))) rx)))"
    using receiver_run_ok [OF assms(1) b, where ops = ops and lv = lv and ?now1.0 = now1 and ?now2.0 = now2] by blast
  have "length (lastn SQL_OPEN_SCAN_LEN (rx_hist rx)) = SQL_OPEN_SCAN_LEN"
    using assms(1) by (simp add: rx_hist_def rx_ok_def c_consts)
  then obtain s1 where s1: "sql_run fps env (lastn SQL_OPEN_SCAN_LEN (rx_hist rx))
        (zip (rx_channel rx (i_buffer i) (nat (i_read i)))
             (fir_outputs ops (filter_sql rx) (rx_channel rx (i_buffer i) (nat (i_read i))))) s = Inr s1"
    using sql_run_total [OF assms(6)] by blast
  then show ?thesis
    using rx1 sql_run_refines [OF assms(7) s1] sql_run_reports [OF assms(7,8) s1] by auto
qed

text \<open>How the squelch gets from one state to another: by runs over \<open>n\<close> samples in all.\<close>

inductive sq_runs :: "fingerprint_t list \<Rightarrow> (u64 \<Rightarrow> sql_env) \<Rightarrow> nat \<Rightarrow> squelch \<Rightarrow> squelch \<Rightarrow> bool"
  for fps env where
  refl: "sq_runs fps env 0 s s"
| run: "sq_runs fps env n s s1 \<Longrightarrow> sql_run fps env w xs s1 = Inr s2 \<Longrightarrow> sq_runs fps env (n + length xs) s s2"

lemma sq_runs_one: "sql_run fps env w xs s = Inr s1 \<Longrightarrow> n = length xs \<Longrightarrow> sq_runs fps env n s s1"
  using sq_runs.run [OF sq_runs.refl] by fastforce

lemma sq_runs_trans: "sq_runs fps env m s1 s2 \<Longrightarrow> sq_runs fps env n s s1 \<Longrightarrow> sq_runs fps env (n + m) s s2"
  by (induction rule: sq_runs.induct) (auto simp: add.assoc [symmetric] intro: sq_runs.run)

lemma sq_runs_pos: "sq_runs fps env n s s1 \<Longrightarrow> sql_pos s1 = sql_pos s + of_nat n"
  by (induction rule: sq_runs.induct) (simp_all add: sql_run_pos)

lemma run_a_ok:
  assumes "program_ok chs p" "0 < i_read i" "input_ok chs i" "fps_ok fps"
  shows "\<exists>p1. run_a ops fps env lv i p = Inr p1 \<and> program_ok chs p1 \<and> rx_b p1 = rx_b p
    \<and> recorded p1 = recorded p \<and> is_done p1 = is_done p
    \<and> sq_runs fps env (nat (i_read i)) (sq p) (sq p1)"
proof -
  have c: "0 < channel_count chs" by (simp add: channel_count_def)
  obtain rx1 s1 lg where r: "receiver_run ops fps env lv (fst (i_now_a i)) (snd (i_now_a i)) (rx_a p) (i_buffer i)
      (nat (i_read i)) (sq p) = Inr (rx1, s1, lg)" "rx_ok rx1" "num_ch rx1 = num_ch (rx_a p)"
    "ch_ofs rx1 = ch_ofs (rx_a p)" "sql_ok s1" "reports_ok s1"
    "sql_run fps env (lastn SQL_OPEN_SCAN_LEN (rx_hist (rx_a p)))
        (zip (rx_channel (rx_a p) (i_buffer i) (nat (i_read i)))
             (fir_outputs ops (filter_sql (rx_a p)) (rx_channel (rx_a p) (i_buffer i) (nat (i_read i))))) (sq p) = Inr s1"
    using run_receiver_ok [of "rx_a p" i chs fps "sq p" ops env lv "fst (i_now_a i)" "snd (i_now_a i)"] assms c
    by (auto simp: program_ok_def)
  have "sq_runs fps env (nat (i_read i)) (sq p) s1"
    by (rule sq_runs_one [OF r(7)]) (simp add: rx_channel_def)
  then show ?thesis using r assms(1) by (simp add: run_a_def program_ok_def)
qed

lemma run_b_ok:
  assumes "program_ok chs p" "chs \<noteq> SOUND_CHANNELS_MONO" "0 < i_read i" "input_ok chs i" "fps_ok fps"
  shows "\<exists>p1. run_b ops fps env lv i p = Inr p1 \<and> program_ok chs p1 \<and> rx_a p1 = rx_a p
    \<and> recorded p1 = recorded p \<and> is_done p1 = is_done p
    \<and> sq_runs fps env (nat (i_read i)) (sq p) (sq p1)"
proof -
  obtain b where b: "rx_b p = Some b" "rx_ok b" "num_ch b = 2" "ch_ofs b = 1"
    using assms(1,2) by (auto simp: program_ok_def)
  obtain rx1 s1 lg where r: "receiver_run ops fps env lv (fst (i_now_b i)) (snd (i_now_b i)) b (i_buffer i)
      (nat (i_read i)) (sq p) = Inr (rx1, s1, lg)" "rx_ok rx1" "num_ch rx1 = num_ch b"
    "ch_ofs rx1 = ch_ofs b" "sql_ok s1" "reports_ok s1"
    "sql_run fps env (lastn SQL_OPEN_SCAN_LEN (rx_hist b))
        (zip (rx_channel b (i_buffer i) (nat (i_read i)))
             (fir_outputs ops (filter_sql b) (rx_channel b (i_buffer i) (nat (i_read i))))) (sq p) = Inr s1"
    using run_receiver_ok [of b i chs fps "sq p" ops env lv "fst (i_now_b i)" "snd (i_now_b i)"] assms b
    by (auto simp: program_ok_def channel_count_def)
  have "sq_runs fps env (nat (i_read i)) (sq p) s1"
    by (rule sq_runs_one [OF r(7)]) (simp add: rx_channel_def)
  then show ?thesis using r b assms(1) by (simp add: run_b_def program_ok_def)
qed

text \<open>How many receivers take each block.\<close>

definition receivers_run :: "int \<Rightarrow> nat" where
  "receivers_run chans =
     (if chans = SOUND_CHANNELS_BOTH then 2
      else if chans \<in> {SOUND_CHANNELS_MONO, SOUND_CHANNELS_LEFT, SOUND_CHANNELS_RIGHT} then 1 else 0)"

lemma main_turn_ok:
  assumes "program_ok chs p" "input_ok chs i" "fps_ok fps"
  shows "\<exists>p1. main_turn ops fps env lv chs from_file sound_out i p = Inr p1 \<and> program_ok chs p1
    \<and> is_done p1 = (is_done p \<or> i_sigint i \<or> from_file \<and> i_read i \<le> 0)
    \<and> recorded p1 = recorded p @ (if sound_out \<and> 0 < i_read i then [(i_buffer i, nat (i_read i))] else [])
    \<and> sq_runs fps env (receivers_run chs * nat (i_read i)) (sq p) (sq p1)"
proof (cases "0 < i_read i")
  case False
  then show ?thesis using assms(1) by (simp add: main_turn_def program_ok_def sq_runs.refl)
next
  case True
  define p0 where "p0 = p\<lparr>is_done := is_done p \<or> i_sigint i\<rparr>"
  define p1 where "p1 = (if sound_out then p0\<lparr>recorded := recorded p0 @ [(i_buffer i, nat (i_read i))]\<rparr> else p0)"
  have p1: "program_ok chs p1" "is_done p1 = (is_done p \<or> i_sigint i)" "sq p1 = sq p"
    "recorded p1 = recorded p @ (if sound_out then [(i_buffer i, nat (i_read i))] else [])"
    using assms(1) by (simp_all add: p1_def p0_def program_ok_def)
  have mt: "main_turn ops fps env lv chs from_file sound_out i p =
      (if chs = SOUND_CHANNELS_MONO \<or> chs = SOUND_CHANNELS_RIGHT then run_a ops fps env lv i p1
       else if chs = SOUND_CHANNELS_LEFT then run_b ops fps env lv i p1
       else if chs = SOUND_CHANNELS_BOTH then res_bind (run_a ops fps env lv i p1) (run_b ops fps env lv i)
       else Inr p1)"
  proof -
    have r: "res_bind r Inr = r" for r :: "'a program res" by (cases r) simp_all
    show ?thesis using True
      by (simp add: main_turn_def Let_def p1_def p0_def r sound_channels_defs)
  qed
  consider (a) "chs = SOUND_CHANNELS_MONO \<or> chs = SOUND_CHANNELS_RIGHT" | (b) "chs = SOUND_CHANNELS_LEFT"
    | (both) "chs = SOUND_CHANNELS_BOTH"
    | (none) "chs \<notin> {SOUND_CHANNELS_MONO, SOUND_CHANNELS_RIGHT, SOUND_CHANNELS_LEFT, SOUND_CHANNELS_BOTH}"
    by blast
  then show ?thesis
  proof cases
    case a
    then show ?thesis unfolding mt using run_a_ok [OF p1(1) True assms(2,3), of ops env lv] p1 True
      by (auto simp: receivers_run_def sound_channels_defs)
  next
    case b
    then show ?thesis unfolding mt using run_b_ok [OF p1(1) _ True assms(2,3), of ops env lv] p1 True
      by (auto simp: receivers_run_def sound_channels_defs)
  next
    case both
    obtain p2 where p2: "run_a ops fps env lv i p1 = Inr p2" "program_ok chs p2"
      "recorded p2 = recorded p1" "is_done p2 = is_done p1"
      "sq_runs fps env (nat (i_read i)) (sq p) (sq p2)"
      using run_a_ok [OF p1(1) True assms(2,3), of ops env lv] p1(3) by auto
    show ?thesis unfolding mt using both run_b_ok [OF p2(2) _ True assms(2,3), of ops env lv] p2 p1 True
      by (auto simp: receivers_run_def sound_channels_defs mult_2 intro: sq_runs_trans)
  next
    case none
    then show ?thesis unfolding mt using p1 True by (auto simp: receivers_run_def intro: sq_runs.refl)
  qed
qed

text \<open>The samples the squelch takes at most in the whole loop.\<close>

definition samples_in :: "int \<Rightarrow> input list \<Rightarrow> nat" where
  "samples_in chs is = sum_list (map (\<lambda>i. receivers_run chs * nat (i_read i)) is)"

lemma main_loop_runs:
  assumes "program_ok chs p" "list_all (input_ok chs) is" "fps_ok fps"
  shows "\<exists>p1 n. main_loop ops fps env lv chs from_file sound_out is p = Inr p1 \<and> program_ok chs p1
    \<and> n \<le> samples_in chs is \<and> sq_runs fps env n (sq p) (sq p1)"
  using assms(1,2)
proof (induction "is" arbitrary: p)
  case Nil
  then show ?case by (auto intro: sq_runs.refl)
next
  case (Cons i rest)
  show ?case
  proof (cases "is_done p")
    case True
    then show ?thesis using Cons.prems(1) by (intro exI [of _ p] exI [of _ 0]) (simp add: sq_runs.refl)
  next
    case False
    obtain p1 where p1: "main_turn ops fps env lv chs from_file sound_out i p = Inr p1" "program_ok chs p1"
      "sq_runs fps env (receivers_run chs * nat (i_read i)) (sq p) (sq p1)"
      using main_turn_ok [OF Cons.prems(1) _ assms(3), of i] Cons.prems(2) by fastforce
    obtain p2 n where p2: "main_loop ops fps env lv chs from_file sound_out rest p1 = Inr p2" "program_ok chs p2"
      "n \<le> samples_in chs rest" "sq_runs fps env n (sq p1) (sq p2)"
      using Cons.IH [OF p1(2)] Cons.prems(2) by auto
    show ?thesis
      using False p1(1) p2 sq_runs_trans [OF p2(4) p1(3)]
      by (intro exI [of _ p2] exI [of _ "receivers_run chs * nat (i_read i) + n"]) (simp add: samples_in_def)
  qed
qed

lemma main_loop_ok:
  assumes "program_ok chs p" "list_all (input_ok chs) is" "fps_ok fps"
  shows "\<exists>p1. main_loop ops fps env lv chs from_file sound_out is p = Inr p1 \<and> program_ok chs p1"
  using main_loop_runs [OF assms] by blast

section \<open>Properties\<close>

text \<open>From start-up, for every channel setting, every sequence of reads that deliver whole
  frames and at most five fingerprints, the main loop runs without a fault: no read or write
  leaves its array, nothing is divided by zero, and the reports stay paired.\<close>

lemma main_loop_safe:
  assumes "list_all (input_ok chs) is" "fps_ok fps"
  shows "\<exists>p1. main_loop ops fps env lv chs from_file sound_out is (start_receivers ops chs) = Inr p1
    \<and> program_ok chs p1 \<and> paired (trees (sq p1))"
  using main_loop_ok [OF program_ok_start [where ops = ops] assms, of ops env lv from_file sound_out]
  by (auto simp: program_ok_def reports_ok_def sql_paired_def)

definition one_frame :: input where
  "one_frame = \<lparr>i_buffer = [1, 2], i_read = 1, i_sigint = False, i_now_a = (0, 0), i_now_b = (0, 0)\<rparr>"

lemma one_frame_ok: "input_ok SOUND_CHANNELS_BOTH one_frame"
  by (simp add: input_ok_def one_frame_def channel_count_def rx_consts sound_channels_defs)

lemma main_loop_safe_example:
  "\<exists>p1. main_loop int_fops [] still_env 0 SOUND_CHANNELS_BOTH True True [one_frame, one_frame]
      (start_receivers int_fops SOUND_CHANNELS_BOTH) = Inr p1 \<and> program_ok SOUND_CHANNELS_BOTH p1"
  using main_loop_safe [of SOUND_CHANNELS_BOTH "[one_frame, one_frame]" "[]" int_fops still_env 0 True True]
    one_frame_ok fps_ok_Nil by auto

text \<open>C24. With both channels, the one squelch state takes the samples of both receivers: a
  block of \<open>n\<close> frames moves its clock by \<open>2 * n\<close>, so durations come out doubled.\<close>

theorem both_channels_share_squelch:
  assumes "program_ok SOUND_CHANNELS_BOTH p" "input_ok SOUND_CHANNELS_BOTH i" "fps_ok fps"
  shows "\<exists>p1. main_turn ops fps env lv SOUND_CHANNELS_BOTH from_file sound_out i p = Inr p1
    \<and> sql_pos (sq p1) = sql_pos (sq p) + of_nat (2 * nat (i_read i))"
  using main_turn_ok [OF assms, of ops env lv from_file sound_out]
  by (auto simp: receivers_run_def dest!: sq_runs_pos)

theorem both_channels_share_squelch_witness:
  "\<exists>p1. main_turn int_fops [] still_env 0 SOUND_CHANNELS_BOTH True False one_frame
      (start_receivers int_fops SOUND_CHANNELS_BOTH) = Inr p1 \<and> sql_pos (sq p1) = 2"
proof -
  have "sq (start_receivers int_fops SOUND_CHANNELS_BOTH) = squelch_init" by (simp add: start_receivers_def)
  then show ?thesis
    using both_channels_share_squelch [OF program_ok_start [where ops = int_fops] one_frame_ok fps_ok_Nil,
        where ops = int_fops and env = still_env and lv = 0 and from_file = True and sound_out = False]
    by (simp add: squelch_init_def one_frame_def)
qed

end
