(* ===== verification/Spheap.thy ===== *)
theory Spheap
  imports Prelude "HOL-Library.Tree"
begin

section \<open>The blocks of the splay trees in memory (\<open>splay.h\<close>)\<close>

text \<open>
  Blocks linked to their children and their parent by pointers, in an explicit memory, and
  what it means that such blocks form a tree. A tree is shown by the addresses of its blocks
  (a value of type \<open>nat tree\<close>); \<open>rep\<close> ties it to the memory. The lemmas: memory changed
  elsewhere leaves a tree alone, and hanging a tree under a block does what it should.
\<close>

type_synonym ptr = "nat option"

record spblk =
  leftlink :: ptr
  rightlink :: ptr
  uplink :: ptr
  key :: u32
  data :: ptr

type_synonym heap = "nat \<Rightarrow> spblk option"

record sptree =
  root :: ptr
  symbols :: ptr
  eltscnt :: u64
  lookups :: u64
  lkpcmps :: u64
  enqs :: u64
  enqcmps :: u64
  splays :: u64
  splayloops :: u64

text \<open>Reading through a pointer and writing a field through one; both fail on \<open>NULL\<close> and on
  an address that holds no block.\<close>

definition deref :: "heap \<Rightarrow> ptr \<Rightarrow> spblk res" where
  "deref h p = (case p of None \<Rightarrow> Inl Null_pointer
     | Some a \<Rightarrow> (case h a of None \<Rightarrow> Inl Out_of_bounds | Some b \<Rightarrow> Inr b))"

definition update :: "heap \<Rightarrow> ptr \<Rightarrow> (spblk \<Rightarrow> spblk) \<Rightarrow> heap res" where
  "update h p f = (case p of None \<Rightarrow> Inl Null_pointer
     | Some a \<Rightarrow> (case h a of None \<Rightarrow> Inl Out_of_bounds | Some b \<Rightarrow> Inr (h(a \<mapsto> f b))))"

lemma deref_Some [simp]: "h a = Some b \<Longrightarrow> deref h (Some a) = Inr b"
  by (simp add: deref_def)

lemma update_Some [simp]: "h a = Some b \<Longrightarrow> update h (Some a) f = Inr (h(a \<mapsto> f b))"
  by (simp add: update_def)

text \<open>The code treats the two sides alike, with the roles of the links exchanged.\<close>

datatype side = Lft | Rgt

fun opp :: "side \<Rightarrow> side" where
  "opp Lft = Rgt"
| "opp Rgt = Lft"

fun link :: "side \<Rightarrow> spblk \<Rightarrow> ptr" where
  "link Lft b = leftlink b"
| "link Rgt b = rightlink b"

fun set_link :: "side \<Rightarrow> ptr \<Rightarrow> spblk \<Rightarrow> spblk" where
  "set_link Lft p b = b\<lparr>leftlink := p\<rparr>"
| "set_link Rgt p b = b\<lparr>rightlink := p\<rparr>"

definition set_up :: "ptr \<Rightarrow> spblk \<Rightarrow> spblk" where
  "set_up p b = b\<lparr>uplink := p\<rparr>"

lemma opp_opp [simp]: "opp (opp s) = s"
  by (cases s) auto

lemma opp_neq [simp]: "opp s \<noteq> s" "s \<noteq> opp s"
  by (cases s; simp)+

lemma link_set_link [simp]:
  "link s (set_link s p b) = p" "link (opp s) (set_link s p b) = link (opp s) b"
  "link s (set_link (opp s) p b) = link s b" "uplink (set_link s p b) = uplink b"
  "key (set_link s p b) = key b" "data (set_link s p b) = data b"
  by (cases s; simp)+

lemma link_set_up [simp]:
  "link s (set_up p b) = link s b" "uplink (set_up p b) = p"
  "key (set_up p b) = key b" "data (set_up p b) = data b"
  by (cases s; simp add: set_up_def)+

text \<open>\<open>if (p != NULL) p->uplink = u;\<close>\<close>

definition relink_up :: "heap \<Rightarrow> ptr \<Rightarrow> ptr \<Rightarrow> heap res" where
  "relink_up h p u = (if p \<noteq> None then update h p (set_up u) else Inr h)"

text \<open>\<open>a->link = p; if (p != NULL) p->uplink = a;\<close> for the left or the right link\<close>

definition attach :: "heap \<Rightarrow> ptr \<Rightarrow> side \<Rightarrow> ptr \<Rightarrow> heap res" where
  "attach h a s p = res_bind (update h a (set_link s p)) (\<lambda>h. relink_up h p a)"

subsection \<open>Key and data of a block\<close>

definition payload :: "heap \<Rightarrow> nat \<Rightarrow> (u32 \<times> ptr) option" where
  "payload h a = map_option (\<lambda>b. (key b, data b)) (h a)"

lemma payload_update [simp]:
  "h a = Some b \<Longrightarrow> key b' = key b \<Longrightarrow> data b' = data b \<Longrightarrow> payload (h(a \<mapsto> b')) = payload h"
  by (auto simp: payload_def fun_eq_iff)

lemma payload_Some: "payload h' = payload h \<Longrightarrow> h a = Some b \<Longrightarrow>
    \<exists>b'. h' a = Some b' \<and> key b' = key b \<and> data b' = data b"
  by (drule fun_cong [of _ _ a]) (auto simp: payload_def)

subsection \<open>Trees in memory\<close>

fun rep :: "heap \<Rightarrow> ptr \<Rightarrow> ptr \<Rightarrow> nat tree \<Rightarrow> bool" where
  "rep h up p Leaf \<longleftrightarrow> p = None"
| "rep h up p (Node l a r) \<longleftrightarrow> p = Some a \<and>
     (case h a of None \<Rightarrow> False
      | Some b \<Rightarrow> uplink b = up \<and> rep h (Some a) (leftlink b) l \<and> rep h (Some a) (rightlink b) r)"

fun nd :: "side \<Rightarrow> nat tree \<Rightarrow> nat \<Rightarrow> nat tree \<Rightarrow> nat tree" where
  "nd Lft x a y = Node x a y"
| "nd Rgt x a y = Node y a x"

text \<open>The elements on the side \<open>s\<close> of the list come first for \<open>Lft\<close> and last for \<open>Rgt\<close>.\<close>

fun cat :: "side \<Rightarrow> nat list \<Rightarrow> nat list \<Rightarrow> nat list" where
  "cat Lft xs ys = xs @ ys"
| "cat Rgt xs ys = ys @ xs"

lemma inorder_nd: "inorder (nd s x a y) = cat s (inorder x) (cat s [a] (inorder y))"
  by (cases s) auto

lemma set_cat [simp]: "set (cat s xs ys) = set xs \<union> set ys"
  by (cases s) auto

lemma cat_assoc: "cat s (cat s xs ys) zs = cat s xs (cat s ys zs)"
  by (cases s) auto

lemma cat_Nil [simp]: "cat s [] ys = ys" "cat s xs [] = xs"
  by (cases s; simp)+

lemma distinct_cat [simp]: "distinct (cat s xs ys) \<longleftrightarrow> distinct xs \<and> distinct ys \<and> set xs \<inter> set ys = {}"
  by (cases s) auto

lemma set_nd [simp]: "set_tree (nd s x a y) = insert a (set_tree x \<union> set_tree y)"
  by (cases s) auto

lemma distinct_nd [simp]: "distinct (inorder (nd s x a y)) \<longleftrightarrow>
    distinct (inorder x) \<and> distinct (inorder y) \<and> a \<notin> set_tree x \<and> a \<notin> set_tree y \<and> set_tree x \<inter> set_tree y = {}"
  by (auto simp: inorder_nd)

lemma rep_nd: "rep h up p (nd s x a y) \<longleftrightarrow> p = Some a \<and>
    (\<exists>b. h a = Some b \<and> uplink b = up \<and> rep h (Some a) (link s b) x \<and> rep h (Some a) (link (opp s) b) y)"
  by (cases s) (auto split: option.splits)

lemma tree_nd: "t = Leaf \<or> (\<exists>x a y. t = nd s x a y)"
proof (cases t)
  case (Node l a r)
  then have "t = nd s (if s = Lft then l else r) a (if s = Lft then r else l)"
    by (cases s) simp_all
  then show ?thesis by blast
qed simp

lemma rep_None: "rep h up None t \<longleftrightarrow> t = Leaf"
  by (cases t) auto

lemma rep_SomeD: "rep h up (Some a) t \<Longrightarrow> a \<in> set_tree t \<and> (\<exists>b. h a = Some b \<and> uplink b = up)"
  by (cases t) (auto split: option.splits)

lemma rep_link_in: "rep h up p t \<Longrightarrow> a \<notin> set_tree t \<Longrightarrow> p \<noteq> Some a"
  by (cases t) auto

lemma rep_cong: "\<forall>x\<in>set_tree t. h' x = h x \<Longrightarrow> rep h' up p t = rep h up p t"
proof (induction t arbitrary: up p)
  case (Node l a r)
  then have "h' a = h a" by simp
  with Node show ?case by (simp split: option.split)
qed simp

lemma rep_frame: "rep h up p t \<Longrightarrow> (\<And>x. x \<in> set_tree t \<Longrightarrow> h' x = h x) \<Longrightarrow> rep h' up p t"
  using rep_cong [of t h' h] by blast

lemma rep_alloc: "rep h up p t \<Longrightarrow> a \<in> set_tree t \<Longrightarrow> h a \<noteq> None"
  by (induction t arbitrary: up p) (auto split: option.splits)

text \<open>A pointer and its memory determine the tree.\<close>

lemma rep_unique: "rep h up p t \<Longrightarrow> rep h up' p t' \<Longrightarrow> t = t'"
proof (induction t arbitrary: up up' p t')
  case Leaf
  then show ?case by (simp add: rep_None)
next
  case (Node l a r)
  then obtain l' a' r' where "t' = Node l' a' r'" by (cases t') auto
  with Node show ?case by (auto split: option.splits)
qed

subsection \<open>Hanging a tree under a block\<close>

lemma relink_up_rep:
  assumes "rep h u p t" "distinct (inorder t)"
  shows "\<exists>h'. relink_up h p v = Inr h' \<and> rep h' v p t \<and> (\<forall>x. x \<notin> set_tree t \<longrightarrow> h' x = h x)
    \<and> payload h' = payload h"
proof (cases t)
  case Leaf
  then show ?thesis using assms by (simp add: relink_up_def)
next
  case (Node l a r)
  then obtain b where b: "h a = Some b" "p = Some a" "rep h (Some a) (leftlink b) l" "rep h (Some a) (rightlink b) r"
    using assms by (auto split: option.splits)
  let ?h = "h(a \<mapsto> set_up v b)"
  have "rep ?h (Some a) (leftlink b) l" "rep ?h (Some a) (rightlink b) r"
    using b assms Node by (auto intro!: rep_frame [of h])
  then show ?thesis
    using b Node by (auto simp: relink_up_def set_up_def)
qed

lemma attach_rep:
  assumes "rep h u p t" "distinct (inorder t)" "h a = Some b" "a \<notin> set_tree t"
  shows "\<exists>h'. attach h (Some a) s p = Inr h' \<and> rep h' (Some a) p t \<and> h' a = Some (set_link s p b)
    \<and> (\<forall>x. x \<noteq> a \<longrightarrow> x \<notin> set_tree t \<longrightarrow> h' x = h x) \<and> payload h' = payload h"
proof -
  have "rep (h(a \<mapsto> set_link s p b)) u p t"
    using assms by (auto intro: rep_frame [of h])
  from relink_up_rep [OF this assms(2), of "Some a"] assms show ?thesis
    by (auto simp: attach_def)
qed

end
