(* ===== verification/Splay.thy ===== *)
theory Splay
  imports Spheap "HOL-Library.Multiset"
begin

section \<open>Splaying (\<open>_splay\<close> in \<open>splay.c\<close>)\<close>

text \<open>
  \<open>_splay\<close> walks from a block up to the root, unzips the path into a left and a right tree
  and makes the block the root of both. Its two mirrored branches are one definition with the
  side as a parameter: \<open>Lft\<close> is the branch in which the path comes up a left link. The way up
  need not end in a damaged memory, so the loop is a partial function; on a tree it ends, and
  the order of the blocks stays the same.
\<close>

text \<open>The rotation. It gives the new \<open>upup\<close>.\<close>

definition splay_rotate :: "heap \<Rightarrow> sptree \<Rightarrow> side \<Rightarrow> ptr \<Rightarrow> ptr \<Rightarrow> (heap \<times> sptree \<times> ptr) res" where
  "splay_rotate h q s up upup =
     res_bind (deref h up) (\<lambda>u. res_bind (deref h upup) (\<lambda>v.
       let upupup = uplink v in
       res_bind (attach h upup s (link (opp s) u)) (\<lambda>h.
       res_bind (attach h up (opp s) upup) (\<lambda>h.
       res_bind (if upupup = None then Inr (h, q\<lparr>root := up\<rparr>)
                 else res_bind (deref h upupup) (\<lambda>w.
                        res_bind (update h upupup (set_link (if link s w = upup then s else opp s) up))
                          (\<lambda>h. Inr (h, q))))
         (\<lambda>(h, q). res_bind (update h up (set_up upupup)) (\<lambda>h. Inr (h, q, upupup)))))))"

text \<open>One branch of the loop's body, for \<open>up\<close> reached through its link \<open>s\<close>; \<open>acc\<close> is the tree
  on the other side. The new \<open>acc\<close> is \<open>up\<close>.\<close>

definition splay_branch :: "heap \<Rightarrow> sptree \<Rightarrow> side \<Rightarrow> ptr \<Rightarrow> ptr \<Rightarrow> ptr \<Rightarrow> (heap \<times> sptree \<times> ptr) res" where
  "splay_branch h q s up upup acc =
     res_bind
       (if upup = None then Inr (h, q, upup)
        else res_bind (deref h upup) (\<lambda>v.
               if link s v = up then splay_rotate h q s up upup else Inr (h, q, upup)))
       (\<lambda>(h, q, upup). res_bind (attach h up s acc) (\<lambda>h. Inr (h, q, upup)))"

partial_function (option) splay_loop ::
  "heap \<Rightarrow> sptree \<Rightarrow> ptr \<Rightarrow> ptr \<Rightarrow> ptr \<Rightarrow> ptr \<Rightarrow> (heap \<times> sptree \<times> ptr \<times> ptr) res option"
where
  "splay_loop h q prev up leftp rightp =
     (if up = None then Some (Inr (h, q, leftp, rightp))
      else case deref h up of
          Inl e \<Rightarrow> Some (Inl e)
        | Inr u \<Rightarrow>
            (let q1 = q\<lparr>splayloops := splayloops q + 1\<rparr> in
             if leftlink u = prev
             then (case splay_branch h q1 Lft up (uplink u) rightp of
                     Inl e \<Rightarrow> Some (Inl e)
                   | Inr (h2, q2, upup) \<Rightarrow> splay_loop h2 q2 up upup leftp up)
             else (case splay_branch h q1 Rgt up (uplink u) leftp of
                     Inl e \<Rightarrow> Some (Inl e)
                   | Inr (h2, q2, upup) \<Rightarrow> splay_loop h2 q2 up upup up rightp)))"

definition splay :: "heap \<Rightarrow> ptr \<Rightarrow> sptree \<Rightarrow> (heap \<times> sptree) res option" where
  "splay h n q =
     (case deref h n of
        Inl e \<Rightarrow> Some (Inl e)
      | Inr b \<Rightarrow>
          (case splay_loop h (q\<lparr>splays := splays q + 1\<rparr>) n (uplink b) (leftlink b) (rightlink b) of
             None \<Rightarrow> None
           | Some (Inl e) \<Rightarrow> Some (Inl e)
           | Some (Inr (h1, q1, leftp, rightp)) \<Rightarrow>
               Some (res_bind (update h1 n (set_link Lft leftp)) (\<lambda>h.
                     res_bind (update h n (set_link Rgt rightp)) (\<lambda>h.
                     res_bind (relink_up h leftp n) (\<lambda>h.
                     res_bind (relink_up h rightp n) (\<lambda>h.
                     res_bind (update h n (set_up None)) (\<lambda>h. Inr (h, q1\<lparr>root := n\<rparr>)))))))))"

subsection \<open>The path from a block to the root\<close>

text \<open>A step of the path: the side it comes from, the block and its other child.\<close>

type_synonym path = "(side \<times> nat \<times> nat tree) list"

fun prep :: "heap \<Rightarrow> ptr \<Rightarrow> ptr \<Rightarrow> path \<Rightarrow> bool" where
  "prep h up prev [] \<longleftrightarrow> up = None"
| "prep h up prev ((s, a, t) # p) \<longleftrightarrow> up = Some a \<and>
     (\<exists>b. h a = Some b \<and> link s b = prev \<and> rep h (Some a) (link (opp s) b) t \<and> prep h (uplink b) (Some a) p)"

fun path_list :: "path \<Rightarrow> nat list" where
  "path_list [] = []"
| "path_list ((s, a, t) # p) = a # inorder t @ path_list p"

text \<open>What stands before and behind the block in order.\<close>

fun beside :: "side \<Rightarrow> path \<Rightarrow> nat list" where
  "beside s [] = []"
| "beside s ((s1, a, t) # p) = (if s1 = s then beside s p else cat s (beside s p) (cat s (inorder t) [a]))"

lemma prep_cong: "\<forall>x\<in>set (path_list p). h' x = h x \<Longrightarrow> prep h' up prev p = prep h up prev p"
proof (induction p arbitrary: up prev)
  case (Cons f p)
  obtain s a t where f: "f = (s, a, t)" by (cases f)
  have "rep h' u v t = rep h u v t" for u v
    using Cons.prems f by (intro rep_cong) auto
  then show ?case using Cons f by simp
qed simp

lemma prep_frame: "prep h up prev p \<Longrightarrow> (\<And>x. x \<in> set (path_list p) \<Longrightarrow> h' x = h x) \<Longrightarrow> prep h' up prev p"
  using prep_cong [of p h' h] by blast

lemma prep_other_link:
  assumes "prep h up (Some x) ((s, a, t) # p)" "x \<notin> set_tree t" "h a = Some b"
  shows "link s1 b = Some x \<longleftrightarrow> s1 = s"
proof (cases "s1 = s")
  case False
  then have "s1 = opp s" by (cases s; cases s1) auto
  then show ?thesis using assms rep_link_in [of h "Some a" "link (opp s) b" t x] by auto
qed (use assms in auto)

lemma reparent_ok:
  assumes p: "prep h up (Some b) p" and d: "b \<notin> set (path_list p)" "distinct (path_list p)"
  shows "\<exists>h' r. (if up = None then Inr (h, q\<lparr>root := Some a\<rparr>)
        else res_bind (deref h up) (\<lambda>w.
               res_bind (update h up (set_link (if link s w = Some b then s else opp s) (Some a)))
                 (\<lambda>h. Inr (h, q)))) = Inr (h', q\<lparr>root := r\<rparr>)
    \<and> prep h' up (Some a) p \<and> payload h' = payload h \<and> (\<forall>x. x \<notin> set (path_list p) \<longrightarrow> h' x = h x)"
proof (cases p)
  case (Cons f p')
  obtain s2 c t where f: "f = (s2, c, t)" by (cases f)
  obtain w where w: "h c = Some w" "up = Some c" "link s2 w = Some b" "rep h (Some c) (link (opp s2) w) t"
      "prep h (uplink w) (Some c) p'"
    using p Cons f by auto
  have "link s w = Some b \<longleftrightarrow> s = s2"
    using prep_other_link [of h up b s2 c t p' w s] p d w(1) Cons f by auto
  then have side: "(if link s w = Some b then s else opp s) = s2"
    by (cases s; cases s2) auto
  let ?h = "h(c \<mapsto> set_link s2 (Some a) w)"
  have "rep ?h (Some c) (link (opp s2) w) t" using w(4) d Cons f by (auto intro: rep_frame)
  moreover have "prep ?h (uplink w) (Some c) p'" using w(5) d Cons f by (auto intro: prep_frame)
  ultimately have "prep ?h up (Some a) p" using w Cons f by simp
  then show ?thesis
    using w side Cons f by (intro exI [of _ ?h] exI [of _ "root q"]) auto
qed (use p in \<open>auto intro: exI [of _ h]\<close>)

lemma splay_rotate_ok:
  assumes a: "h a = Some u" and b: "h b = Some v" and lv: "link s v = Some a"
    and t: "rep h (Some a) (link (opp s) u) t" and w: "rep h (Some b) (link (opp s) v) w"
    and p: "prep h (uplink v) (Some b) p"
    and d: "distinct (a # b # inorder t @ inorder w @ path_list p)"
  shows "\<exists>h' u' r. splay_rotate h q s (Some a) (Some b) = Inr (h', q\<lparr>root := r\<rparr>, uplink v)
    \<and> h' a = Some u' \<and> rep h' (Some a) (link (opp s) u') (nd s t b w) \<and> prep h' (uplink v) (Some a) p
    \<and> payload h' = payload h
    \<and> (\<forall>x. x \<notin> {a, b} \<union> set_tree t \<union> set_tree w \<union> set (path_list p) \<longrightarrow> h' x = h x)"
proof -
  have dt: "distinct (inorder t)" "b \<notin> set_tree t" "a \<noteq> b" "a \<notin> set_tree t" using d by auto
  obtain h1 where h1: "attach h (Some b) s (link (opp s) u) = Inr h1" "rep h1 (Some b) (link (opp s) u) t"
      "h1 b = Some (set_link s (link (opp s) u) v)" "payload h1 = payload h"
      "\<forall>x. x \<noteq> b \<longrightarrow> x \<notin> set_tree t \<longrightarrow> h1 x = h x"
    using attach_rep [OF t dt(1) b dt(2), of s] by blast
  have w1: "rep h1 (Some b) (link (opp s) v) w" using w d h1(5) by (intro rep_frame [OF w]) auto
  have tb: "rep h1 (uplink v) (Some b) (nd s t b w)" using h1(2,3) w1 by (simp add: rep_nd)
  have a1: "h1 a = Some u" using h1(5) dt a by auto
  have d2: "distinct (inorder (nd s t b w))" "a \<notin> set_tree (nd s t b w)" using d by (auto simp: inorder_nd)
  obtain h2 where h2: "attach h1 (Some a) (opp s) (Some b) = Inr h2" "rep h2 (Some a) (Some b) (nd s t b w)"
      "h2 a = Some (set_link (opp s) (Some b) u)" "payload h2 = payload h1"
      "\<forall>x. x \<noteq> a \<longrightarrow> x \<notin> set_tree (nd s t b w) \<longrightarrow> h2 x = h1 x"
    using attach_rep [OF tb d2(1) a1 d2(2), of "opp s"] by blast
  have fr: "h2 x = h x" if "x \<notin> {a, b} \<union> set_tree t \<union> set_tree w" for x
    using that h1(5) h2(5) by auto
  have p2: "prep h2 (uplink v) (Some b) p" using d by (intro prep_frame [OF p] fr) auto
  obtain h3 r where h3: "(if uplink v = None then Inr (h2, q\<lparr>root := Some a\<rparr>)
        else res_bind (deref h2 (uplink v)) (\<lambda>w.
               res_bind (update h2 (uplink v) (set_link (if link s w = Some b then s else opp s) (Some a)))
                 (\<lambda>h. Inr (h, q)))) = Inr (h3, q\<lparr>root := r\<rparr>)"
      "prep h3 (uplink v) (Some a) p" "payload h3 = payload h2" "\<forall>x. x \<notin> set (path_list p) \<longrightarrow> h3 x = h2 x"
    using reparent_ok [OF p2, where q = q and a = a and s = s] d by auto
  let ?u = "set_up (uplink v) (set_link (opp s) (Some b) u)"
  let ?h = "h3(a \<mapsto> ?u)"
  have a3: "h3 a = Some (set_link (opp s) (Some b) u)" using h3(4) h2(3) d by auto
  have "rep ?h (Some a) (Some b) (nd s t b w)"
    using d h3(4) by (intro rep_frame [OF h2(2)]) auto
  moreover have "prep ?h (uplink v) (Some a) p"
    using d by (intro prep_frame [OF h3(2)]) auto
  moreover have "splay_rotate h q s (Some a) (Some b) = Inr (?h, q\<lparr>root := r\<rparr>, uplink v)"
    using a b h1(1) h2(1) h3(1) a3 by (simp add: splay_rotate_def Let_def)
  moreover have "\<forall>x. x \<notin> {a, b} \<union> set_tree t \<union> set_tree w \<union> set (path_list p) \<longrightarrow> ?h x = h x"
    using h3(4) fr by auto
  ultimately show ?thesis using a3 h1(4) h2(4) h3(3) by (intro exI [of _ ?h]) auto
qed

text \<open>A branch moves the first one or two blocks of the path to the other side.\<close>

lemma splay_branch_ok:
  assumes a: "h a = Some u" and t: "rep h (Some a) (link (opp s) u) t" and p: "prep h (uplink u) (Some a) p"
    and acc: "rep h y acc tacc"
    and d: "distinct (a # inorder t @ path_list p @ inorder tacc)"
  shows "\<exists>h' q' upup p' t'. splay_branch h q s (Some a) (uplink u) acc = Inr (h', q', upup)
    \<and> prep h' upup (Some a) p' \<and> (\<exists>y. rep h' y (Some a) t') \<and> beside s p' = beside s p
    \<and> cat (opp s) (beside (opp s) p') (inorder t')
        = cat (opp s) (beside (opp s) ((s, a, t) # p)) (inorder tacc)
    \<and> mset (path_list p' @ inorder t') = mset (a # inorder t @ path_list p @ inorder tacc)
    \<and> length p' \<le> length p \<and> payload h' = payload h \<and> eltscnt q' = eltscnt q \<and> symbols q' = symbols q
    \<and> (\<forall>x. x \<notin> set (a # inorder t @ path_list p @ inorder tacc) \<longrightarrow> h' x = h x)"
proof (cases "\<exists>b w p1. p = (s, b, w) # p1")
  case True
  then obtain b w p1 where p1: "p = (s, b, w) # p1" by blast
  then obtain v where v: "h b = Some v" "uplink u = Some b" "link s v = Some a"
      "rep h (Some b) (link (opp s) v) w" "prep h (uplink v) (Some b) p1"
    using p by auto
  have d1: "distinct (a # b # inorder t @ inorder w @ path_list p1)" using d p1 by auto
  obtain h1 u' r where h1: "splay_rotate h q s (Some a) (Some b) = Inr (h1, q\<lparr>root := r\<rparr>, uplink v)"
      "h1 a = Some u'" "rep h1 (Some a) (link (opp s) u') (nd s t b w)" "prep h1 (uplink v) (Some a) p1"
      "payload h1 = payload h" "\<forall>x. x \<notin> {a, b} \<union> set_tree t \<union> set_tree w \<union> set (path_list p1) \<longrightarrow> h1 x = h x"
    using splay_rotate_ok [OF a v(1,3) t v(4,5) d1, of q] by blast
  have acc1: "rep h1 y acc tacc" using d p1 h1(6) by (intro rep_frame [OF acc]) auto
  obtain h2 where h2: "attach h1 (Some a) s acc = Inr h2" "rep h2 (Some a) acc tacc"
      "h2 a = Some (set_link s acc u')" "payload h2 = payload h1"
      "\<forall>x. x \<noteq> a \<longrightarrow> x \<notin> set_tree tacc \<longrightarrow> h2 x = h1 x"
    using attach_rep [OF acc1 _ h1(2), of s] d by auto
  have "rep h2 (Some a) (link (opp s) u') (nd s t b w)"
    using d p1 h2(5) by (intro rep_frame [OF h1(3)]) auto
  then have "rep h2 (uplink u') (Some a) (nd s tacc a (nd s t b w))" using h2(2,3) by (simp add: rep_nd)
  moreover have "prep h2 (uplink v) (Some a) p1"
    using d p1 h2(5) by (intro prep_frame [OF h1(4)]) auto
  moreover have "splay_branch h q s (Some a) (uplink u) acc = Inr (h2, q\<lparr>root := r\<rparr>, uplink v)"
    using v h1(1) h2(1) by (simp add: splay_branch_def)
  moreover have "\<forall>x. x \<notin> set (a # inorder t @ path_list p @ inorder tacc) \<longrightarrow> h2 x = h x"
    using p1 h1(6) h2(5) by auto
  ultimately show ?thesis
    using p1 h1(5) h2(4) by (intro exI [of _ h2] exI [of _ "q\<lparr>root := r\<rparr>"] exI [of _ "uplink v"] exI [of _ p1]
        exI [of _ "nd s tacc a (nd s t b w)"]) (cases s; auto simp: inorder_nd)
next
  case False
  obtain h2 where h2: "attach h (Some a) s acc = Inr h2" "rep h2 (Some a) acc tacc"
      "h2 a = Some (set_link s acc u)" "payload h2 = payload h"
      "\<forall>x. x \<noteq> a \<longrightarrow> x \<notin> set_tree tacc \<longrightarrow> h2 x = h x"
    using attach_rep [OF acc _ a, of s] d by auto
  have "splay_branch h q s (Some a) (uplink u) acc = Inr (h2, q, uplink u)"
  proof (cases p)
    case Nil
    then show ?thesis using p h2(1) by (simp add: splay_branch_def)
  next
    case (Cons f p1)
    obtain s2 b w where f: "f = (s2, b, w)" by (cases f)
    obtain v where v: "h b = Some v" "uplink u = Some b" using p Cons f by auto
    have "link s v \<noteq> Some a"
      using prep_other_link [of h "uplink u" a s2 b w p1 v s] p Cons f v d False by auto
    then show ?thesis using v h2(1) by (simp add: splay_branch_def)
  qed
  moreover have "rep h2 (Some a) (link (opp s) u) t"
    using d h2(5) by (intro rep_frame [OF t]) auto
  then have "rep h2 (uplink u) (Some a) (nd s tacc a t)" using h2(2,3) by (simp add: rep_nd)
  moreover have "prep h2 (uplink u) (Some a) p"
    using d h2(5) by (intro prep_frame [OF p]) auto
  ultimately show ?thesis
    using h2(4,5) by (intro exI [of _ h2] exI [of _ q] exI [of _ "uplink u"] exI [of _ p]
        exI [of _ "nd s tacc a t"]) (cases s; auto simp: inorder_nd)
qed

subsection \<open>The loop and the whole splay\<close>

lemma mset_same: "mset xs = mset ys \<Longrightarrow> set xs = set ys \<and> distinct xs = distinct ys"
  by (metis mset_eq_imp_distinct_iff set_mset_mset)

lemma splay_loop_ok:
  assumes "prep h up (Some n) p" "n \<notin> set (path_list p)"
    and "rep h y1 leftp lt" "rep h y2 rightp rt" "distinct (path_list p @ inorder lt @ inorder rt)"
  shows "\<exists>h' q' leftp' rightp' lt' rt' y1' y2'. splay_loop h q (Some n) up leftp rightp = Some (Inr (h', q', leftp', rightp'))
    \<and> rep h' y1' leftp' lt' \<and> rep h' y2' rightp' rt'
    \<and> inorder lt' = beside Lft p @ inorder lt \<and> inorder rt' = inorder rt @ beside Rgt p
    \<and> payload h' = payload h \<and> eltscnt q' = eltscnt q \<and> symbols q' = symbols q
    \<and> (\<forall>x. x \<notin> set (path_list p @ inorder lt @ inorder rt) \<longrightarrow> h' x = h x)"
  using assms
proof (induction "length p" arbitrary: p h q up n y1 y2 leftp rightp lt rt rule: less_induct)
  case less
  show ?case
  proof (cases p)
    case Nil
    then show ?thesis using less.prems by (subst splay_loop.simps) auto
  next
    case (Cons f p0)
    obtain s a t where f: "f = (s, a, t)" by (cases f)
    obtain u where u: "up = Some a" "h a = Some u" "link s u = Some n" "rep h (Some a) (link (opp s) u) t"
        "prep h (uplink u) (Some a) p0"
      using less.prems(1) Cons f by auto
    have side: "leftlink u = Some n \<longleftrightarrow> s = Lft"
      using prep_other_link [of h up n s a t p0 u Lft] less.prems(1,2) Cons f u(2) by auto
    define q0 where "q0 = q\<lparr>splayloops := splayloops q + 1\<rparr>"
    define acc tacc oth where "acc = (if s = Lft then rightp else leftp)"
      and "tacc = (if s = Lft then rt else lt)" and "oth = (if s = Lft then lt else rt)"
    have racc: "\<exists>y. rep h y acc tacc" using less.prems(3,4) by (auto simp: acc_def tacc_def)
    have d: "distinct (a # inorder t @ path_list p0 @ inorder tacc)"
      "set (a # inorder t @ path_list p0 @ inorder tacc) \<inter> set_tree oth = {}"
      using less.prems(5) Cons f by (auto simp: tacc_def oth_def)
    obtain h1 q1 upup p1 t1 y where b: "splay_branch h q0 s (Some a) (uplink u) acc = Inr (h1, q1, upup)"
        "prep h1 upup (Some a) p1" "rep h1 y (Some a) t1" "beside s p1 = beside s p0"
        "cat (opp s) (beside (opp s) p1) (inorder t1) = cat (opp s) (beside (opp s) ((s, a, t) # p0)) (inorder tacc)"
        "mset (path_list p1 @ inorder t1) = mset (a # inorder t @ path_list p0 @ inorder tacc)"
        "length p1 \<le> length p0" "payload h1 = payload h" "eltscnt q1 = eltscnt q0" "symbols q1 = symbols q0"
        "\<forall>x. x \<notin> set (a # inorder t @ path_list p0 @ inorder tacc) \<longrightarrow> h1 x = h x"
      using splay_branch_ok [OF u(2,4,5) _ d(1), of _ acc q0] racc by blast
    have m: "set (path_list p1 @ inorder t1) = set (a # inorder t @ path_list p0 @ inorder tacc)"
        "distinct (path_list p1 @ inorder t1)"
      using mset_same [OF b(6)] d(1) by auto
    have "a \<in> set_tree t1" using b(3) rep_SomeD by blast
    then have a1: "a \<notin> set (path_list p1)" using m(2) by auto
    have roth: "rep h1 z r oth" if "rep h z r oth" for z r
      using d(2) b(11) by (intro rep_frame [OF that]) auto
    have fin: "\<forall>x. x \<notin> set (path_list p @ inorder lt @ inorder rt) \<longrightarrow>
        x \<notin> set (path_list p1 @ inorder t1) \<and> x \<notin> set_tree oth \<and> h1 x = h x"
      unfolding m(1) using b(11) Cons f by (auto simp: tacc_def oth_def)
    have dd: "distinct (path_list p1 @ inorder t1 @ inorder oth)"
    proof -
      have "set (path_list p1 @ inorder t1) \<inter> set_tree oth = {}" unfolding m(1) by (rule d(2))
      moreover have "distinct (inorder oth)" using less.prems(5) by (simp add: oth_def)
      ultimately show ?thesis using m(2) by auto
    qed
    have len: "length p1 < length p" using b(7) Cons by simp
    show ?thesis
    proof (cases s)
      case Lft
      have step: "splay_loop h q (Some n) up leftp rightp = splay_loop h1 q1 (Some a) upup leftp (Some a)"
        using u side Lft b(1) by (subst splay_loop.simps) (simp add: q0_def acc_def)
      have "rep h1 y1 leftp lt" using roth less.prems(3) Lft by (simp add: oth_def)
      moreover have "distinct (path_list p1 @ inorder lt @ inorder t1)" using dd Lft by (auto simp: oth_def)
      ultimately show ?thesis
        using less.hyps [OF len b(2) a1 _ b(3), of y1 leftp lt q1] Cons f Lft b(4,5,8-10) fin unfolding step
        by (fastforce simp: q0_def tacc_def oth_def)
    next
      case Rgt
      have step: "splay_loop h q (Some n) up leftp rightp = splay_loop h1 q1 (Some a) upup (Some a) rightp"
        using u side Rgt b(1) by (subst splay_loop.simps) (simp add: q0_def acc_def)
      have "rep h1 y2 rightp rt" using roth less.prems(4) Rgt by (simp add: oth_def)
      moreover have "distinct (path_list p1 @ inorder t1 @ inorder rt)" using dd Rgt by (auto simp: oth_def)
      ultimately show ?thesis
        using less.hyps [OF len b(2) a1 b(3), of y2 rightp rt q1] Cons f Rgt b(4,5,8-10) fin unfolding step
        by (fastforce simp: q0_def tacc_def oth_def)
    qed
  qed
qed

lemma find_path:
  assumes "rep h up q t" "prep h up q p" "n \<in> set_tree t"
  shows "\<exists>p' b l r. h n = Some b \<and> rep h (Some n) (leftlink b) l \<and> rep h (Some n) (rightlink b) r
    \<and> prep h (uplink b) (Some n) p'
    \<and> beside Lft p' @ inorder l @ n # inorder r @ beside Rgt p' = beside Lft p @ inorder t @ beside Rgt p
    \<and> mset (path_list p' @ n # inorder l @ inorder r) = mset (path_list p @ inorder t)"
  using assms
proof (induction t arbitrary: up q p)
  case (Node l a r)
  then obtain b where b: "h a = Some b" "q = Some a" "uplink b = up" "rep h (Some a) (leftlink b) l"
      "rep h (Some a) (rightlink b) r"
    by (auto split: option.splits)
  consider "n = a" | "n \<in> set_tree l" | "n \<in> set_tree r" using Node.prems(3) by auto
  then show ?case
  proof cases
    case 1
    then show ?thesis using b Node.prems(2) by (intro exI [of _ p] exI [of _ b]) auto
  next
    case 2
    have "prep h (Some a) (leftlink b) ((Lft, a, r) # p)" using b Node.prems(2) by simp
    from Node.IH(1) [OF b(4) this 2] show ?thesis by (elim ex_forward) (simp add: ac_simps)
  next
    case 3
    have "prep h (Some a) (rightlink b) ((Rgt, a, l) # p)" using b Node.prems(2) by simp
    from Node.IH(2) [OF b(5) this 3] show ?thesis by (elim ex_forward) (simp add: ac_simps)
  qed
qed simp

text \<open>Splaying a block of a tree makes it the root and keeps the order, the keys and the data.\<close>

lemma splay_correct:
  assumes t: "rep h None (root q) t" and d: "distinct (inorder t)" and n: "n \<in> set_tree t"
  shows "\<exists>h' q' l r. splay h (Some n) q = Some (Inr (h', q')) \<and> rep h' None (root q') (Node l n r)
    \<and> root q' = Some n \<and> inorder (Node l n r) = inorder t \<and> payload h' = payload h
    \<and> eltscnt q' = eltscnt q \<and> symbols q' = symbols q \<and> (\<forall>x. x \<notin> set_tree t \<longrightarrow> h' x = h x)"
proof -
  obtain p b l r where p: "h n = Some b" "rep h (Some n) (leftlink b) l" "rep h (Some n) (rightlink b) r"
      "prep h (uplink b) (Some n) p"
      "beside Lft p @ inorder l @ n # inorder r @ beside Rgt p = inorder t"
      "mset (path_list p @ n # inorder l @ inorder r) = mset (inorder t)"
    using find_path [OF t _ n, of "[]"] by auto
  have m: "insert n (set (path_list p @ inorder l @ inorder r)) = set_tree t"
      "distinct (path_list p @ n # inorder l @ inorder r)"
    using mset_same [OF p(6)] d by auto
  let ?q = "q\<lparr>splays := splays q + 1\<rparr>"
  obtain h1 q1 lp rp l1 r1 y1 y2 where h1: "splay_loop h ?q (Some n) (uplink b) (leftlink b) (rightlink b) = Some (Inr (h1, q1, lp, rp))"
      "rep h1 y1 lp l1" "rep h1 y2 rp r1" "inorder l1 = beside Lft p @ inorder l" "inorder r1 = inorder r @ beside Rgt p"
      "payload h1 = payload h" "eltscnt q1 = eltscnt q" "symbols q1 = symbols q"
      "\<forall>x. x \<notin> set (path_list p @ inorder l @ inorder r) \<longrightarrow> h1 x = h x"
    using splay_loop_ok [OF p(4) _ p(2,3), of ?q] m(2) by auto
  have ord: "inorder l1 @ n # inorder r1 = inorder t" using h1(4,5) p(5) by simp
  then have d1: "distinct (inorder l1)" "distinct (inorder r1)" "n \<notin> set_tree l1" "n \<notin> set_tree r1"
      "set_tree l1 \<inter> set_tree r1 = {}" "insert n (set_tree l1 \<union> set_tree r1) = set_tree t"
  proof -
    have "distinct (inorder l1 @ n # inorder r1)" "set (inorder l1 @ n # inorder r1) = set_tree t"
      unfolding ord using d by simp_all
    then show "distinct (inorder l1)" "distinct (inorder r1)" "n \<notin> set_tree l1" "n \<notin> set_tree r1"
      "set_tree l1 \<inter> set_tree r1 = {}" "insert n (set_tree l1 \<union> set_tree r1) = set_tree t"
      by auto
  qed
  let ?h2 = "h1(n \<mapsto> set_link Rgt rp (set_link Lft lp b))"
  have n1: "h1 n = Some b" using h1(9) m p(1) by auto
  have "rep ?h2 y1 lp l1" "rep ?h2 y2 rp r1"
    using d1 by (auto intro!: rep_frame [OF h1(2)] rep_frame [OF h1(3)])
  note reps = this
  obtain h3 where h3: "relink_up ?h2 lp (Some n) = Inr h3" "rep h3 (Some n) lp l1"
      "\<forall>x. x \<notin> set_tree l1 \<longrightarrow> h3 x = ?h2 x" "payload h3 = payload ?h2"
    using relink_up_rep [OF reps(1) d1(1)] by blast
  have "rep h3 y2 rp r1" using d1 h3(3) by (intro rep_frame [OF reps(2)]) auto
  then obtain h4 where h4: "relink_up h3 rp (Some n) = Inr h4" "rep h4 (Some n) rp r1"
      "\<forall>x. x \<notin> set_tree r1 \<longrightarrow> h4 x = h3 x" "payload h4 = payload h3"
    using relink_up_rep [OF _ d1(2)] by blast
  have n4: "h4 n = Some (set_link Rgt rp (set_link Lft lp b))" using h3(3) h4(3) d1 by auto
  let ?b = "set_up None (set_link Rgt rp (set_link Lft lp b))"
  let ?h5 = "h4(n \<mapsto> ?b)"
  have "rep h4 (Some n) lp l1" using d1 h4(3) by (intro rep_frame [OF h3(2)]) auto
  then have "rep ?h5 (Some n) lp l1" "rep ?h5 (Some n) rp r1"
    using d1 h4(2) by (auto intro: rep_frame)
  then have "rep ?h5 None (Some n) (Node l1 n r1)" by (simp add: set_up_def)
  moreover have "splay h (Some n) q = Some (Inr (?h5, q1\<lparr>root := Some n\<rparr>))"
    using p(1) h1(1) n1 h3(1) h4(1) n4 by (simp add: splay_def)
  moreover have "payload ?h5 = payload h"
    using h4(4) h3(4) h1(6) n1 n4 by simp
  moreover have "?h5 x = h x" if "x \<notin> set_tree t" for x
  proof -
    have "x \<noteq> n" "x \<notin> set_tree l1" "x \<notin> set_tree r1" using that d1(6) by blast+
    moreover have "x \<notin> set (path_list p @ inorder l @ inorder r)" using that m(1) by blast
    ultimately show ?thesis using h1(9) h3(3) h4(3) by simp
  qed
  ultimately show ?thesis
    using ord h1(7,8) by (intro exI [of _ ?h5] exI [of _ "q1\<lparr>root := Some n\<rparr>"] exI [of _ l1] exI [of _ r1]) auto
qed

end
