(* ===== verification/Spenq.thy ===== *)
theory Spenq
  imports Splay
begin

section \<open>Inserting a block (\<open>_sp_enq\<close> in \<open>splay.c\<close>)\<close>

text \<open>
  \<open>_sp_enq\<close> splits the tree at the key of the new block from the root down, hanging the parts
  under the block's own links, which it exchanges at the end. The labels \<open>one\<close> and \<open>two\<close> are
  mirror images: \<open>w\<close> is the direction of the walk, \<open>Rgt\<close> at \<open>one\<close> (\<open>near\<close> is \<open>left\<close>, \<open>far\<close> is
  \<open>right\<close>) and \<open>Lft\<close> at \<open>two\<close> (the other way round).
\<close>

text \<open>\<open>SORTED(k, key)\<close> at \<open>one\<close>, \<open>!SORTED(k, key)\<close> at \<open>two\<close>\<close>

definition goes :: "side \<Rightarrow> u32 \<Rightarrow> u32 \<Rightarrow> bool" where
  "goes w k0 k \<longleftrightarrow> (if w = Rgt then k < k0 else \<not> k < k0)"

text \<open>One turn of a loop; the last part is \<open>None\<close> at \<open>done\<close>, or the next state.\<close>

definition enq_turn ::
  "heap \<Rightarrow> sptree \<Rightarrow> u32 \<Rightarrow> side \<Rightarrow> ptr \<Rightarrow> ptr \<Rightarrow> ptr \<Rightarrow>
    (heap \<times> sptree \<times> (side \<times> ptr \<times> ptr \<times> ptr) option) res"
where
  "enq_turn h q k0 w near far nxt =
     res_bind (deref h nxt) (\<lambda>b.
       let temp = link w b in
       if temp = None then
         res_bind (attach h near w nxt) (\<lambda>h.
         res_bind (update h far (set_link (opp w) None)) (\<lambda>h. Inr (h, q, None)))
       else
         res_bind (deref h temp) (\<lambda>c.
           let q = q\<lparr>enqcmps := enqcmps q + 1\<rparr> in
           if \<not> goes w k0 (key c) then
             res_bind (attach h near w nxt) (\<lambda>h. Inr (h, q, Some (opp w, far, nxt, temp)))
           else
             res_bind (attach h nxt w (link (opp w) c)) (\<lambda>h.
             res_bind (attach h near w temp) (\<lambda>h.
             res_bind (attach h temp (opp w) nxt) (\<lambda>h.
             res_bind (deref h temp) (\<lambda>c.
               let nxt = link w c in
               if nxt = None then
                 res_bind (update h far (set_link (opp w) None)) (\<lambda>h. Inr (h, q, None))
               else
                 res_bind (deref h nxt) (\<lambda>d.
                   let q = q\<lparr>enqcmps := enqcmps q + 1\<rparr> in
                   if goes w k0 (key d) then Inr (h, q, Some (w, temp, far, nxt))
                   else Inr (h, q, Some (opp w, far, temp, nxt)))))))))"

partial_function (option) enq_loop ::
  "heap \<Rightarrow> sptree \<Rightarrow> u32 \<Rightarrow> side \<Rightarrow> ptr \<Rightarrow> ptr \<Rightarrow> ptr \<Rightarrow> (heap \<times> sptree) res option"
where
  "enq_loop h q k0 w near far nxt =
     (case enq_turn h q k0 w near far nxt of
        Inl e \<Rightarrow> Some (Inl e)
      | Inr (h1, q1, r) \<Rightarrow>
          (case r of None \<Rightarrow> Some (Inr (h1, q1))
           | Some (w1, near1, far1, nxt1) \<Rightarrow> enq_loop h1 q1 k0 w1 near1 far1 nxt1))"

definition sp_enq :: "heap \<Rightarrow> ptr \<Rightarrow> sptree \<Rightarrow> (heap \<times> sptree \<times> ptr) res option" where
  "sp_enq h n q =
     (let q1 = q\<lparr>enqs := enqs q + 1, root := n\<rparr> in
      case update h n (set_up None) of
        Inl e \<Rightarrow> Some (Inl e)
      | Inr h1 \<Rightarrow>
          if root q = None then
            Some (res_bind (update h1 n (set_link Lft None)) (\<lambda>h.
                  res_bind (update h n (set_link Rgt None)) (\<lambda>h. Inr (h, q1, n))))
          else (case deref h1 n of Inl e \<Rightarrow> Some (Inl e) | Inr b \<Rightarrow>
            (case deref h1 (root q) of Inl e \<Rightarrow> Some (Inl e) | Inr r \<Rightarrow>
              (case enq_loop h1 (q1\<lparr>enqcmps := enqcmps q1 + 1\<rparr>) (key b)
                      (if key r < key b then Rgt else Lft) n n (root q) of
                 None \<Rightarrow> None
               | Some (Inl e) \<Rightarrow> Some (Inl e)
               | Some (Inr (h2, q2)) \<Rightarrow>
                   Some (res_bind (deref h2 n) (\<lambda>b.
                     res_bind (update h2 n (set_link Lft (rightlink b))) (\<lambda>h.
                     res_bind (update h n (set_link Rgt (leftlink b))) (\<lambda>h. Inr (h, q2, n)))))))))"

subsection \<open>A tree under construction\<close>

text \<open>
  The part on one side hangs under \<open>n\<close> along the links \<open>w\<close>; its last block \<open>y\<close> (which is \<open>n\<close>
  at first) has a link \<open>w\<close> that is still to be filled. The list goes from \<open>y\<close> up.
\<close>

type_synonym spine = "(nat \<times> nat tree) list"

fun spine_ok :: "heap \<Rightarrow> side \<Rightarrow> nat \<Rightarrow> nat \<Rightarrow> spine \<Rightarrow> bool" where
  "spine_ok h w n y [] \<longleftrightarrow> y = n"
| "spine_ok h w n y ((a, t) # fr) \<longleftrightarrow> y = a \<and>
     (\<exists>c z. h a = Some c \<and> rep h (Some a) (link (opp w) c) t \<and> uplink c = Some z
        \<and> spine_ok h w n z fr \<and> (\<exists>b. h z = Some b \<and> link w b = Some a))"

fun spine_list :: "side \<Rightarrow> spine \<Rightarrow> nat list" where
  "spine_list w [] = []"
| "spine_list w ((a, t) # fr) = cat (opp w) (spine_list w fr) (cat (opp w) (inorder t) [a])"

fun plug :: "side \<Rightarrow> nat tree \<Rightarrow> spine \<Rightarrow> nat tree" where
  "plug w t0 [] = t0"
| "plug w t0 ((a, t) # fr) = plug w (nd w t0 a t) fr"

lemma cat_opp: "cat (opp s) xs ys = cat s ys xs"
  by (cases s) auto

lemma inorder_plug: "inorder (plug w t0 fr) = cat (opp w) (spine_list w fr) (inorder t0)"
  by (induction fr arbitrary: t0) (auto simp: inorder_nd cat_assoc cat_opp)

lemma spine_end: "spine_ok h w n y fr \<Longrightarrow> y = n \<or> y \<in> set (spine_list w fr)"
  by (cases fr) auto

lemma spine_cong:
  assumes "\<forall>x\<in>set (spine_list w fr). h' x = h x" "map_option (link w) (h' n) = map_option (link w) (h n)"
  shows "spine_ok h' w n y fr = spine_ok h w n y fr"
  using assms
proof (induction fr arbitrary: y)
  case (Cons f fr)
  obtain a t where f: "f = (a, t)" by (cases f)
  have eq: "\<forall>x\<in>set_tree t. h' x = h x" "h' a = h a" "\<forall>x\<in>set (spine_list w fr). h' x = h x"
    using Cons.prems(1) unfolding f spine_list.simps set_cat set_inorder by simp_all
  have same: "rep h' u p t = rep h u p t" for u p
    by (rule rep_cong [OF eq(1)])
  have IH: "spine_ok h' w n z fr = spine_ok h w n z fr" for z
    by (rule Cons.IH [OF eq(3) Cons.prems(2)])
  have "(\<exists>b. h' z = Some b \<and> link w b = Some a) = (\<exists>b. h z = Some b \<and> link w b = Some a)"
    if "spine_ok h w n z fr" for z
  proof -
    have "map_option (link w) (h' z) = map_option (link w) (h z)"
      using spine_end [OF that] eq(3) Cons.prems(2) by auto
    then show ?thesis by (cases "h' z"; cases "h z") auto
  qed
  then show ?case by (simp add: f same eq(2) IH cong: conj_cong)
qed simp

lemma spine_frame:
  assumes "spine_ok h w n y fr" "\<And>x. x \<in> set (spine_list w fr) \<Longrightarrow> h' x = h x"
    and "map_option (link w) (h' n) = map_option (link w) (h n)"
  shows "spine_ok h' w n y fr"
  using assms spine_cong [of w fr h' h n y] by blast

text \<open>Filling the open link leaves the spine alone.\<close>

lemma spine_fill_end:
  assumes "spine_ok h w n y fr" "h y = Some b" "distinct (n # spine_list w fr)"
    and "h' y = Some (set_link w p b)" "\<And>x. x \<in> insert n (set (spine_list w fr)) - {y} \<Longrightarrow> h' x = h x"
  shows "spine_ok h' w n y fr"
proof (cases fr)
  case (Cons f fr1)
  obtain a t where f: "f = (a, t)" by (cases f)
  obtain z c where z: "y = a" "rep h (Some a) (link (opp w) b) t" "uplink b = Some z" "h z = Some c"
      "link w c = Some a" "spine_ok h w n z fr1"
    using assms(1,2) Cons f by auto
  have "z \<noteq> a" using spine_end [OF z(6)] assms(3) Cons f by auto
  moreover have "z \<in> insert n (set (spine_list w fr))" using spine_end [OF z(6)] Cons f by auto
  ultimately have hz: "h' z = Some c" using assms(5) z(1,4) by auto
  have "rep h' (Some a) (link (opp w) b) t" using assms(3,5) Cons f z(1) by (intro rep_frame [OF z(2)]) auto
  moreover have "spine_ok h' w n z fr1" using assms(3,5) Cons f z(1) by (intro spine_frame [OF z(6)]) auto
  ultimately show ?thesis using Cons f z hz assms(4) by auto
qed (use assms in auto)

lemma spine_close:
  assumes "spine_ok h w n y fr" "h y = Some b" "rep h (Some y) (link w b) t0"
  shows "\<exists>c. h n = Some c \<and> rep h (Some n) (link w c) (plug w t0 fr)"
  using assms
proof (induction fr arbitrary: y b t0)
  case (Cons f fr)
  obtain a t where f: "f = (a, t)" by (cases f)
  obtain z c where z: "y = a" "rep h (Some a) (link (opp w) b) t" "uplink b = Some z" "h z = Some c"
      "link w c = Some a" "spine_ok h w n z fr"
    using Cons.prems f by auto
  have "rep h (Some z) (link w c) (nd w t0 a t)" using z Cons.prems by (simp add: rep_nd)
  from Cons.IH [OF z(6,4) this] show ?case using f by simp
qed simp

text \<open>Hanging a tree at the end of one spine keeps both spines.\<close>

lemma attach_end:
  assumes sp: "spine_ok h w n y fr" and so: "spine_ok h (opp w) n z fo" and t: "rep h u p t"
    and d: "distinct (n # inorder t @ spine_list w fr @ spine_list (opp w) fo)" and n: "h n \<noteq> None"
  shows "\<exists>h' b. attach h (Some y) w p = Inr h' \<and> rep h' (Some y) p t \<and> h y = Some b \<and> h' y = Some (set_link w p b)
    \<and> spine_ok h' w n y fr \<and> spine_ok h' (opp w) n z fo \<and> payload h' = payload h
    \<and> (\<forall>x. x \<noteq> y \<longrightarrow> x \<notin> set_tree t \<longrightarrow> h' x = h x)
    \<and> map_option uplink (h' n) = map_option uplink (h n)"
proof -
  have y: "y = n \<or> y \<in> set (spine_list w fr)" by (rule spine_end [OF sp])
  obtain b where b: "h y = Some b" using sp n by (cases fr) auto
  have yt: "y \<notin> set_tree t" using y d by auto
  obtain h' where h': "attach h (Some y) w p = Inr h'" "rep h' (Some y) p t" "h' y = Some (set_link w p b)"
      "\<forall>x. x \<noteq> y \<longrightarrow> x \<notin> set_tree t \<longrightarrow> h' x = h x" "payload h' = payload h"
    using attach_rep [OF t _ b yt, of w] d by auto
  have "spine_ok h' w n y fr"
    by (rule spine_fill_end [where h = h and b = b and p = p]) (use sp b d h'(3,4) in auto)
  moreover have "spine_ok h' (opp w) n z fo"
  proof (rule spine_frame [OF so])
    show "h' x = h x" if "x \<in> set (spine_list (opp w) fo)" for x
      using that d y h'(4) by auto
    show "map_option (link (opp w)) (h' n) = map_option (link (opp w)) (h n)"
      using h'(3,4) b d by (cases "y = n") auto
  qed
  moreover have "map_option uplink (h' n) = map_option uplink (h n)"
    using h'(3,4) b d by (cases "y = n") auto
  ultimately show ?thesis using h' b by auto
qed

lemma attach_None: "attach h a s None = update h a (set_link s None)"
  by (cases "update h a (set_link s None)") (simp_all add: attach_def relink_up_def)

subsection \<open>The loop\<close>

text \<open>
  What holds at the labels; \<open>kf\<close> gives the keys. The part \<open>t\<close> still to be split is sorted, its
  root goes to the near side, and the blocks hung so far are on the right sides.
\<close>

definition enq_inv ::
  "heap \<Rightarrow> (nat \<Rightarrow> u32) \<Rightarrow> u32 \<Rightarrow> nat \<Rightarrow> side \<Rightarrow> nat \<Rightarrow> nat \<Rightarrow> nat \<Rightarrow> nat tree \<Rightarrow> spine \<Rightarrow> spine \<Rightarrow> bool"
where
  "enq_inv h kf k0 n w near far nxt t frn frf \<longleftrightarrow>
     (\<exists>u. rep h u (Some nxt) t) \<and> goes w k0 (kf nxt) \<and> spine_ok h w n near frn \<and> spine_ok h (opp w) n far frf
     \<and> distinct (n # inorder t @ spine_list w frn @ spine_list (opp w) frf) \<and> sorted (map kf (inorder t))
     \<and> (\<forall>a\<in>set (spine_list w frn). goes w k0 (kf a)) \<and> (\<forall>a\<in>set (spine_list (opp w) frf). goes (opp w) k0 (kf a))
     \<and> h n \<noteq> None \<and> (\<forall>a b. h a = Some b \<longrightarrow> key b = kf a)"

text \<open>All blocks in order, from the near side on.\<close>

definition comb :: "side \<Rightarrow> spine \<Rightarrow> nat tree \<Rightarrow> spine \<Rightarrow> nat list" where
  "comb w frn t frf = cat (opp w) (spine_list w frn) (cat (opp w) (inorder t) (spine_list (opp w) frf))"

lemma comb_swap: "comb (opp w) frf t frn = comb w frn t frf"
  by (cases w) (simp_all add: comb_def)

lemma goes_opp: "goes (opp w) k0 k \<longleftrightarrow> \<not> goes w k0 k"
  by (cases w) (auto simp: goes_def)

lemma sorted_goes:
  assumes "sorted (map kf (inorder (nd w x a y)))" "goes w k0 (kf a)" "b \<in> set_tree y"
  shows "goes w k0 (kf b)"
  using assms by (cases w) (auto simp: goes_def sorted_append)

lemma sorted_nd: "sorted (map kf (inorder (nd w x a y))) \<Longrightarrow> sorted (map kf (inorder x)) \<and> sorted (map kf (inorder y))"
  by (cases w) (auto simp: sorted_append)

lemma key_payload: "payload h' = payload h \<Longrightarrow> \<forall>a b. h a = Some b \<longrightarrow> key b = kf a \<Longrightarrow>
    \<forall>a b. h' a = Some b \<longrightarrow> key b = kf a"
  using payload_Some [of h h'] by (metis (full_types))

text \<open>The state at \<open>done\<close>: the smaller blocks hang under the right link of \<open>n\<close>, the others
  under the left one.\<close>

definition split_done :: "heap \<Rightarrow> (nat \<Rightarrow> u32) \<Rightarrow> u32 \<Rightarrow> nat \<Rightarrow> nat list \<Rightarrow> bool" where
  "split_done h kf k0 n xs \<longleftrightarrow> (\<exists>c tl tr. h n = Some c \<and> rep h (Some n) (rightlink c) tl
     \<and> rep h (Some n) (leftlink c) tr \<and> inorder tl @ inorder tr = xs
     \<and> (\<forall>a\<in>set_tree tl. kf a < k0) \<and> (\<forall>a\<in>set_tree tr. \<not> kf a < k0))"

lemma split_doneI:
  assumes "h n = Some c" "rep h (Some n) (link w c) tn" "rep h (Some n) (link (opp w) c) tf"
    and "\<forall>a\<in>set_tree tn. goes w k0 (kf a)" "\<forall>a\<in>set_tree tf. goes (opp w) k0 (kf a)"
    and "cat (opp w) (inorder tn) (inorder tf) = xs"
  shows "split_done h kf k0 n xs"
  using assms by (cases w) (fastforce simp: split_done_def goes_def)+

lemma spines_done:
  assumes "spine_ok h w n near frn" "spine_ok h (opp w) n far frf"
    and "h near = Some b" "rep h (Some near) (link w b) tn"
    and "h far = Some b'" "rep h (Some far) (link (opp w) b') tf"
    and "\<forall>a\<in>set (spine_list w frn) \<union> set_tree tn. goes w k0 (kf a)"
    and "\<forall>a\<in>set (spine_list (opp w) frf) \<union> set_tree tf. goes (opp w) k0 (kf a)"
  shows "split_done h kf k0 n (cat (opp w) (spine_list w frn) (cat (opp w) (inorder tn)
           (cat (opp w) (inorder tf) (spine_list (opp w) frf))))"
proof -
  obtain c where c: "h n = Some c" "rep h (Some n) (link w c) (plug w tn frn)"
    using spine_close [OF assms(1,3,4)] by blast
  moreover have "rep h (Some n) (link (opp w) c) (plug (opp w) tf frf)"
    using spine_close [OF assms(2,5,6)] c by auto
  moreover have "set_tree (plug w tn frn) = set (spine_list w frn) \<union> set_tree tn"
    "set_tree (plug (opp w) tf frf) = set (spine_list (opp w) frf) \<union> set_tree tf"
    by (simp_all flip: set_inorder add: inorder_plug)
  ultimately show ?thesis
    using assms(7,8) by (intro split_doneI) (auto simp: inorder_plug cat_opp cat_assoc)
qed

text \<open>What a turn leaves alone.\<close>

definition enq_keeps :: "heap \<Rightarrow> sptree \<Rightarrow> nat \<Rightarrow> nat list \<Rightarrow> heap \<Rightarrow> sptree \<Rightarrow> bool" where
  "enq_keeps h q n xs h' q' \<longleftrightarrow> payload h' = payload h \<and> map_option uplink (h' n) = map_option uplink (h n)
     \<and> root q' = root q \<and> eltscnt q' = eltscnt q \<and> symbols q' = symbols q
     \<and> (\<forall>x. x \<notin> insert n (set xs) \<longrightarrow> h' x = h x)"

lemma enq_keeps_trans:
  "enq_keeps h q n xs h1 q1 \<Longrightarrow> enq_keeps h1 q1 n xs h2 q2 \<Longrightarrow> enq_keeps h q n xs h2 q2"
  by (simp add: enq_keeps_def)

lemma enq_turn_end:
  assumes inv: "enq_inv h kf k0 n w near far nxt (nd w Leaf nxt ti) frn frf"
  shows "\<exists>h'. enq_turn h q k0 w (Some near) (Some far) (Some nxt) = Inr (h', q, None)
    \<and> split_done h' kf k0 n (comb w frn (nd w Leaf nxt ti) frf)
    \<and> enq_keeps h q n (comb w frn (nd w Leaf nxt ti) frf) h' q"
proof -
  let ?t = "nd w Leaf nxt ti"
  obtain u b where t: "rep h u (Some nxt) ?t" and b: "h nxt = Some b" "link w b = None"
    using inv by (auto simp: enq_inv_def rep_nd)
  have d: "distinct (n # inorder ?t @ spine_list w frn @ spine_list (opp w) frf)" and nn: "h n \<noteq> None"
    and so: "spine_ok h (opp w) n far frf"
    using inv by (simp_all add: enq_inv_def)
  obtain h1 b1 where h1: "attach h (Some near) w (Some nxt) = Inr h1" "rep h1 (Some near) (Some nxt) ?t"
      "h1 near = Some (set_link w (Some nxt) b1)" "spine_ok h1 w n near frn" "spine_ok h1 (opp w) n far frf"
      "payload h1 = payload h" "\<forall>x. x \<noteq> near \<longrightarrow> x \<notin> set_tree ?t \<longrightarrow> h1 x = h x"
      "map_option uplink (h1 n) = map_option uplink (h n)"
    using attach_end [OF _ so t d nn, of near] inv by (auto simp: enq_inv_def)
  have near: "near = n \<or> near \<in> set (spine_list w frn)" by (rule spine_end [OF h1(4)])
  have far: "far = n \<or> far \<in> set (spine_list (opp w) frf)" by (rule spine_end [OF h1(5)])
  have d2: "distinct (n # inorder Leaf @ spine_list (opp w) frf @ spine_list (opp (opp w)) frn)"
    and so2: "spine_ok h1 (opp (opp w)) n near frn" and n1: "h1 n \<noteq> None"
    using d h1(4,8) nn by auto
  obtain h2 b2 where h2: "attach h1 (Some far) (opp w) None = Inr h2" "h1 far = Some b2" "h2 far = Some (set_link (opp w) None b2)"
      "spine_ok h2 (opp w) n far frf" "spine_ok h2 w n near frn" "payload h2 = payload h1"
      "\<forall>x. x \<noteq> far \<longrightarrow> h2 x = h1 x" "map_option uplink (h2 n) = map_option uplink (h1 n)"
    using attach_end [OF h1(5) so2 _ d2 n1, of None None] by auto
  have "\<exists>b3. h2 near = Some b3 \<and> link w b3 = Some nxt"
    using h1(3) h2(2,3,7) by (cases "near = far") auto
  then obtain b3 where b3: "h2 near = Some b3" "link w b3 = Some nxt" by blast
  have "far \<notin> set_tree ?t" using far d by auto
  then have "rep h2 (Some near) (link w b3) ?t"
    unfolding b3(2) using h2(7) by (intro rep_frame [OF h1(2)]) auto
  moreover have "\<forall>a\<in>set (spine_list w frn) \<union> set_tree ?t. goes w k0 (kf a)"
    using inv sorted_goes [of kf w Leaf nxt ti k0] by (auto simp: enq_inv_def)
  moreover have "\<forall>a\<in>set (spine_list (opp w) frf) \<union> set_tree Leaf. goes (opp w) k0 (kf a)"
    using inv by (auto simp: enq_inv_def)
  ultimately have "split_done h2 kf k0 n (cat (opp w) (spine_list w frn) (cat (opp w) (inorder ?t)
           (cat (opp w) (inorder Leaf) (spine_list (opp w) frf))))"
    using b3(1) h2(3) by (intro spines_done [OF h2(5,4)]) auto
  then have "split_done h2 kf k0 n (comb w frn ?t frf)" by (simp add: comb_def)
  moreover have "enq_turn h q k0 w (Some near) (Some far) (Some nxt) = Inr (h2, q, None)"
    using b h1(1) h2(1) by (simp add: enq_turn_def attach_None)
  moreover have "h2 x = h x" if x: "x \<notin> insert n (set (comb w frn ?t frf))" for x
  proof -
    have "x \<noteq> near" "x \<noteq> far" using x near far by (auto simp: comb_def)
    then show ?thesis using x h1(7) h2(7) by (auto simp: comb_def)
  qed
  then have "enq_keeps h q n (comb w frn ?t frf) h2 q"
    using h1(6,8) h2(6,8) by (simp add: enq_keeps_def)
  ultimately show ?thesis by blast
qed

lemma enq_turn_switch:
  assumes inv: "enq_inv h kf k0 n w near far nxt (nd w t1 nxt ti) frn frf"
    and t1: "t1 = nd w x y z" and side: "\<not> goes w k0 (kf y)"
  shows "\<exists>h' q'. enq_turn h q k0 w (Some near) (Some far) (Some nxt)
      = Inr (h', q', Some (opp w, Some far, Some nxt, Some y))
    \<and> enq_inv h' kf k0 n (opp w) far nxt y t1 frf ((nxt, ti) # frn)
    \<and> enq_keeps h q n (comb w frn (nd w t1 nxt ti) frf) h' q'"
proof -
  let ?t = "nd w t1 nxt ti"
  obtain u b c where t: "rep h u (Some nxt) ?t" and b: "h nxt = Some b" "link w b = Some y"
      "rep h (Some nxt) (Some y) t1" "rep h (Some nxt) (link (opp w) b) ti" "h y = Some c"
    using inv t1 by (auto simp: enq_inv_def rep_nd)
  have d: "distinct (n # inorder ?t @ spine_list w frn @ spine_list (opp w) frf)" and nn: "h n \<noteq> None"
    and so: "spine_ok h (opp w) n far frf" and kf: "\<forall>a b. h a = Some b \<longrightarrow> key b = kf a"
    and srt: "sorted (map kf (inorder ?t))"
    using inv by (simp_all add: enq_inv_def)
  obtain h1 b1 where h1: "attach h (Some near) w (Some nxt) = Inr h1" "rep h1 (Some near) (Some nxt) ?t"
      "h1 near = Some (set_link w (Some nxt) b1)" "spine_ok h1 w n near frn" "spine_ok h1 (opp w) n far frf"
      "payload h1 = payload h" "\<forall>x. x \<noteq> near \<longrightarrow> x \<notin> set_tree ?t \<longrightarrow> h1 x = h x"
      "map_option uplink (h1 n) = map_option uplink (h n)"
    using attach_end [OF _ so t d nn, of near] inv by (auto simp: enq_inv_def)
  have near: "near = n \<or> near \<in> set (spine_list w frn)" by (rule spine_end [OF h1(4)])
  obtain b2 where b2: "h1 nxt = Some b2" "uplink b2 = Some near" "rep h1 (Some nxt) (link w b2) t1"
      "rep h1 (Some nxt) (link (opp w) b2) ti"
    using h1(2) by (auto simp: rep_nd)
  let ?q = "q\<lparr>enqcmps := enqcmps q + 1\<rparr>"
  have turn: "enq_turn h q k0 w (Some near) (Some far) (Some nxt)
      = Inr (h1, ?q, Some (opp w, Some far, Some nxt, Some y))"
    using b h1(1) side kf by (simp add: enq_turn_def Let_def)
  have "\<exists>v. rep h1 v (Some y) t1" using b2(3) by (cases t1; cases w) (auto simp: t1)
  moreover have "spine_ok h1 w n nxt ((nxt, ti) # frn)" using b2 h1(3,4) by simp
  moreover have "goes w k0 (kf a)" if "a \<in> insert nxt (set_tree ti \<union> set (spine_list w frn))" for a
    using that inv sorted_goes [OF srt] by (auto simp: enq_inv_def)
  moreover have "h1 n \<noteq> None" using h1(8) nn by auto
  ultimately have "enq_inv h1 kf k0 n (opp w) far nxt y t1 frf ((nxt, ti) # frn)"
    using inv side h1(5) d sorted_nd [OF srt] key_payload [OF h1(6) kf]
    by (auto simp: enq_inv_def goes_opp)
  moreover have "h1 x = h x" if x: "x \<notin> insert n (set (comb w frn ?t frf))" for x
  proof -
    have "x \<noteq> near" using x near by (auto simp: comb_def)
    then show ?thesis using x h1(7) by (auto simp: comb_def)
  qed
  then have "enq_keeps h q n (comb w frn ?t frf) h1 ?q"
    using h1(6,8) by (simp add: enq_keeps_def)
  ultimately show ?thesis using turn by blast
qed

text \<open>The rotation of a turn, up to the test at its end.\<close>

lemma enq_rotate:
  assumes inv: "enq_inv h kf k0 n w near far nxt (nd w t1 nxt ti) frn frf"
    and t1: "t1 = nd w x y z" and side: "goes w k0 (kf y)"
  shows "\<exists>b c h1 h2 h3 b3. h nxt = Some b \<and> link w b = Some y \<and> h y = Some c \<and> key c = kf y
    \<and> attach h (Some nxt) w (link (opp w) c) = Inr h1 \<and> attach h1 (Some near) w (Some y) = Inr h2
    \<and> attach h2 (Some y) (opp w) (Some nxt) = Inr h3 \<and> h3 y = Some b3
    \<and> rep h3 (Some y) (link w b3) x
    \<and> spine_ok h3 w n y ((y, nd w z nxt ti) # frn) \<and> spine_ok h3 (opp w) n far frf
    \<and> enq_keeps h q n (comb w frn (nd w t1 nxt ti) frf) h3 q"
proof -
  let ?t = "nd w t1 nxt ti"
  obtain u b c where t: "rep h u (Some nxt) ?t" and b: "h nxt = Some b" "uplink b = u" "link w b = Some y"
      "rep h (Some nxt) (link (opp w) b) ti" "h y = Some c"
      "rep h (Some y) (link w c) x" "rep h (Some y) (link (opp w) c) z"
    using inv t1 by (auto simp: enq_inv_def rep_nd)
  have d: "distinct (n # inorder ?t @ spine_list w frn @ spine_list (opp w) frf)" and nn: "h n \<noteq> None"
    and sn: "spine_ok h w n near frn" and so: "spine_ok h (opp w) n far frf"
    and kf: "\<forall>a b. h a = Some b \<longrightarrow> key b = kf a"
    using inv by (simp_all add: enq_inv_def)
  have near: "near = n \<or> near \<in> set (spine_list w frn)" by (rule spine_end [OF sn])
  have ne: "nxt \<noteq> y" "near \<noteq> nxt" "near \<noteq> y" "near \<notin> set_tree ?t" using near d t1 by auto
  obtain h1 where h1: "attach h (Some nxt) w (link (opp w) c) = Inr h1" "rep h1 (Some nxt) (link (opp w) c) z"
      "h1 nxt = Some (set_link w (link (opp w) c) b)" "\<forall>x. x \<noteq> nxt \<longrightarrow> x \<notin> set_tree z \<longrightarrow> h1 x = h x"
      "payload h1 = payload h"
    using attach_rep [OF b(7) _ b(1), of w] d t1 by auto
  have sn1: "spine_ok h1 w n near frn" and so1: "spine_ok h1 (opp w) n far frf" and nn1: "h1 n \<noteq> None"
    using d h1(4) t1 nn by (auto intro!: spine_frame [OF sn] spine_frame [OF so])
  have ti1: "rep h1 (Some nxt) (link (opp w) b) ti" using d h1(4) t1 by (intro rep_frame [OF b(4)]) auto
  have x1: "rep h1 (Some y) (link w c) x" using d h1(4) t1 by (intro rep_frame [OF b(6)]) auto
  have y1: "h1 y = Some c" using d h1(4) t1 b(5) by auto
  have m1: "rep h1 u (Some nxt) (nd w z nxt ti)" using h1(2,3) ti1 b(2) by (simp add: rep_nd)
  obtain h2 where h2: "attach h1 (Some near) w (Some y) = Inr h2"
      "\<exists>b0. h1 near = Some b0 \<and> h2 near = Some (set_link w (Some y) b0)"
      "spine_ok h2 w n near frn" "spine_ok h2 (opp w) n far frf" "payload h2 = payload h1"
      "h2 y = Some (set_up (Some near) c)" "\<forall>x. x \<noteq> near \<longrightarrow> x \<noteq> y \<longrightarrow> h2 x = h1 x"
      "map_option uplink (h2 n) = map_option uplink (h1 n)"
  proof -
    obtain b0 where b0: "h1 near = Some b0" using sn1 nn1 by (cases frn) auto
    let ?h = "(h1(near \<mapsto> set_link w (Some y) b0))(y \<mapsto> set_up (Some near) c)"
    have "attach h1 (Some near) w (Some y) = Inr ?h"
      using b0 y1 ne by (simp add: attach_def relink_up_def)
    moreover have "spine_ok ?h w n near frn"
      using d t1 b0 ne by (intro spine_fill_end [where h = h1 and b = b0 and p = "Some y", OF sn1]) auto
    moreover have "spine_ok ?h (opp w) n far frf"
      using d t1 b0 ne near by (intro spine_frame [OF so1]) auto
    moreover have "map_option uplink (?h n) = map_option uplink (h1 n)"
      using d t1 b0 by auto
    ultimately show ?thesis using b0 y1 ne by (intro that [of ?h]) auto
  qed
  have m2: "rep h2 u (Some nxt) (nd w z nxt ti)" using d t1 ne h2(7) by (intro rep_frame [OF m1]) auto
  have x2: "rep h2 (Some y) (link w c) x" using d t1 ne h2(7) by (intro rep_frame [OF x1]) auto
  obtain h3 where h3: "attach h2 (Some y) (opp w) (Some nxt) = Inr h3" "rep h3 (Some y) (Some nxt) (nd w z nxt ti)"
      "h3 y = Some (set_link (opp w) (Some nxt) (set_up (Some near) c))"
      "\<forall>x. x \<noteq> y \<longrightarrow> x \<notin> set_tree (nd w z nxt ti) \<longrightarrow> h3 x = h2 x" "payload h3 = payload h2"
    using attach_rep [OF m2 _ h2(6), of "opp w"] d t1 by auto
  have sn3: "spine_ok h3 w n near frn" and so3: "spine_ok h3 (opp w) n far frf"
    using d h3(4) t1 by (auto intro!: spine_frame [OF h2(3)] spine_frame [OF h2(4)])
  have x3: "rep h3 (Some y) (link w c) x" using d t1 h3(4) by (intro rep_frame [OF x2]) auto
  have near3: "\<exists>b. h3 near = Some b \<and> link w b = Some y" using h2(2) h3(4) ne t1 by auto
  have "h3 v = h v" if v: "v \<notin> insert n (set (comb w frn ?t frf))" for v
  proof -
    have "v \<noteq> near" "v \<noteq> nxt" "v \<noteq> y" "v \<notin> set_tree z" "v \<notin> set_tree (nd w z nxt ti)"
      using v near t1 by (auto simp: comb_def)
    then show ?thesis using h1(4) h2(7) h3(4) by auto
  qed
  moreover have "h3 n = h2 n" "h1 n = h n" using d t1 h3(4) h1(4) by auto
  ultimately have "enq_keeps h q n (comb w frn ?t frf) h3 q"
    using h1(5) h2(5,8) h3(5) by (simp add: enq_keeps_def)
  then show ?thesis
    using b h1(1) h2(1) h3(1,2,3) x3 sn3 so3 near3 kf
    by (intro exI [of _ b] exI [of _ c] exI [of _ h1] exI [of _ h2] exI [of _ h3]
        exI [of _ "set_link (opp w) (Some nxt) (set_up (Some near) c)"]) auto
qed

lemma comb_rotate:
  "comb w ((y, nd w z a ti) # frn) x frf = comb w frn (nd w (nd w x y z) a ti) frf"
  by (simp add: comb_def inorder_nd cat_opp cat_assoc)

lemma enq_turn_rotate:
  assumes inv: "enq_inv h kf k0 n w near far nxt (nd w t1 nxt ti) frn frf"
    and t1: "t1 = nd w x y z" and side: "goes w k0 (kf y)"
  shows "\<exists>h' q' r. enq_turn h q k0 w (Some near) (Some far) (Some nxt) = Inr (h', q', r)
    \<and> enq_keeps h q n (comb w frn (nd w t1 nxt ti) frf) h' q'
    \<and> (if x = Leaf then r = None \<and> split_done h' kf k0 n (comb w frn (nd w t1 nxt ti) frf)
       else \<exists>w' near' far' nxt' fr1 fr2. r = Some (w', Some near', Some far', Some nxt')
         \<and> enq_inv h' kf k0 n w' near' far' nxt' x fr1 fr2
         \<and> comb w' fr1 x fr2 = comb w frn (nd w t1 nxt ti) frf)"
proof -
  let ?t = "nd w t1 nxt ti" and ?fr = "(y, nd w z nxt ti) # frn"
  obtain b c h1 h2 h3 b3 where b: "h nxt = Some b" "link w b = Some y" "h y = Some c" "key c = kf y"
      "attach h (Some nxt) w (link (opp w) c) = Inr h1" "attach h1 (Some near) w (Some y) = Inr h2"
      "attach h2 (Some y) (opp w) (Some nxt) = Inr h3" "h3 y = Some b3" "rep h3 (Some y) (link w b3) x"
      "spine_ok h3 w n y ?fr" "spine_ok h3 (opp w) n far frf"
      "enq_keeps h q n (comb w frn ?t frf) h3 q"
    using enq_rotate [OF inv t1 side, of q] by blast
  have d: "distinct (n # inorder ?t @ spine_list w frn @ spine_list (opp w) frf)" and nn: "h n \<noteq> None"
    and kf: "\<forall>a b. h a = Some b \<longrightarrow> key b = kf a" and srt: "sorted (map kf (inorder ?t))"
    and gn: "goes w k0 (kf nxt)" "\<forall>a\<in>set (spine_list w frn). goes w k0 (kf a)"
    and gf: "\<forall>a\<in>set (spine_list (opp w) frf). goes (opp w) k0 (kf a)"
    using inv by (simp_all add: enq_inv_def)
  have srt1: "sorted (map kf (inorder t1))" using sorted_nd [OF srt] by simp
  have kf3: "\<forall>a b. h3 a = Some b \<longrightarrow> key b = kf a" and n3: "h3 n \<noteq> None"
    using b(12) key_payload [OF _ kf, of h3] nn by (auto simp: enq_keeps_def)
  have gfr: "\<forall>a\<in>set (spine_list w ?fr). goes w k0 (kf a)"
    using gn side sorted_goes [OF srt gn(1)] sorted_goes [OF srt1 [unfolded t1] side] by auto
  have comb: "comb w ?fr x frf = comb w frn ?t frf" by (simp add: comb_rotate t1)
  have dn: "distinct (n # inorder x @ spine_list w ?fr @ spine_list (opp w) frf)" using d t1 by auto
  let ?q = "q\<lparr>enqcmps := enqcmps q + 1\<rparr>"
  show ?thesis
  proof (cases "x = Leaf")
    case True
    have l3: "link w b3 = None" using b(9) True by simp
    have so: "spine_ok h3 (opp (opp w)) n y ?fr" and dn2: "distinct (n # inorder Leaf @ spine_list (opp w) frf @ spine_list (opp (opp w)) ?fr)"
      using b(10) dn True by auto
    obtain h4 b4 where h4: "attach h3 (Some far) (opp w) None = Inr h4" "h3 far = Some b4"
        "h4 far = Some (set_link (opp w) None b4)" "spine_ok h4 (opp w) n far frf" "spine_ok h4 w n y ?fr"
        "payload h4 = payload h3" "\<forall>x. x \<noteq> far \<longrightarrow> h4 x = h3 x" "map_option uplink (h4 n) = map_option uplink (h3 n)"
      using attach_end [OF b(11) so _ dn2 n3, of None None] by auto
    have far: "far = n \<or> far \<in> set (spine_list (opp w) frf)" by (rule spine_end [OF b(11)])
    then have "far \<noteq> y" using dn by auto
    then have "h4 y = Some b3" using h4(7) b(8) by simp
    then have "split_done h4 kf k0 n (cat (opp w) (spine_list w ?fr) (cat (opp w) (inorder Leaf)
           (cat (opp w) (inorder Leaf) (spine_list (opp w) frf))))"
      using h4(3) gfr gf l3 by (intro spines_done [OF h4(5,4)]) auto
    then have "split_done h4 kf k0 n (comb w frn ?t frf)"
      using comb True by (simp add: comb_def)
    moreover have "enq_turn h q k0 w (Some near) (Some far) (Some nxt) = Inr (h4, ?q, None)"
      using b(1-8) side l3 h4(1) by (simp add: enq_turn_def Let_def attach_None)
    moreover have "enq_keeps h q n (comb w frn ?t frf) h4 ?q"
      using b(12) h4(6-8) far by (auto simp: enq_keeps_def comb_def)
    ultimately show ?thesis using True by auto
  next
    case False
    then obtain xl v xr where x: "x = nd w xl v xr" using tree_nd [of x w] by blast
    then obtain e where e: "link w b3 = Some v" "h3 v = Some e" using b(9) by (auto simp: rep_nd)
    have kv: "key e = kf v" using kf3 e by simp
    have sx: "sorted (map kf (inorder x))" using sorted_nd srt1 unfolding t1 by blast
    have rx: "\<exists>u. rep h3 u (Some v) x" using b(9) e(1) by auto
    have keeps: "enq_keeps h q n (comb w frn ?t frf) h3 ?q" for q'
      using b(12) by (simp add: enq_keeps_def)
    show ?thesis
    proof (cases "goes w k0 (kf v)")
      case True
      have "enq_inv h3 kf k0 n w y far v x ?fr frf"
        unfolding enq_inv_def using rx True b(10,11) dn sx gfr gf n3 kf3 by blast
      moreover have "enq_turn h q k0 w (Some near) (Some far) (Some nxt)
          = Inr (h3, q\<lparr>enqcmps := enqcmps q + 1 + 1\<rparr>, Some (w, Some y, Some far, Some v))"
        using b(1-8) side e kv True by (simp add: enq_turn_def Let_def)
      ultimately show ?thesis using comb keeps False by (simp add: enq_keeps_def) blast
    next
      case F: False
      have "distinct (n # inorder x @ spine_list (opp w) frf @ spine_list (opp (opp w)) ?fr)" using dn by auto
      then have "enq_inv h3 kf k0 n (opp w) far y v x frf ?fr"
        unfolding enq_inv_def using rx F b(10,11) sx gfr gf n3 kf3 by (simp add: goes_opp)
      moreover have "comb (opp w) frf x ?fr = comb w frn ?t frf" using comb by (simp add: comb_swap)
      moreover have "enq_turn h q k0 w (Some near) (Some far) (Some nxt)
          = Inr (h3, q\<lparr>enqcmps := enqcmps q + 1 + 1\<rparr>, Some (opp w, Some far, Some y, Some v))"
        using b(1-8) side e kv F by (simp add: enq_turn_def Let_def)
      ultimately show ?thesis using keeps False by (simp add: enq_keeps_def) blast
    qed
  qed
qed

lemma enq_loop_ok:
  assumes "enq_inv h kf k0 n w near far nxt t frn frf"
  shows "\<exists>h' q'. enq_loop h q k0 w (Some near) (Some far) (Some nxt) = Some (Inr (h', q'))
    \<and> split_done h' kf k0 n (comb w frn t frf) \<and> enq_keeps h q n (comb w frn t frf) h' q'"
  using assms
proof (induction "size t" arbitrary: h q w near far nxt t frn frf rule: less_induct)
  case less
  obtain u where t: "rep h u (Some nxt) t" using less.prems by (auto simp: enq_inv_def)
  have "t \<noteq> Leaf" using t by auto
  then obtain t1 a ti where "t = nd w t1 a ti" using tree_nd [of t w] by blast
  then have tn: "t = nd w t1 nxt ti" using t by (simp add: rep_nd)
  have sz: "size t1 < size t" unfolding tn by (cases w) auto
  note inv = less.prems [unfolded tn]
  consider "t1 = Leaf" | x y z where "t1 = nd w x y z" "\<not> goes w k0 (kf y)"
    | x y z where "t1 = nd w x y z" "goes w k0 (kf y)"
    using tree_nd [of t1 w] by blast
  then show ?case
  proof cases
    case 1
    then show ?thesis using enq_turn_end [of h kf k0 n w near far nxt ti frn frf q] inv tn
      by (subst enq_loop.simps) auto
  next
    case 2
    obtain h1 q1 where h1: "enq_turn h q k0 w (Some near) (Some far) (Some nxt)
          = Inr (h1, q1, Some (opp w, Some far, Some nxt, Some y))"
        "enq_inv h1 kf k0 n (opp w) far nxt y t1 frf ((nxt, ti) # frn)"
        "enq_keeps h q n (comb w frn t frf) h1 q1"
      using enq_turn_switch [OF inv 2] tn by blast
    have c: "comb (opp w) frf t1 ((nxt, ti) # frn) = comb w frn t frf"
      by (simp add: comb_swap) (simp add: comb_def tn inorder_nd cat_opp cat_assoc)
    show ?thesis
      using less.hyps [OF sz h1(2), of q1] h1(1,3) enq_keeps_trans
      unfolding c by (subst enq_loop.simps) fastforce
  next
    case 3
    have szx: "size x < size t" using sz unfolding 3 by (cases w) auto
    obtain h1 q1 r where h1: "enq_turn h q k0 w (Some near) (Some far) (Some nxt) = Inr (h1, q1, r)"
        "enq_keeps h q n (comb w frn t frf) h1 q1"
        "if x = Leaf then r = None \<and> split_done h1 kf k0 n (comb w frn t frf)
         else \<exists>w' near' far' nxt' fr1 fr2. r = Some (w', Some near', Some far', Some nxt')
           \<and> enq_inv h1 kf k0 n w' near' far' nxt' x fr1 fr2 \<and> comb w' fr1 x fr2 = comb w frn t frf"
      using enq_turn_rotate [OF inv 3] tn by blast
    show ?thesis
    proof (cases "x = Leaf")
      case True
      then show ?thesis using h1 by (subst enq_loop.simps) auto
    next
      case False
      then obtain w' near' far' nxt' fr1 fr2 where r: "r = Some (w', Some near', Some far', Some nxt')"
          "enq_inv h1 kf k0 n w' near' far' nxt' x fr1 fr2" "comb w' fr1 x fr2 = comb w frn t frf"
        using h1(3) by auto
      show ?thesis
        using less.hyps [OF szx r(2), of q1] h1(1,2) r(1) enq_keeps_trans
        unfolding r(3) by (subst enq_loop.simps) fastforce
    qed
  qed
qed

subsection \<open>The whole insertion\<close>

text \<open>The new block becomes the root; the smaller blocks are on its left, the others, also
  those with an equal key, on its right.\<close>

lemma sp_enq_correct:
  assumes t: "rep h None (root q) t" and d: "distinct (inorder t)" and n: "n \<notin> set_tree t" "h n = Some b"
    and kf: "\<forall>a c. h a = Some c \<longrightarrow> key c = kf a" and srt: "sorted (map kf (inorder t))"
  shows "\<exists>h' q' l r. sp_enq h (Some n) q = Some (Inr (h', q', Some n)) \<and> root q' = Some n
    \<and> rep h' None (Some n) (Node l n r) \<and> inorder l @ inorder r = inorder t
    \<and> (\<forall>a\<in>set_tree l. kf a < kf n) \<and> (\<forall>a\<in>set_tree r. \<not> kf a < kf n)
    \<and> payload h' = payload h \<and> eltscnt q' = eltscnt q \<and> symbols q' = symbols q
    \<and> (\<forall>x. x \<notin> insert n (set_tree t) \<longrightarrow> h' x = h x)"
proof -
  let ?h = "h(n \<mapsto> set_up None b)" and ?q = "q\<lparr>enqs := enqs q + 1, root := Some n\<rparr>"
  have t1: "rep ?h None (root q) t" using n by (intro rep_frame [OF t]) auto
  have kn: "key b = kf n" using kf n by simp
  show ?thesis
  proof (cases t)
    case Leaf
    let ?h2 = "h(n \<mapsto> set_link Rgt None (set_link Lft None (set_up None b)))"
    have "sp_enq h (Some n) q = Some (Inr (?h2, ?q, Some n))"
      using t Leaf n by (simp add: sp_enq_def)
    moreover have "rep ?h2 None (Some n) (Node Leaf n Leaf)" by (simp add: set_up_def)
    moreover have "payload ?h2 = payload h" using n by simp
    ultimately show ?thesis using Leaf by (intro exI [of _ ?h2] exI [of _ ?q] exI [of _ Leaf]) auto
  next
    case (Node l0 a r0)
    then obtain c where c: "root q = Some a" "h a = Some c" using t by (auto split: option.splits)
    have an: "a \<noteq> n" using n Node by auto
    let ?w = "if kf a < kf n then Rgt else Lft"
    let ?q1 = "?q\<lparr>enqcmps := enqcmps ?q + 1\<rparr>"
    have kf1: "\<forall>x y. ?h x = Some y \<longrightarrow> key y = kf x" using kf kn by auto
    have ka: "key c = kf a" using kf c by simp
    have "enq_inv ?h kf (kf n) n ?w n n a t [] []"
      unfolding enq_inv_def using t1 c(1) n d srt kf1 by (auto simp: goes_def)
    from enq_loop_ok [OF this, of ?q1] obtain h1 q1 where h1:
        "enq_loop ?h ?q1 (kf n) ?w (Some n) (Some n) (Some a) = Some (Inr (h1, q1))"
        "split_done h1 kf (kf n) n (inorder t)" "enq_keeps ?h ?q1 n (inorder t) h1 q1"
      by (auto simp: comb_def)
    obtain e l r where e: "h1 n = Some e" "rep h1 (Some n) (rightlink e) l" "rep h1 (Some n) (leftlink e) r"
        "inorder l @ inorder r = inorder t" "\<forall>a\<in>set_tree l. kf a < kf n" "\<forall>a\<in>set_tree r. \<not> kf a < kf n"
      using h1(2) by (auto simp: split_done_def)
    have "set (inorder l @ inorder r) = set_tree t" unfolding e(4) by simp
    then have nl: "n \<notin> set_tree l" "n \<notin> set_tree r" using n by auto
    let ?h2 = "h1(n \<mapsto> set_link Rgt (leftlink e) (set_link Lft (rightlink e) e))"
    have "rep ?h2 (Some n) (rightlink e) l" "rep ?h2 (Some n) (leftlink e) r"
      using nl by (auto intro: rep_frame [OF e(2)] rep_frame [OF e(3)])
    moreover have "uplink e = None" using h1(3) e(1) by (simp add: enq_keeps_def)
    ultimately have "rep ?h2 None (Some n) (Node l n r)" by simp
    moreover have "sp_enq h (Some n) q = Some (Inr (?h2, q1, Some n))"
      using n c an kn ka h1(1) e(1) by (simp add: sp_enq_def Let_def)
    moreover have "payload ?h2 = payload h" using h1(3) e(1) n by (simp add: enq_keeps_def)
    moreover have "\<forall>x. x \<notin> insert n (set_tree t) \<longrightarrow> ?h2 x = h x" using h1(3) by (auto simp: enq_keeps_def)
    ultimately show ?thesis
      using e(4-6) h1(3) by (intro exI [of _ ?h2] exI [of _ q1] exI [of _ l] exI [of _ r]) (auto simp: enq_keeps_def)
  qed
qed

end
