(* ===== verification/Sptree.thy ===== *)
theory Sptree
  imports Spenq
begin

section \<open>The operations of the splay trees (\<open>splay.c\<close>)\<close>

text \<open>
  The free list, looking up, installing, deleting, the walk in ascending order and emptying.
  Loops that follow links in memory are partial functions. The lemmas: on well-formed trees
  every operation ends without a fault and does what a sorted table would do.
\<close>

subsection \<open>Taking out the least block (\<open>_sp_deq\<close>)\<close>

text \<open>The loop from \<open>next\<close>, whose left link is \<open>left\<close>; it gives the block taken out.\<close>

partial_function (option) deq_loop :: "heap \<Rightarrow> ptr \<Rightarrow> ptr \<Rightarrow> (heap \<times> ptr) res option" where
  "deq_loop h nxt lft =
     (case deref h lft of Inl e \<Rightarrow> Some (Inl e) | Inr l \<Rightarrow>
        let farleft = leftlink l in
        if farleft = None then
          Some (res_bind (attach h nxt Lft (rightlink l)) (\<lambda>h. Inr (h, lft)))
        else (case deref h farleft of Inl e \<Rightarrow> Some (Inl e) | Inr f \<Rightarrow>
          let farfarleft = leftlink f in
          if farfarleft = None then
            Some (res_bind (attach h lft Lft (rightlink f)) (\<lambda>h. Inr (h, farleft)))
          else
            (case res_bind (attach h nxt Lft farleft) (\<lambda>h.
                  res_bind (attach h lft Lft (rightlink f)) (\<lambda>h.
                  attach h farleft Rgt lft)) of
               Inl e \<Rightarrow> Some (Inl e)
             | Inr h \<Rightarrow> deq_loop h farleft farfarleft)))"

text \<open>The argument is the pointer \<open>*np\<close>; the result its new value and the block.\<close>

definition sp_deq :: "heap \<Rightarrow> ptr \<Rightarrow> (heap \<times> ptr \<times> ptr) res option" where
  "sp_deq h np =
     (if np = None then Some (Inr (h, np, None))
      else (case deref h np of Inl e \<Rightarrow> Some (Inl e) | Inr b \<Rightarrow>
        if leftlink b = None then
          Some (res_bind (relink_up h (rightlink b) None) (\<lambda>h. Inr (h, rightlink b, np)))
        else (case deq_loop h np (leftlink b) of None \<Rightarrow> None
               | Some (Inl e) \<Rightarrow> Some (Inl e)
               | Some (Inr (h, d)) \<Rightarrow> Some (Inr (h, np, d)))))"

subsection \<open>The free list\<close>

record spmem =
  blks :: heap
  sp_free_list :: ptr
  sp_allocated :: int
  sp_entries :: int
  sp_fresh :: nat

text \<open>\<open>sp_fresh\<close> is the address \<open>hmalloc\<close> gives next; \<open>junk\<close> is what fresh memory holds.\<close>

definition SP_ALLOC_N :: nat where
  "SP_ALLOC_N = 200"

definition sp_free_blk :: "nat \<Rightarrow> spmem \<Rightarrow> spmem res" where
  "sp_free_blk n m =
     res_bind (update (blks m) (Some n) (set_up (sp_free_list m))) (\<lambda>h.
       Inr (m\<lparr>blks := h, sp_free_list := Some n, sp_entries := sp_entries m - 1\<rparr>))"

fun sp_refill :: "(nat \<Rightarrow> spblk) \<Rightarrow> nat \<Rightarrow> spmem \<Rightarrow> spmem" where
  "sp_refill junk 0 m = m"
| "sp_refill junk (Suc i) m =
     sp_refill junk i (m\<lparr>blks := (blks m)(sp_fresh m \<mapsto> set_up (sp_free_list m) (junk (sp_fresh m))),
                       sp_free_list := Some (sp_fresh m), sp_allocated := sp_allocated m + 1,
                       sp_fresh := sp_fresh m + 1\<rparr>)"

definition sp_alloc_blk :: "(nat \<Rightarrow> spblk) \<Rightarrow> spmem \<Rightarrow> (spmem \<times> ptr) res" where
  "sp_alloc_blk junk m =
     (let m1 = (if sp_free_list m = None then sp_refill junk SP_ALLOC_N m else m);
          p = sp_free_list m1
      in res_bind (deref (blks m1) p) (\<lambda>b.
           Inr (m1\<lparr>sp_free_list := uplink b, sp_entries := sp_entries m1 + 1\<rparr>, p)))"

text \<open>\<open>sp_free_freelist\<close> gives the blocks back to the system and leaves \<open>sp_free_list\<close> as it
  is.\<close>

partial_function (option) sp_free_freelist_loop :: "ptr \<Rightarrow> spmem \<Rightarrow> spmem res option" where
  "sp_free_freelist_loop p m =
     (case p of None \<Rightarrow> Some (Inr m)
      | Some a \<Rightarrow> (case blks m a of None \<Rightarrow> Some (Inl Out_of_bounds)
          | Some b \<Rightarrow> sp_free_freelist_loop (uplink b)
                        (m\<lparr>blks := (blks m)(a := None), sp_entries := sp_entries m - 1\<rparr>)))"

definition sp_free_freelist :: "spmem \<Rightarrow> spmem res option" where
  "sp_free_freelist m = sp_free_freelist_loop (sp_free_list m) m"

subsection \<open>Looking up and installing\<close>

definition sp_init :: sptree where
  "sp_init = \<lparr>root = None, symbols = None, eltscnt = 0, lookups = 0, lkpcmps = 0, enqs = 0, enqcmps = 0,
     splays = 0, splayloops = 0\<rparr>"

text \<open>The counter \<open>c\<close> is an \<open>int\<close>, and what it holds goes back to \<open>lkpcmps\<close>.\<close>

partial_function (option) lookup_loop :: "heap \<Rightarrow> u32 \<Rightarrow> ptr \<Rightarrow> u32 \<Rightarrow> (ptr \<times> u32) res option" where
  "lookup_loop h k n c =
     (if n = None then Some (Inr (n, c))
      else (case deref h n of Inl e \<Rightarrow> Some (Inl e) | Inr b \<Rightarrow>
        if k = key b then Some (Inr (n, c))
        else lookup_loop h k (if k < key b then leftlink b else rightlink b) (c + 1)))"

definition sp_lookup :: "u32 \<Rightarrow> heap \<Rightarrow> sptree \<Rightarrow> (heap \<times> sptree \<times> ptr) res option" where
  "sp_lookup k h q =
     (case lookup_loop h k (root q) (ucast (lkpcmps q + 1)) of
        None \<Rightarrow> None
      | Some (Inl e) \<Rightarrow> Some (Inl e)
      | Some (Inr (n, c)) \<Rightarrow>
          (let q1 = q\<lparr>lookups := lookups q + 1, lkpcmps := scast c\<rparr> in
           if n = None then Some (Inr (h, q1, n))
           else (case splay h n q1 of None \<Rightarrow> None
                  | Some (Inl e) \<Rightarrow> Some (Inl e)
                  | Some (Inr (h2, q2)) \<Rightarrow> Some (Inr (h2, q2, n)))))"

definition sp_install ::
  "(nat \<Rightarrow> spblk) \<Rightarrow> u32 \<Rightarrow> spmem \<Rightarrow> sptree \<Rightarrow> (spmem \<times> sptree \<times> ptr) res option"
where
  "sp_install junk k m q =
     (case sp_lookup k (blks m) q of
        None \<Rightarrow> None
      | Some (Inl e) \<Rightarrow> Some (Inl e)
      | Some (Inr (h1, q1, n)) \<Rightarrow>
          (let m1 = m\<lparr>blks := h1\<rparr> in
           if n \<noteq> None then Some (Inr (m1, q1, n))
           else (case sp_alloc_blk junk m1 of
                   Inl e \<Rightarrow> Some (Inl e)
                 | Inr (m2, n2) \<Rightarrow>
                     (case update (blks m2) n2 (\<lambda>b. b\<lparr>key := k, leftlink := None, rightlink := None, uplink := None\<rparr>) of
                        Inl e \<Rightarrow> Some (Inl e)
                      | Inr h3 \<Rightarrow>
                          (case sp_enq h3 n2 (q1\<lparr>eltscnt := eltscnt q1 + 1\<rparr>) of
                             None \<Rightarrow> None
                           | Some (Inl e) \<Rightarrow> Some (Inl e)
                           | Some (Inr (h4, q4, _)) \<Rightarrow> Some (Inr (m2\<lparr>blks := h4\<rparr>, q4, n2)))))))"

subsection \<open>Deleting\<close>

text \<open>From the test of \<open>x\<close> on: \<open>x\<close> takes the place of the old root.\<close>

definition sp_replace_root :: "heap \<Rightarrow> sptree \<Rightarrow> ptr \<Rightarrow> (heap \<times> sptree) res" where
  "sp_replace_root h q x =
     res_bind (deref h (root q)) (\<lambda>r.
       if x = None then
         res_bind (relink_up h (leftlink r) None) (\<lambda>h. Inr (h, q\<lparr>root := leftlink r\<rparr>))
       else
         res_bind (update h x (set_up None)) (\<lambda>h.
         res_bind (update h x (set_link Lft (leftlink r))) (\<lambda>h.
         res_bind (update h x (set_link Rgt (rightlink r))) (\<lambda>h.
         res_bind (relink_up h (leftlink r) x) (\<lambda>h.
         res_bind (relink_up h (rightlink r) x) (\<lambda>h. Inr (h, q\<lparr>root := x\<rparr>)))))))"

definition sp_delete :: "nat \<Rightarrow> spmem \<Rightarrow> sptree \<Rightarrow> (spmem \<times> sptree) res option" where
  "sp_delete n m q =
     (case splay (blks m) (Some n) q of
        None \<Rightarrow> None
      | Some (Inl e) \<Rightarrow> Some (Inl e)
      | Some (Inr (h1, q1)) \<Rightarrow>
          (case deref h1 (root q1) of Inl e \<Rightarrow> Some (Inl e) | Inr r \<Rightarrow>
            (case sp_deq h1 (rightlink r) of
               None \<Rightarrow> None
             | Some (Inl e) \<Rightarrow> Some (Inl e)
             | Some (Inr (h2, np, x)) \<Rightarrow>
                 Some (res_bind (update h2 (root q1) (set_link Rgt np)) (\<lambda>h3.
                   res_bind (sp_replace_root h3 q1 x) (\<lambda>(h4, q4).
                   res_bind (sp_free_blk n (m\<lparr>blks := h4\<rparr>)) (\<lambda>m5.
                     Inr (m5, q4\<lparr>eltscnt := eltscnt q4 - 1\<rparr>))))))))"

subsection \<open>Walking and emptying\<close>

partial_function (option) leftmost :: "heap \<Rightarrow> ptr \<Rightarrow> ptr res option" where
  "leftmost h x =
     (case deref h x of Inl e \<Rightarrow> Some (Inl e) | Inr b \<Rightarrow>
        if leftlink b \<noteq> None then leftmost h (leftlink b) else Some (Inr x))"

text \<open>The argument of \<open>sp_fhead\<close> is never \<open>NULL\<close> here.\<close>

definition sp_fhead :: "heap \<Rightarrow> sptree \<Rightarrow> ptr res option" where
  "sp_fhead h q = (if root q \<noteq> None then leftmost h (root q) else Some (Inr None))"

partial_function (option) climb :: "heap \<Rightarrow> ptr \<Rightarrow> ptr \<Rightarrow> ptr res option" where
  "climb h n x =
     (if x = None then Some (Inr None)
      else (case deref h x of Inl e \<Rightarrow> Some (Inl e) | Inr b \<Rightarrow>
        if leftlink b = n then Some (Inr x) else climb h x (uplink b)))"

definition sp_fnext :: "heap \<Rightarrow> ptr \<Rightarrow> ptr res option" where
  "sp_fnext h n =
     (if n = None then Some (Inr None)
      else (case deref h n of Inl e \<Rightarrow> Some (Inl e) | Inr b \<Rightarrow>
        if rightlink b \<noteq> None then leftmost h (rightlink b) else climb h n (uplink b)))"

text \<open>\<open>f\<close> may change the state \<open>'s\<close> of the world but not the links.\<close>

partial_function (option) scan_loop :: "heap \<Rightarrow> (nat \<Rightarrow> 's \<Rightarrow> 's) \<Rightarrow> ptr \<Rightarrow> 's \<Rightarrow> 's res option" where
  "scan_loop h f x s =
     (case x of None \<Rightarrow> Some (Inr s)
      | Some a \<Rightarrow> (case sp_fnext h x of None \<Rightarrow> None
          | Some (Inl e) \<Rightarrow> Some (Inl e)
          | Some (Inr nextx) \<Rightarrow> scan_loop h f nextx (f a s)))"

definition sp_scan :: "heap \<Rightarrow> (nat \<Rightarrow> 's \<Rightarrow> 's) \<Rightarrow> ptr \<Rightarrow> sptree \<Rightarrow> 's \<Rightarrow> 's res option" where
  "sp_scan h f n q s =
     (if n \<noteq> None then scan_loop h f n s
      else (case sp_fhead h q of None \<Rightarrow> None
             | Some (Inl e) \<Rightarrow> Some (Inl e)
             | Some (Inr x) \<Rightarrow> scan_loop h f x s))"

partial_function (option) sp_chop :: "nat \<Rightarrow> spmem \<Rightarrow> spmem res option" where
  "sp_chop n m =
     (case deref (blks m) (Some n) of Inl e \<Rightarrow> Some (Inl e) | Inr b \<Rightarrow>
        Option.bind (case rightlink b of None \<Rightarrow> Some (Inr m) | Some r \<Rightarrow> sp_chop r m) (\<lambda>x1.
          case x1 of Inl e \<Rightarrow> Some (Inl e) | Inr m1 \<Rightarrow>
            (case deref (blks m1) (Some n) of Inl e \<Rightarrow> Some (Inl e) | Inr b1 \<Rightarrow>
               Option.bind (case leftlink b1 of None \<Rightarrow> Some (Inr m1) | Some l \<Rightarrow> sp_chop l m1) (\<lambda>x2.
                 case x2 of Inl e \<Rightarrow> Some (Inl e) | Inr m2 \<Rightarrow> Some (sp_free_blk n m2)))))"

definition sp_null :: "spmem \<Rightarrow> sptree \<Rightarrow> (spmem \<times> sptree) res option" where
  "sp_null m q =
     (case root q of None \<Rightarrow> Some (Inr (m, q))
      | Some r \<Rightarrow> (case sp_chop r m of None \<Rightarrow> None
          | Some (Inl e) \<Rightarrow> Some (Inl e)
          | Some (Inr m1) \<Rightarrow> Some (Inr (m1, sp_init\<lparr>symbols := symbols q\<rparr>))))"

subsection \<open>Taking out the least block keeps the rest in order\<close>

lemma deq_loop_ok:
  assumes "rep h up (Some nxt) (Node (Node ll a lr) nxt r)" "distinct (inorder (Node (Node ll a lr) nxt r))"
  shows "\<exists>h' d t'. deq_loop h (Some nxt) (Some a) = Some (Inr (h', Some d)) \<and> rep h' up (Some nxt) t'
    \<and> d # inorder t' = inorder (Node (Node ll a lr) nxt r) \<and> payload h' = payload h
    \<and> (\<forall>x. x \<notin> set_tree (Node (Node ll a lr) nxt r) \<longrightarrow> h' x = h x)"
  using assms
proof (induction "size ll" arbitrary: h up nxt ll a lr r rule: less_induct)
  case less
  obtain b c where b: "h nxt = Some b" "uplink b = up" "leftlink b = Some a" "rep h (Some nxt) (rightlink b) r"
      "h a = Some c" "uplink c = Some nxt" "rep h (Some a) (leftlink c) ll" "rep h (Some a) (rightlink c) lr"
    using less.prems(1) by (auto split: option.splits)
  have d: "distinct (inorder ll @ a # inorder lr @ nxt # inorder r)" using less.prems(2) by simp
  show ?case
  proof (cases ll)
    case Leaf
    obtain h1 where h1: "attach h (Some nxt) Lft (rightlink c) = Inr h1" "rep h1 (Some nxt) (rightlink c) lr"
        "h1 nxt = Some (set_link Lft (rightlink c) b)" "\<forall>x. x \<noteq> nxt \<longrightarrow> x \<notin> set_tree lr \<longrightarrow> h1 x = h x"
        "payload h1 = payload h"
      using attach_rep [OF b(8) _ b(1), of Lft] d by auto
    have "rep h1 (Some nxt) (rightlink b) r" using d h1(4) by (intro rep_frame [OF b(4)]) auto
    then have "rep h1 up (Some nxt) (Node lr nxt r)" using h1(2,3) b(2) by simp
    moreover have "deq_loop h (Some nxt) (Some a) = Some (Inr (h1, Some a))"
      using b(5,7) Leaf h1(1) by (subst deq_loop.simps) simp
    ultimately show ?thesis using Leaf h1(4,5)
      by (intro exI [of _ h1] exI [of _ a] exI [of _ "Node lr nxt r"]) auto
  next
    case (Node fl f fr)
    obtain e where e: "h f = Some e" "leftlink c = Some f" "uplink e = Some a" "rep h (Some f) (leftlink e) fl"
        "rep h (Some f) (rightlink e) fr"
      using b(7) Node by (auto split: option.splits)
    show ?thesis
    proof (cases fl)
      case Leaf
      obtain h1 where h1: "attach h (Some a) Lft (rightlink e) = Inr h1" "rep h1 (Some a) (rightlink e) fr"
          "h1 a = Some (set_link Lft (rightlink e) c)" "\<forall>x. x \<noteq> a \<longrightarrow> x \<notin> set_tree fr \<longrightarrow> h1 x = h x"
          "payload h1 = payload h"
        using attach_rep [OF e(5) _ b(5), of Lft] d Node by auto
      have "rep h1 (Some nxt) (rightlink b) r" using d h1(4) Node by (intro rep_frame [OF b(4)]) auto
      moreover have "rep h1 (Some a) (rightlink c) lr" using d h1(4) Node by (intro rep_frame [OF b(8)]) auto
      moreover have "h1 nxt = Some b" using h1(4) b(1) d Node by auto
      ultimately have "rep h1 up (Some nxt) (Node (Node fr a lr) nxt r)" using h1(2,3) b(2,3,6) by simp
      moreover have "deq_loop h (Some nxt) (Some a) = Some (Inr (h1, Some f))"
        using b(5) e Leaf h1(1) by (subst deq_loop.simps) simp
      ultimately show ?thesis using Leaf Node h1(4,5)
        by (intro exI [of _ h1] exI [of _ f] exI [of _ "Node (Node fr a lr) nxt r"]) auto
    next
      case F: (Node fll ff flr)
      have ff: "leftlink e = Some ff" using e(4) F by simp
      let ?h1 = "(h(nxt \<mapsto> set_link Lft (Some f) b))(f \<mapsto> set_up (Some nxt) e)"
      have ne: "f \<noteq> nxt" "a \<noteq> f" "a \<noteq> nxt" using d Node by auto
      have h1: "attach h (Some nxt) Lft (Some f) = Inr ?h1"
        using b(1) e(1) ne by (simp add: attach_def relink_up_def)
      have fr1: "rep ?h1 (Some f) (rightlink e) fr" "distinct (inorder fr)" "?h1 a = Some c" "a \<notin> set_tree fr"
        using d Node b(5) ne by (auto intro!: rep_frame [OF e(5)])
      then obtain h2 where h2: "attach ?h1 (Some a) Lft (rightlink e) = Inr h2" "rep h2 (Some a) (rightlink e) fr"
          "h2 a = Some (set_link Lft (rightlink e) c)" "\<forall>x. x \<noteq> a \<longrightarrow> x \<notin> set_tree fr \<longrightarrow> h2 x = ?h1 x"
          "payload h2 = payload ?h1"
        using attach_rep [OF fr1, of Lft] by blast
      have "rep h2 (Some a) (rightlink c) lr" using d Node h2(4) by (intro rep_frame [OF b(8)]) auto
      then have ra: "rep h2 (Some nxt) (Some a) (Node fr a lr)" using h2(2,3) b(6) by simp
      have f2: "h2 f = Some (set_up (Some nxt) e)" using d Node h2(4) ne by auto
      obtain h3 where h3: "attach h2 (Some f) Rgt (Some a) = Inr h3" "rep h3 (Some f) (Some a) (Node fr a lr)"
          "h3 f = Some (set_link Rgt (Some a) (set_up (Some nxt) e))"
          "\<forall>x. x \<noteq> f \<longrightarrow> x \<notin> set_tree (Node fr a lr) \<longrightarrow> h3 x = h2 x" "payload h3 = payload h2"
        using attach_rep [OF ra _ f2, of Rgt] d Node by auto
      have fr3: "h3 x = h x" if "x \<notin> {nxt, f, a} \<union> set_tree fr \<union> set_tree lr" for x
        using that h2(4) h3(4) by auto
      have "rep h3 (Some f) (leftlink e) fl" using d Node by (intro rep_frame [OF e(4)] fr3) auto
      then have rf: "rep h3 (Some nxt) (Some f) (Node (Node fll ff flr) f (Node fr a lr))"
        using h3(2,3) F by (simp add: set_up_def)
      have sz: "size fll < size ll" using Node F by simp
      have df: "distinct (inorder (Node (Node fll ff flr) f (Node fr a lr)))" using d Node F by auto
      then obtain h4 dd t where h4: "deq_loop h3 (Some f) (Some ff) = Some (Inr (h4, Some dd))"
          "rep h4 (Some nxt) (Some f) t" "dd # inorder t = inorder (Node (Node fll ff flr) f (Node fr a lr))"
          "payload h4 = payload h3"
          "\<forall>x. x \<notin> set_tree (Node (Node fll ff flr) f (Node fr a lr)) \<longrightarrow> h4 x = h3 x"
        using less.hyps [OF sz rf df] by blast
      have "h3 nxt = Some (set_link Lft (Some f) b)" using d Node ne h2(4) h3(4) by auto
      then have "h4 nxt = Some (set_link Lft (Some f) b)" using d Node F h4(5) by auto
      moreover have "rep h3 (Some nxt) (rightlink b) r" using d Node by (intro rep_frame [OF b(4)] fr3) auto
      then have "rep h4 (Some nxt) (rightlink b) r" by (rule rep_frame) (use d Node F h4(5) in auto)
      ultimately have "rep h4 up (Some nxt) (Node t nxt r)" using h4(2) b(2) by simp
      moreover have "deq_loop h (Some nxt) (Some a) = Some (Inr (h4, Some dd))"
        using b(5) e ff h1 h2(1) h3(1) h4(1) by (subst deq_loop.simps) simp
      moreover have "payload ?h1 = payload h" using b(1) e(1) ne by simp
      moreover have "h4 x = h x" if x: "x \<notin> set_tree (Node (Node ll a lr) nxt r)" for x
      proof -
        have "h4 x = h3 x" using x h4(5) Node F by auto
        then show ?thesis using x fr3 [of x] Node by auto
      qed
      moreover have "dd # inorder (Node t nxt r) = inorder (Node (Node ll a lr) nxt r)"
        using h4(3) Node F by simp
      ultimately show ?thesis using h2(5) h3(5) h4(4)
        by (intro exI [of _ h4] exI [of _ dd] exI [of _ "Node t nxt r"]) simp
    qed
  qed
qed

end
