(* ===== verification/Spmap.thy ===== *)
theory Spmap
  imports Sptree
begin

section \<open>Splay trees as tables\<close>

text \<open>
  What a well-formed tree and a well-formed block memory are, and that the operations of
  \<open>splay.c\<close> keep them so and act on the tree as on a table from keys to blocks. The contract
  is the locale \<open>block_store\<close>; its clients see a table from keys to data.
\<close>

subsection \<open>Well-formed trees and memory\<close>

definition key_at :: "heap \<Rightarrow> nat \<Rightarrow> u32" where
  "key_at h a = (case h a of None \<Rightarrow> 0 | Some b \<Rightarrow> key b)"

definition data_at :: "heap \<Rightarrow> nat \<Rightarrow> ptr" where
  "data_at h a = (case h a of None \<Rightarrow> None | Some b \<Rightarrow> data b)"

lemma payload_at: "payload h' a = payload h a \<Longrightarrow> key_at h' a = key_at h a \<and> data_at h' a = data_at h a"
  by (cases "h a"; cases "h' a") (auto simp: payload_def key_at_def data_at_def)

lemma payload_key_at: "payload h' = payload h \<Longrightarrow> key_at h' = key_at h"
  by (rule ext) (rule payload_at [THEN conjunct1], simp)

lemma payload_data_at: "payload h' = payload h \<Longrightarrow> data_at h' = data_at h"
  by (rule ext) (rule payload_at [THEN conjunct2], simp)

lemma payload_dom: "payload h' = payload h \<Longrightarrow> dom h' = dom h"
proof -
  assume eq: "payload h' = payload h"
  have "(h' a = None) = (h a = None)" for a
    using fun_cong [OF eq, of a] by (cases "h a"; cases "h' a") (auto simp: payload_def)
  then show ?thesis by (auto simp: dom_def)
qed

text \<open>The keys of a tree strictly increase from left to right.\<close>

definition tree_ok :: "heap \<Rightarrow> sptree \<Rightarrow> nat tree \<Rightarrow> bool" where
  "tree_ok h q t \<longleftrightarrow> rep h None (root q) t \<and> sorted_wrt (<) (map (key_at h) (inorder t))"

lemma strict_distinct: "sorted_wrt (<) (map f xs) \<Longrightarrow> distinct xs" for f :: "'a \<Rightarrow> u32"
  by (induction xs) auto

lemma strict_sorted: "sorted_wrt (<) xs \<Longrightarrow> sorted xs" for xs :: "u32 list"
  by (rule sorted_wrt_mono_rel) auto

lemma tree_ok_distinct: "tree_ok h q t \<Longrightarrow> distinct (inorder t)"
  by (auto simp: tree_ok_def intro: strict_distinct)

lemma tree_ok_dom: "tree_ok h q t \<Longrightarrow> set_tree t \<subseteq> dom h"
  using rep_alloc [of h None "root q" t] by (auto simp: tree_ok_def)

lemma key_at_inj:
  assumes "tree_ok h q t" "a \<in> set_tree t" "b \<in> set_tree t" "key_at h a = key_at h b"
  shows "a = b"
proof -
  have "distinct (map (key_at h) (inorder t))"
    using assms(1) by (auto simp: tree_ok_def intro: strict_distinct [where f = id, simplified])
  then show ?thesis using assms(2-4) by (auto simp: distinct_map inj_on_def)
qed

text \<open>The free list is a chain through \<open>uplink\<close>.\<close>

fun flist :: "heap \<Rightarrow> ptr \<Rightarrow> nat list \<Rightarrow> bool" where
  "flist h p [] \<longleftrightarrow> p = None"
| "flist h p (x # xs) \<longleftrightarrow> p = Some x \<and> (\<exists>b. h x = Some b \<and> flist h (uplink b) xs)"

lemma flist_frame: "flist h p xs \<Longrightarrow> \<forall>x\<in>set xs. h' x = h x \<Longrightarrow> flist h' p xs"
  by (induction xs arbitrary: p) auto

lemma flist_dom: "flist h p xs \<Longrightarrow> set xs \<subseteq> dom h"
  by (induction xs arbitrary: p) auto

text \<open>Every block is in use or on the free list, not both, and the counters are right.\<close>

definition mem_ok :: "spmem \<Rightarrow> nat set \<Rightarrow> bool" where
  "mem_ok m used \<longleftrightarrow> (\<exists>xs. flist (blks m) (sp_free_list m) xs \<and> distinct xs \<and> set xs \<inter> used = {}
     \<and> dom (blks m) = used \<union> set xs \<and> finite used \<and> (\<forall>a\<in>dom (blks m). a < sp_fresh m)
     \<and> sp_entries m = int (card used) \<and> sp_allocated m = int (card used + length xs))"

lemma mem_okE:
  assumes "mem_ok m used"
  obtains xs where "flist (blks m) (sp_free_list m) xs" "distinct xs" "set xs \<inter> used = {}"
    "dom (blks m) = used \<union> set xs" "finite used" "\<forall>a\<in>dom (blks m). a < sp_fresh m"
    "sp_entries m = int (card used)" "sp_allocated m = int (card used + length xs)"
  using assms by (auto simp: mem_ok_def)

lemma mem_okI:
  assumes "flist (blks m) (sp_free_list m) xs" "distinct xs" "set xs \<inter> used = {}"
    "dom (blks m) = used \<union> set xs" "finite used" "\<forall>a\<in>dom (blks m). a < sp_fresh m"
    "sp_entries m = int (card used)" "sp_allocated m = int (card used + length xs)"
  shows "mem_ok m used"
  unfolding mem_ok_def using assms by blast

lemma mem_ok_heap:
  assumes "mem_ok m used" "dom h = dom (blks m)" "\<And>x. x \<notin> used \<Longrightarrow> h x = blks m x"
  shows "mem_ok (m\<lparr>blks := h\<rparr>) used"
proof (rule mem_okE [OF assms(1)])
  fix xs
  assume xs: "flist (blks m) (sp_free_list m) xs" "distinct xs" "set xs \<inter> used = {}"
    "dom (blks m) = used \<union> set xs" "finite used" "\<forall>a\<in>dom (blks m). a < sp_fresh m"
    "sp_entries m = int (card used)" "sp_allocated m = int (card used + length xs)"
  have "flist h (sp_free_list m) xs" using xs(3) assms(3) by (intro flist_frame [OF xs(1)]) blast
  then show ?thesis using xs(2-8) assms(2) by (intro mem_okI [of _ xs]) simp_all
qed

subsection \<open>The free list\<close>

lemma sp_free_blk_ok:
  assumes "mem_ok m used" "n \<in> used"
  shows "\<exists>m'. sp_free_blk n m = Inr m' \<and> mem_ok m' (used - {n}) \<and> (\<forall>x. x \<noteq> n \<longrightarrow> blks m' x = blks m x)"
proof (rule mem_okE [OF assms(1)])
  fix xs
  assume xs: "flist (blks m) (sp_free_list m) xs" "distinct xs" "set xs \<inter> used = {}"
    "dom (blks m) = used \<union> set xs" "finite used" "\<forall>a\<in>dom (blks m). a < sp_fresh m"
    "sp_entries m = int (card used)" "sp_allocated m = int (card used + length xs)"
  have nx: "n \<notin> set xs" using assms(2) xs(3) by blast
  have nd: "n \<in> dom (blks m)" using xs(4) assms(2) by blast
  then obtain b where b: "blks m n = Some b" by blast
  let ?h = "(blks m)(n \<mapsto> set_up (sp_free_list m) b)"
  let ?m = "m\<lparr>blks := ?h, sp_free_list := Some n, sp_entries := sp_entries m - 1\<rparr>"
  have "flist ?h (sp_free_list m) xs" by (rule flist_frame [OF xs(1)]) (use nx in auto)
  then have fl: "flist (blks ?m) (sp_free_list ?m) (n # xs)" by simp
  have "dom (blks ?m) = insert n (dom (blks m))" by simp
  then have dm: "dom (blks ?m) = dom (blks m)" unfolding insert_absorb [OF nd] .
  have c: "card used = Suc (card (used - {n}))" by (rule card.remove [OF xs(5) assms(2)])
  have "dom (blks ?m) = used - {n} \<union> set (n # xs)" unfolding dm xs(4) using assms(2) by auto
  moreover have "\<forall>a\<in>dom (blks ?m). a < sp_fresh ?m" unfolding dm using xs(6) by simp
  moreover have "set (n # xs) \<inter> (used - {n}) = {}" using xs(3) by auto
  ultimately have "mem_ok ?m (used - {n})"
    using fl nx xs(2,5,7,8) c by (intro mem_okI [of _ "n # xs"]) simp_all
  then show ?thesis using b by (simp add: sp_free_blk_def)
qed

lemma sp_refill_ok:
  assumes "mem_ok m used"
  shows "mem_ok (sp_refill junk i m) used \<and> (\<forall>x\<in>used. blks (sp_refill junk i m) x = blks m x)
    \<and> (0 < i \<longrightarrow> sp_free_list (sp_refill junk i m) \<noteq> None)"
  using assms
proof (induction i arbitrary: m)
  case (Suc i)
  let ?f = "sp_fresh m"
  let ?m = "m\<lparr>blks := (blks m)(?f \<mapsto> set_up (sp_free_list m) (junk ?f)), sp_free_list := Some ?f,
              sp_allocated := sp_allocated m + 1, sp_fresh := ?f + 1\<rparr>"
  have step: "mem_ok ?m used \<and> ?f \<notin> used"
  proof (rule mem_okE [OF Suc.prems])
    fix xs
    assume xs: "flist (blks m) (sp_free_list m) xs" "distinct xs" "set xs \<inter> used = {}"
      "dom (blks m) = used \<union> set xs" "finite used" "\<forall>a\<in>dom (blks m). a < sp_fresh m"
      "sp_entries m = int (card used)" "sp_allocated m = int (card used + length xs)"
    have "?f \<notin> dom (blks m)" using xs(6) by blast
    then have nx: "?f \<notin> set xs" "?f \<notin> used" unfolding xs(4) by blast+
    have "flist (blks ?m) (sp_free_list m) xs" by (rule flist_frame [OF xs(1)]) (use nx in auto)
    then have fl: "flist (blks ?m) (sp_free_list ?m) (?f # xs)" by simp
    have dm: "dom (blks ?m) = insert ?f (dom (blks m))" by auto
    have "dom (blks ?m) = used \<union> set (?f # xs)" unfolding dm xs(4) by auto
    moreover have "\<forall>a\<in>dom (blks ?m). a < sp_fresh ?m" unfolding dm using xs(6) by (simp add: less_Suc_eq)
    ultimately have "mem_ok ?m used"
      using fl nx xs(2,3,5,7,8) by (intro mem_okI [of _ "?f # xs"]) simp_all
    then show ?thesis using nx by simp
  qed
  note IH = Suc.IH [OF step [THEN conjunct1]]
  have "sp_free_list (sp_refill junk i ?m) \<noteq> None"
    using IH by (cases i) auto
  then show ?case using IH step by auto
qed simp

lemma sp_alloc_blk_ok:
  assumes "mem_ok m used"
  shows "\<exists>m' n. sp_alloc_blk junk m = Inr (m', Some n) \<and> n \<notin> used \<and> mem_ok m' (insert n used)
    \<and> (\<forall>x\<in>used. blks m' x = blks m x)"
proof -
  define m1 where "m1 = (if sp_free_list m = None then sp_refill junk SP_ALLOC_N m else m)"
  have m1: "mem_ok m1 used" "\<forall>x\<in>used. blks m1 x = blks m x" "sp_free_list m1 \<noteq> None"
    using sp_refill_ok [OF assms, of junk SP_ALLOC_N] assms by (auto simp: m1_def SP_ALLOC_N_def)
  show ?thesis
  proof (rule mem_okE [OF m1(1)])
    fix xs
    assume xs: "flist (blks m1) (sp_free_list m1) xs" "distinct xs" "set xs \<inter> used = {}"
      "dom (blks m1) = used \<union> set xs" "finite used" "\<forall>a\<in>dom (blks m1). a < sp_fresh m1"
      "sp_entries m1 = int (card used)" "sp_allocated m1 = int (card used + length xs)"
    then obtain n ys b where n: "xs = n # ys" "sp_free_list m1 = Some n" "blks m1 n = Some b"
        "flist (blks m1) (uplink b) ys"
      using m1(3) by (cases xs) auto
    let ?m = "m1\<lparr>sp_free_list := uplink b, sp_entries := sp_entries m1 + 1\<rparr>"
    have "n \<notin> used" using xs(3) n(1) by auto
    moreover have "dom (blks ?m) = insert n used \<union> set ys" using xs(4) n(1) by simp
    moreover have "set ys \<inter> insert n used = {}" using xs(2,3) n(1) by auto
    moreover have "flist (blks ?m) (sp_free_list ?m) ys" using n(4) by simp
    ultimately have "mem_ok ?m (insert n used)"
      using xs(2,5-8) n(1) by (intro mem_okI [of _ ys]) simp_all
    moreover have "sp_alloc_blk junk m = Inr (?m, Some n)"
      using n unfolding sp_alloc_blk_def m1_def [symmetric] by (simp add: Let_def)
    ultimately show ?thesis using m1(2) \<open>n \<notin> used\<close> by simp
  qed
qed

subsection \<open>Finding a key\<close>

text \<open>The block of a key, as the code would find it.\<close>

definition sp_find :: "heap \<Rightarrow> sptree \<Rightarrow> u32 \<Rightarrow> nat option" where
  "sp_find h q k = (case lookup_loop h k (root q) 0 of Some (Inr (n, _)) \<Rightarrow> n | _ \<Rightarrow> None)"

text \<open>The result of a search for \<open>k\<close> in a tree.\<close>

definition is_hit :: "heap \<Rightarrow> nat tree \<Rightarrow> u32 \<Rightarrow> ptr \<Rightarrow> bool" where
  "is_hit h t k n \<longleftrightarrow> (case n of None \<Rightarrow> k \<notin> key_at h ` set_tree t
     | Some a \<Rightarrow> a \<in> set_tree t \<and> key_at h a = k)"

lemma lookup_loop_ok:
  assumes "rep h up p t" "sorted_wrt (<) (map (key_at h) (inorder t))"
  shows "\<exists>n c'. lookup_loop h k p c = Some (Inr (n, c')) \<and> is_hit h t k n"
  using assms
proof (induction t arbitrary: up p c)
  case Leaf
  then show ?case by (subst lookup_loop.simps) (simp add: is_hit_def)
next
  case (Node l a r)
  obtain b where b: "p = Some a" "h a = Some b" "rep h (Some a) (leftlink b) l" "rep h (Some a) (rightlink b) r"
    using Node.prems(1) by (auto split: option.splits)
  have ka: "key b = key_at h a" using b(2) by (simp add: key_at_def)
  have srt: "sorted_wrt (<) (map (key_at h) (inorder l))" "sorted_wrt (<) (map (key_at h) (inorder r))"
    and lt: "\<forall>x\<in>set_tree l. key_at h x < key_at h a" "\<forall>x\<in>set_tree r. key_at h a < key_at h x"
    using Node.prems(2) by (auto simp: sorted_wrt_append)
  consider "k = key_at h a" | "k < key_at h a" | "key_at h a < k" by fastforce
  then show ?case
  proof cases
    case 1
    then show ?thesis using b ka by (subst lookup_loop.simps) (simp add: is_hit_def)
  next
    case 2
    obtain n c' where n: "lookup_loop h k (leftlink b) (c + 1) = Some (Inr (n, c'))" "is_hit h l k n"
      using Node.IH(1) [OF b(3) srt(1)] by blast
    have "is_hit h (Node l a r) k n" using n(2) 2 lt by (force simp: is_hit_def split: option.splits)
    then show ?thesis using b ka n(1) 2 by (subst lookup_loop.simps) auto
  next
    case 3
    obtain n c' where n: "lookup_loop h k (rightlink b) (c + 1) = Some (Inr (n, c'))" "is_hit h r k n"
      using Node.IH(2) [OF b(4) srt(2)] by blast
    have "is_hit h (Node l a r) k n" using n(2) 3 lt by (force simp: is_hit_def split: option.splits)
    then show ?thesis using b ka n(1) 3 by (subst lookup_loop.simps) auto
  qed
qed

lemma is_hit_unique:
  assumes "tree_ok h q t" "is_hit h t k n" "is_hit h t k n'"
  shows "n = n'"
  using assms key_at_inj [OF assms(1)] by (auto simp: is_hit_def split: option.splits)

lemma sp_find_hit: "tree_ok h q t \<Longrightarrow> is_hit h t k (sp_find h q k)"
  using lookup_loop_ok [of h None "root q" t k 0] by (auto simp: tree_ok_def sp_find_def)

lemma sp_find_eqI: "tree_ok h q t \<Longrightarrow> is_hit h t k n \<Longrightarrow> sp_find h q k = n"
  using is_hit_unique sp_find_hit by blast

lemma sp_find_iff: "tree_ok h q t \<Longrightarrow> sp_find h q k = Some a \<longleftrightarrow> a \<in> set_tree t \<and> key_at h a = k"
  using sp_find_hit [of h q t k] sp_find_eqI [of h q t k "Some a"] by (auto simp: is_hit_def)

text \<open>The blocks in order determine what is found.\<close>

lemma tree_ok_same_order:
  assumes "tree_ok h q t" "rep h' None (root q') t'" "inorder t' = inorder t" "payload h' = payload h"
  shows "tree_ok h' q' t' \<and> sp_find h' q' = sp_find h q \<and> set_tree t' = set_tree t"
proof -
  have k: "key_at h' = key_at h" by (rule payload_key_at [OF assms(4)])
  have s: "set_tree t' = set_tree t" using assms(3) by (metis set_inorder)
  have t': "tree_ok h' q' t'" using assms(1-3) k by (simp add: tree_ok_def)
  have "sp_find h' q' x = sp_find h q x" for x
    using sp_find_hit [OF t', of x] k s
    by (intro sp_find_eqI [OF assms(1), symmetric]) (simp add: is_hit_def split: option.splits)
  then show ?thesis using t' s by auto
qed

lemma sp_lookup_ok:
  assumes t: "tree_ok h q t"
  shows "\<exists>h' q' t'. sp_lookup k h q = Some (Inr (h', q', sp_find h q k)) \<and> tree_ok h' q' t'
    \<and> inorder t' = inorder t \<and> payload h' = payload h \<and> eltscnt q' = eltscnt q \<and> symbols q' = symbols q
    \<and> (\<forall>x. x \<notin> set_tree t \<longrightarrow> h' x = h x) \<and> (sp_find h q k \<noteq> None \<longrightarrow> root q' = sp_find h q k)"
proof -
  obtain n c where n: "lookup_loop h k (root q) (ucast (lkpcmps q + 1)) = Some (Inr (n, c))" "is_hit h t k n"
    using lookup_loop_ok t unfolding tree_ok_def by blast
  have nf: "sp_find h q k = n" by (rule sp_find_eqI [OF t n(2)])
  let ?q = "q\<lparr>lookups := lookups q + 1, lkpcmps := scast c\<rparr>"
  have t1: "tree_ok h ?q t" using t by (simp add: tree_ok_def)
  show ?thesis
  proof (cases n)
    case None
    then show ?thesis using n(1) nf t1 by (intro exI [of _ h] exI [of _ ?q] exI [of _ t]) (simp add: sp_lookup_def)
  next
    case (Some a)
    then have a: "a \<in> set_tree t" using n(2) by (simp add: is_hit_def)
    obtain h1 q1 l r where h1: "splay h (Some a) ?q = Some (Inr (h1, q1))" "rep h1 None (root q1) (Node l a r)"
        "root q1 = Some a" "inorder (Node l a r) = inorder t" "payload h1 = payload h"
        "eltscnt q1 = eltscnt q" "symbols q1 = symbols q" "\<forall>x. x \<notin> set_tree t \<longrightarrow> h1 x = h x"
      using splay_correct [of h ?q t a] t1 tree_ok_distinct [OF t1] a by (auto simp: tree_ok_def)
    have "tree_ok h1 q1 (Node l a r)" using tree_ok_same_order [OF t1 h1(2,4,5)] by simp
    then show ?thesis
      using n(1) nf Some h1
      by (intro exI [of _ h1] exI [of _ q1] exI [of _ "Node l a r"]) (simp add: sp_lookup_def)
  qed
qed

subsection \<open>Installing\<close>

lemma sorted_join:
  assumes "sorted_wrt (<) (map kf xs)" "\<forall>a\<in>set l. kf a < k" "\<forall>a\<in>set r. k < (kf a :: u32)"
    and "xs = l @ r" "kf n = k"
  shows "sorted_wrt (<) (map kf (l @ n # r))"
  using assms by (auto simp: sorted_wrt_append)

text \<open>A new block with a new key enters the tree.\<close>

lemma enq_tree_ok:
  assumes t: "tree_ok h q t" and n: "n \<notin> set_tree t" "h n = Some b" and new: "key b \<notin> key_at h ` set_tree t"
  shows "\<exists>h' q' t'. sp_enq h (Some n) q = Some (Inr (h', q', Some n)) \<and> tree_ok h' q' t'
    \<and> set_tree t' = insert n (set_tree t) \<and> payload h' = payload h \<and> root q' = Some n
    \<and> eltscnt q' = eltscnt q \<and> symbols q' = symbols q \<and> (\<forall>x. x \<notin> insert n (set_tree t) \<longrightarrow> h' x = h x)"
proof -
  have kb: "key_at h n = key b" using n(2) by (simp add: key_at_def)
  have srt: "sorted_wrt (<) (map (key_at h) (inorder t))" using t by (simp add: tree_ok_def)
  have kf: "\<forall>a c. h a = Some c \<longrightarrow> key c = key_at h a" by (simp add: key_at_def)
  obtain h1 q1 l r where e: "sp_enq h (Some n) q = Some (Inr (h1, q1, Some n))" "root q1 = Some n"
      "rep h1 None (Some n) (Node l n r)" "inorder l @ inorder r = inorder t"
      "\<forall>a\<in>set_tree l. key_at h a < key_at h n" "\<forall>a\<in>set_tree r. \<not> key_at h a < key_at h n"
      "payload h1 = payload h" "eltscnt q1 = eltscnt q" "symbols q1 = symbols q"
      "\<forall>x. x \<notin> insert n (set_tree t) \<longrightarrow> h1 x = h x"
    using sp_enq_correct [OF _ tree_ok_distinct [OF t] n kf strict_sorted [OF srt]] t
    unfolding tree_ok_def by blast
  have st: "set_tree l \<union> set_tree r = set_tree t"
    by (metis e(4) set_append set_inorder)
  have "\<forall>a\<in>set_tree r. key_at h n < key_at h a"
  proof
    fix a assume a: "a \<in> set_tree r"
    then have "key_at h a \<noteq> key_at h n" using new kb st by (metis UnI2 image_eqI)
    then show "key_at h n < key_at h a" using e(6) a by force
  qed
  then have "sorted_wrt (<) (map (key_at h) (inorder l @ n # inorder r))"
    using e(5) srt by (intro sorted_join [where k = "key_at h n" and xs = "inorder t"]) (simp_all add: e(4))
  then have "tree_ok h1 q1 (Node l n r)"
    using e(2,3) payload_key_at [OF e(7)] by (simp add: tree_ok_def)
  moreover have "set_tree (Node l n r) = insert n (set_tree t)" using st by auto
  ultimately show ?thesis using e by blast
qed

text \<open>Installing a key that is there gives its block; otherwise a fresh block enters the tree.\<close>

lemma sp_install_ok:
  assumes t: "tree_ok (blks m) q t" and m: "mem_ok m used" and sub: "set_tree t \<subseteq> used"
  shows "\<exists>m' q' t' n. sp_install junk k m q = Some (Inr (m', q', Some n)) \<and> tree_ok (blks m') q' t'
    \<and> mem_ok m' (insert n used) \<and> set_tree t' = insert n (set_tree t)
    \<and> key_at (blks m') n = k \<and> (\<forall>a\<in>used. payload (blks m') a = payload (blks m) a)
    \<and> (case sp_find (blks m) q k of Some a \<Rightarrow> n = a \<and> eltscnt q' = eltscnt q
       | None \<Rightarrow> n \<notin> used \<and> eltscnt q' = eltscnt q + 1)
    \<and> symbols q' = symbols q \<and> (\<forall>x\<in>used - set_tree t. blks m' x = blks m x)"
proof -
  obtain h1 q1 t1 where l: "sp_lookup k (blks m) q = Some (Inr (h1, q1, sp_find (blks m) q k))"
      "tree_ok h1 q1 t1" "inorder t1 = inorder t" "payload h1 = payload (blks m)" "eltscnt q1 = eltscnt q"
      "symbols q1 = symbols q" "\<forall>x. x \<notin> set_tree t \<longrightarrow> h1 x = blks m x"
    using sp_lookup_ok [OF t, of k] by blast
  have st1: "set_tree t1 = set_tree t" using l(3) by (metis set_inorder)
  let ?m1 = "m\<lparr>blks := h1\<rparr>"
  have m1: "mem_ok ?m1 used"
    using l(7) sub by (intro mem_ok_heap [OF m payload_dom [OF l(4)]]) auto
  show ?thesis
  proof (cases "sp_find (blks m) q k")
    case (Some a)
    then have a: "a \<in> set_tree t" "key_at (blks m) a = k" using sp_find_iff [OF t] by auto
    have "insert a used = used" "insert a (set_tree t) = set_tree t" using a(1) sub by auto
    then show ?thesis
      using Some l m1 st1 a(2) payload_key_at [OF l(4)]
      by (intro exI [of _ ?m1] exI [of _ q1] exI [of _ t1] exI [of _ a]) (simp add: sp_install_def Let_def)
  next
    case None
    have nk: "k \<notin> key_at (blks m) ` set_tree t"
      using sp_find_hit [OF t, of k] None by (simp add: is_hit_def)
    obtain m2 n where al: "sp_alloc_blk junk ?m1 = Inr (m2, Some n)" "n \<notin> used" "mem_ok m2 (insert n used)"
        "\<forall>x\<in>used. blks m2 x = h1 x"
      using sp_alloc_blk_ok [OF m1, of junk] by auto
    have "n \<in> dom (blks m2)" using al(3) by (auto simp: mem_ok_def)
    then obtain b where b: "blks m2 n = Some b" by blast
    let ?b = "b\<lparr>key := k, leftlink := None, rightlink := None, uplink := None\<rparr>"
    let ?h3 = "(blks m2)(n \<mapsto> ?b)" and ?q2 = "q1\<lparr>eltscnt := eltscnt q1 + 1\<rparr>"
    have same: "?h3 x = h1 x" if "x \<in> used" for x using that al(2,4) by auto
    have st: "\<forall>x\<in>set_tree t1. ?h3 x = h1 x" using same sub st1 by blast
    have kq: "key_at ?h3 x = key_at h1 x" if "x \<in> used" for x using same [OF that] by (simp add: key_at_def)
    have t3: "tree_ok ?h3 ?q2 t1"
    proof -
      have eq: "map (key_at ?h3) (inorder t1) = map (key_at h1) (inorder t1)"
        using kq sub st1 by auto
      have "rep h1 None (root q1) t1" using l(2) by (simp add: tree_ok_def)
      then have "rep ?h3 None (root q1) t1" by (rule rep_frame) (use st in blast)
      then show ?thesis using l(2) unfolding tree_ok_def eq by simp
    qed
    have n1: "n \<notin> set_tree t1" using al(2) sub st1 by blast
    have new: "key ?b \<notin> key_at ?h3 ` set_tree t1"
      using nk kq sub st1 payload_key_at [OF l(4)] by auto
    obtain h4 q4 t4 where e: "sp_enq ?h3 (Some n) ?q2 = Some (Inr (h4, q4, Some n))" "tree_ok h4 q4 t4"
        "set_tree t4 = insert n (set_tree t1)" "payload h4 = payload ?h3" "eltscnt q4 = eltscnt ?q2"
        "symbols q4 = symbols ?q2" "\<forall>x. x \<notin> insert n (set_tree t1) \<longrightarrow> h4 x = ?h3 x"
      using enq_tree_ok [OF t3 n1 _ new] by auto
    let ?m4 = "m2\<lparr>blks := h4\<rparr>"
    have d3: "dom ?h3 = dom (blks m2)" using b by auto
    have "mem_ok ?m4 (insert n used)"
    proof (rule mem_ok_heap [OF al(3)])
      show "dom h4 = dom (blks m2)" using payload_dom [OF e(4)] d3 by simp
      show "h4 x = blks m2 x" if "x \<notin> insert n used" for x using that e(7) st1 sub by auto
    qed
    moreover have "key_at h4 n = k" using payload_key_at [OF e(4)] by (simp add: key_at_def)
    moreover have "payload h4 a = payload (blks m) a" if "a \<in> used" for a
    proof -
      have "payload h4 a = payload ?h3 a" using e(4) by simp
      also have "\<dots> = payload h1 a" using same [OF that] by (simp add: payload_def)
      finally show ?thesis using l(4) by simp
    qed
    moreover have "h4 x = blks m x" if "x \<in> used - set_tree t" for x
    proof -
      have "x \<noteq> n" "x \<in> used" "x \<notin> set_tree t" using that al(2) by auto
      then show ?thesis using e(7) l(7) al(4) st1 by simp
    qed
    moreover have "sp_install junk k m q = Some (Inr (?m4, q4, Some n))"
      using l(1) None al(1) b e(1) by (simp add: sp_install_def Let_def)
    ultimately show ?thesis
      using None e st1 al(2) l(5,6)
      by (intro exI [of _ ?m4] exI [of _ q4] exI [of _ t4] exI [of _ n]) simp
  qed
qed

subsection \<open>Deleting\<close>

lemma sp_deq_ok:
  assumes t: "rep h up (Some a) t" and d: "distinct (inorder t)"
  shows "\<exists>h' np dq t' up'. sp_deq h (Some a) = Some (Inr (h', np, Some dq)) \<and> rep h' up' np t'
    \<and> dq # inorder t' = inorder t \<and> payload h' = payload h \<and> (\<forall>x. x \<notin> set_tree t \<longrightarrow> h' x = h x)"
proof -
  obtain l r where t': "t = Node l a r" using t by (cases t) auto
  obtain b where b: "h a = Some b" "rep h (Some a) (leftlink b) l" "rep h (Some a) (rightlink b) r"
    using t t' by (auto split: option.splits)
  show ?thesis
  proof (cases l)
    case Leaf
    obtain h1 where h1: "relink_up h (rightlink b) None = Inr h1" "rep h1 None (rightlink b) r"
        "\<forall>x. x \<notin> set_tree r \<longrightarrow> h1 x = h x" "payload h1 = payload h"
      using relink_up_rep [OF b(3), of None] d t' by auto
    have "sp_deq h (Some a) = Some (Inr (h1, rightlink b, Some a))"
      using b(1,2) Leaf h1(1) by (simp add: sp_deq_def)
    then show ?thesis using h1 Leaf t' by auto
  next
    case (Node ll c lr)
    then have c: "leftlink b = Some c" using b(2) by simp
    obtain h1 dq t1 where h1: "deq_loop h (Some a) (Some c) = Some (Inr (h1, Some dq))" "rep h1 up (Some a) t1"
        "dq # inorder t1 = inorder t" "payload h1 = payload h" "\<forall>x. x \<notin> set_tree t \<longrightarrow> h1 x = h x"
      using deq_loop_ok [of h up a ll c lr r] t d unfolding t' Node by blast
    have "sp_deq h (Some a) = Some (Inr (h1, Some a, Some dq))"
      using b(1) c h1(1) by (simp add: sp_deq_def)
    then show ?thesis using h1(2-5) by blast
  qed
qed

text \<open>The new root over the two remaining trees.\<close>

lemma sp_replace_root_ok:
  assumes r: "root q = Some n" "h n = Some b" and l: "rep h u1 (leftlink b) l" and rt: "rep h u2 (rightlink b) r"
    and x: "h x = Some c" and d: "distinct (n # inorder l @ x # inorder r)"
  shows "\<exists>h' q'. sp_replace_root h q (Some x) = Inr (h', q') \<and> q' = q\<lparr>root := Some x\<rparr>
    \<and> rep h' None (Some x) (Node l x r) \<and> payload h' = payload h
    \<and> (\<forall>y. y \<notin> insert x (set_tree l \<union> set_tree r) \<longrightarrow> h' y = h y)"
proof -
  let ?c = "set_link Rgt (rightlink b) (set_link Lft (leftlink b) (set_up None c))"
  let ?h1 = "h(x \<mapsto> ?c)"
  have "rep ?h1 u1 (leftlink b) l" "rep ?h1 u2 (rightlink b) r"
    using d by (auto intro!: rep_frame [OF l] rep_frame [OF rt])
  note reps = this
  have dd: "distinct (inorder l)" "distinct (inorder r)" "x \<notin> set_tree l" "x \<notin> set_tree r"
      "set_tree l \<inter> set_tree r = {}"
    using d by auto
  obtain h2 where h2: "relink_up ?h1 (leftlink b) (Some x) = Inr h2" "rep h2 (Some x) (leftlink b) l"
      "\<forall>y. y \<notin> set_tree l \<longrightarrow> h2 y = ?h1 y" "payload h2 = payload ?h1"
    using relink_up_rep [OF reps(1) dd(1)] by blast
  have "rep h2 u2 (rightlink b) r" using dd h2(3) by (intro rep_frame [OF reps(2)]) auto
  then obtain h3 where h3: "relink_up h2 (rightlink b) (Some x) = Inr h3" "rep h3 (Some x) (rightlink b) r"
      "\<forall>y. y \<notin> set_tree r \<longrightarrow> h3 y = h2 y" "payload h3 = payload h2"
    using relink_up_rep [OF _ dd(2)] by blast
  have "h3 x = Some ?c" using dd h2(3) h3(3) by simp
  moreover have "rep h3 (Some x) (leftlink b) l" using dd h3(3) by (intro rep_frame [OF h2(2)]) auto
  ultimately have "rep h3 None (Some x) (Node l x r)" using h3(2) by (simp add: set_up_def)
  moreover have "payload h3 = payload h" using h2(4) h3(4) x by simp
  moreover have "sp_replace_root h q (Some x) = Inr (h3, q\<lparr>root := Some x\<rparr>)"
    using r x h2(1) h3(1) by (simp add: sp_replace_root_def)
  ultimately show ?thesis using h2(3) h3(3) by (intro exI [of _ h3]) simp
qed

lemma remove1_mid: "n \<notin> set xs \<Longrightarrow> remove1 n (xs @ n # ys) = xs @ ys"
  by (simp add: remove1_append)

text \<open>Deleting takes one block out of the tree and frees it.\<close>

lemma sp_delete_ok:
  assumes t: "tree_ok (blks m) q t" and m: "mem_ok m used" and sub: "set_tree t \<subseteq> used" and n: "n \<in> set_tree t"
  shows "\<exists>m' q' t'. sp_delete n m q = Some (Inr (m', q')) \<and> tree_ok (blks m') q' t'
    \<and> mem_ok m' (used - {n}) \<and> inorder t' = remove1 n (inorder t)
    \<and> (\<forall>a\<in>used - {n}. payload (blks m') a = payload (blks m) a)
    \<and> eltscnt q' = eltscnt q - 1 \<and> symbols q' = symbols q \<and> (\<forall>x\<in>used - set_tree t. blks m' x = blks m x)"
proof -
  have dist: "distinct (inorder t)" by (rule tree_ok_distinct [OF t])
  obtain h1 q1 l r where s: "splay (blks m) (Some n) q = Some (Inr (h1, q1))" "rep h1 None (root q1) (Node l n r)"
      "root q1 = Some n" "inorder (Node l n r) = inorder t" "payload h1 = payload (blks m)"
      "eltscnt q1 = eltscnt q" "symbols q1 = symbols q" "\<forall>x. x \<notin> set_tree t \<longrightarrow> h1 x = blks m x"
    using splay_correct [of "blks m" q t n] t dist n unfolding tree_ok_def by blast
  obtain b where b: "h1 n = Some b" "rep h1 (Some n) (leftlink b) l" "rep h1 (Some n) (rightlink b) r"
    using s(2,3) by (auto split: option.splits)
  have ord: "inorder t = inorder l @ n # inorder r" using s(4) by simp
  have d1: "distinct (inorder l @ n # inorder r)" using dist ord by simp
  have st: "set_tree t = insert n (set_tree l \<union> set_tree r)" using arg_cong [OF ord, of set] by auto
  have rem: "remove1 n (inorder t) = inorder l @ inorder r" using d1 ord by (simp add: remove1_mid)
  have "\<exists>h2 np x h4 q4 t4. sp_deq h1 (rightlink b) = Some (Inr (h2, np, x)) \<and>
      res_bind (update h2 (Some n) (set_link Rgt np)) (\<lambda>h3. sp_replace_root h3 q1 x) = Inr (h4, q4) \<and>
      rep h4 None (root q4) t4 \<and> inorder t4 = inorder l @ inorder r \<and> payload h4 = payload h1
      \<and> eltscnt q4 = eltscnt q1 \<and> symbols q4 = symbols q1 \<and> (\<forall>x. x \<notin> set_tree t \<longrightarrow> h4 x = h1 x)"
  proof (cases r)
    case Leaf
    let ?h = "h1(n \<mapsto> set_link Rgt None b)"
    have "rep ?h (Some n) (leftlink b) l" using d1 by (auto intro!: rep_frame [OF b(2)])
    then obtain h4 where h4: "relink_up ?h (leftlink b) None = Inr h4" "rep h4 None (leftlink b) l"
        "\<forall>x. x \<notin> set_tree l \<longrightarrow> h4 x = ?h x" "payload h4 = payload ?h"
      using relink_up_rep [of ?h "Some n" "leftlink b" l None] d1 by auto
    have "sp_replace_root ?h q1 None = Inr (h4, q1\<lparr>root := leftlink b\<rparr>)"
      using s(3) h4(1) by (simp add: sp_replace_root_def)
    moreover have "sp_deq h1 (rightlink b) = Some (Inr (h1, None, None))"
      using b(3) Leaf by (simp add: sp_deq_def)
    ultimately show ?thesis
      using h4 b(1) Leaf st by (intro exI [of _ h1] exI [of _ None] exI [of _ h4]
          exI [of _ "q1\<lparr>root := leftlink b\<rparr>"] exI [of _ l]) simp
  next
    case (Node rl a rr)
    then have a: "rightlink b = Some a" using b(3) by simp
    have dr: "distinct (inorder r)" using d1 by simp
    obtain h2 np x t2 u2 where dq: "sp_deq h1 (Some a) = Some (Inr (h2, np, Some x))" "rep h2 u2 np t2"
        "x # inorder t2 = inorder r" "payload h2 = payload h1" "\<forall>y. y \<notin> set_tree r \<longrightarrow> h2 y = h1 y"
      using sp_deq_ok [OF b(3) [unfolded a] dr] by blast
    have sr: "set_tree r = insert x (set_tree t2)" using arg_cong [OF dq(3), of set] by simp
    have d2: "distinct (n # inorder l @ x # inorder t2)" unfolding dq(3) using d1 by auto
    let ?b = "set_link Rgt np b"
    let ?h3 = "h2(n \<mapsto> ?b)"
    have n2: "h2 n = Some b" using dq(5) b(1) d1 by simp
    have l3: "rep ?h3 (Some n) (leftlink ?b) l"
      using d1 dq(5) by (auto intro!: rep_frame [OF b(2)])
    have r3: "rep ?h3 u2 (rightlink ?b) t2" using d2 by (auto intro!: rep_frame [OF dq(2)])
    have "payload h2 x = payload h1 x" using dq(4) by simp
    moreover have "h1 x \<noteq> None" using rep_alloc [OF b(3)] sr by auto
    ultimately obtain c where c: "?h3 x = Some c" using d2 by (cases "h2 x") (auto simp: payload_def)
    have b3: "?h3 n = Some ?b" by simp
    obtain h4 q4 where h4: "sp_replace_root ?h3 q1 (Some x) = Inr (h4, q4)" "q4 = q1\<lparr>root := Some x\<rparr>"
        "rep h4 None (Some x) (Node l x t2)" "payload h4 = payload ?h3"
        "\<forall>y. y \<notin> insert x (set_tree l \<union> set_tree t2) \<longrightarrow> h4 y = ?h3 y"
      using sp_replace_root_ok [OF s(3) b3 l3 r3 c d2] by blast
    have "h4 y = h1 y" if "y \<notin> set_tree t" for y
    proof -
      have "y \<noteq> n" "y \<notin> insert x (set_tree l \<union> set_tree t2)" "y \<notin> set_tree r" using that st sr by auto
      then show ?thesis using h4(5) dq(5) by simp
    qed
    moreover have "inorder (Node l x t2) = inorder l @ inorder r" using dq(3) by simp
    ultimately show ?thesis
      using dq(1,4) a h4(1-4) n2
      by (intro exI [of _ h2] exI [of _ np] exI [of _ "Some x"] exI [of _ h4] exI [of _ q4]
          exI [of _ "Node l x t2"]) simp
  qed
  then obtain h2 np x h4 q4 t4 where r4: "sp_deq h1 (rightlink b) = Some (Inr (h2, np, x))"
      "res_bind (update h2 (Some n) (set_link Rgt np)) (\<lambda>h3. sp_replace_root h3 q1 x) = Inr (h4, q4)"
      "rep h4 None (root q4) t4" "inorder t4 = inorder l @ inorder r" "payload h4 = payload h1"
      "eltscnt q4 = eltscnt q1" "symbols q4 = symbols q1" "\<forall>x. x \<notin> set_tree t \<longrightarrow> h4 x = h1 x"
    by blast
  have pay4: "payload h4 = payload (blks m)" using r4(5) s(5) by simp
  have m4: "mem_ok (m\<lparr>blks := h4\<rparr>) used"
    using r4(8) s(8) sub by (intro mem_ok_heap [OF m payload_dom [OF pay4]]) auto
  obtain m5 where m5: "sp_free_blk n (m\<lparr>blks := h4\<rparr>) = Inr m5" "mem_ok m5 (used - {n})"
      "\<forall>x. x \<noteq> n \<longrightarrow> blks m5 x = h4 x"
    using sp_free_blk_ok [OF m4, of n] n sub by auto
  obtain h3 where h3: "update h2 (Some n) (set_link Rgt np) = Inr h3" "sp_replace_root h3 q1 x = Inr (h4, q4)"
    using r4(2) by (auto simp: res_bind_Inr_iff)
  let ?q = "q4\<lparr>eltscnt := eltscnt q4 - 1\<rparr>"
  have "sp_delete n m q = Some (Inr (m5, ?q))"
    using s(1,3) b(1) r4(1) h3 m5(1) by (simp add: sp_delete_def)
  moreover have "tree_ok (blks m5) ?q t4"
  proof -
    have nt: "n \<notin> set_tree t4" using arg_cong [OF r4(4), of set] d1 by auto
    have "rep (blks m5) None (root q4) t4" using nt m5(3) by (intro rep_frame [OF r4(3)]) auto
    moreover have eq: "map (key_at (blks m5)) (inorder t4) = map (key_at (blks m)) (inorder t4)"
    proof (rule map_cong [OF refl])
      fix y assume "y \<in> set (inorder t4)"
      then have "blks m5 y = h4 y" using nt m5(3) by auto
      then have "key_at (blks m5) y = key_at h4 y" by (simp add: key_at_def)
      then show "key_at (blks m5) y = key_at (blks m) y" using payload_key_at [OF pay4] by simp
    qed
    moreover have "sorted_wrt (<) (map (key_at (blks m)) (inorder t4))"
      using t ord unfolding r4(4) by (auto simp: tree_ok_def sorted_wrt_append)
    ultimately show ?thesis unfolding tree_ok_def eq by simp
  qed
  moreover have "payload (blks m5) a = payload (blks m) a" if "a \<in> used - {n}" for a
  proof -
    have "blks m5 a = h4 a" using that m5(3) by auto
    then have "payload (blks m5) a = payload h4 a" by (simp add: payload_def)
    then show ?thesis using pay4 by simp
  qed
  moreover have "blks m5 y = blks m y" if "y \<in> used - set_tree t" for y
  proof -
    have "y \<noteq> n" "y \<notin> set_tree t" using that n by auto
    then show ?thesis using m5(3) r4(8) s(8) by simp
  qed
  ultimately show ?thesis using m5(2) r4(4,6,7) s(6,7) rem
    by (intro exI [of _ m5] exI [of _ ?q] exI [of _ t4]) simp
qed

end
