(* ===== verification/Spwalk.thy ===== *)
theory Spwalk
  imports Spmap
begin

section \<open>Walking and emptying a splay tree\<close>

text \<open>
  \<open>sp_fhead\<close> and \<open>sp_fnext\<close> enumerate the blocks in ascending order, also when the block just
  left has been deleted; \<open>sp_scan\<close> visits each once; \<open>sp_null\<close> returns all blocks to the free
  list; \<open>sp_free_freelist\<close> leaves a dangling list.
\<close>

subsection \<open>The next block\<close>

text \<open>The head of a list as the C code gives it, \<open>NULL\<close> when there is none.\<close>

definition first_of :: "nat list \<Rightarrow> ptr" where
  "first_of xs = (case xs of [] \<Rightarrow> None | x # _ \<Rightarrow> Some x)"

lemma first_of_simps [simp]: "first_of [] = None" "first_of (x # xs) = Some x"
  by (simp_all add: first_of_def)

lemma first_of_append: "xs \<noteq> [] \<Longrightarrow> first_of (xs @ ys) = first_of xs"
  by (cases xs) auto

lemma leftmost_ok:
  assumes "rep h up (Some a) t"
  shows "leftmost h (Some a) = Some (Inr (first_of (inorder t)))"
  using assms
proof (induction t arbitrary: up a)
  case (Node l x r)
  then obtain b where b: "x = a" "h a = Some b" "rep h (Some a) (leftlink b) l"
    by (auto split: option.splits)
  show ?case
  proof (cases l)
    case Leaf
    then show ?thesis using b by (subst leftmost.simps) simp
  next
    case (Node l1 c l2)
    then have c: "leftlink b = Some c" using b(3) by simp
    then have "leftmost h (Some c) = Some (Inr (first_of (inorder l)))" using Node.IH(1) b(3) by simp
    moreover have "inorder l \<noteq> []" using Node by simp
    ultimately show ?thesis using b c by (subst leftmost.simps) (simp add: first_of_append)
  qed
qed simp

lemma sp_fhead_ok: "tree_ok h q t \<Longrightarrow> sp_fhead h q = Some (Inr (first_of (inorder t)))"
  using leftmost_ok [of h None] by (cases "root q") (auto simp: tree_ok_def sp_fhead_def rep_None)

lemma climb_ok:
  assumes "prep h up (Some n) p" "distinct (n # path_list p)"
  shows "climb h (Some n) up = Some (Inr (first_of (beside Rgt p)))"
  using assms
proof (induction p arbitrary: up n)
  case Nil
  then show ?case by (subst climb.simps) simp
next
  case (Cons f p)
  obtain s a t where f: "f = (s, a, t)" by (cases f)
  obtain b where b: "up = Some a" "h a = Some b" "prep h (uplink b) (Some a) p" using Cons.prems(1) f by auto
  have "n \<notin> set_tree t" using Cons.prems(2) f by auto
  then have side: "leftlink b = Some n \<longleftrightarrow> s = Lft"
    using prep_other_link [of h up n s a t p b Lft] Cons.prems(1) f b(2) by auto
  show ?case
  proof (cases s)
    case Lft
    then show ?thesis using b side f by (subst climb.simps) simp
  next
    case Rgt
    have "climb h (Some a) (uplink b) = Some (Inr (first_of (beside Rgt p)))"
      using Cons.IH [OF b(3)] Cons.prems(2) f by simp
    then show ?thesis using b side f Rgt by (subst climb.simps) simp
  qed
qed

lemma sp_fnext_ok:
  assumes t: "tree_ok h q t" and ord: "inorder t = xs @ n # ys"
  shows "sp_fnext h (Some n) = Some (Inr (first_of ys))"
proof -
  have rt: "rep h None (root q) t" using t by (simp add: tree_ok_def)
  have d: "distinct (inorder t)" by (rule tree_ok_distinct [OF t])
  have n: "n \<in> set_tree t" using arg_cong [OF ord, of set] by simp
  obtain p b l r where p: "h n = Some b" "rep h (Some n) (leftlink b) l" "rep h (Some n) (rightlink b) r"
      "prep h (uplink b) (Some n) p"
      "beside Lft p @ inorder l @ n # inorder r @ beside Rgt p = inorder t"
      "mset (path_list p @ n # inorder l @ inorder r) = mset (inorder t)"
    using find_path [OF rt _ n, of "[]"] by auto
  have "xs @ n # ys = (beside Lft p @ inorder l) @ n # (inorder r @ beside Rgt p)" using p(5) ord by simp
  moreover have "n \<notin> set xs" "n \<notin> set ys" using d unfolding ord by simp_all
  ultimately have ys: "ys = inorder r @ beside Rgt p"
    using append_Cons_eq_iff [of n xs ys "beside Lft p @ inorder l" "inorder r @ beside Rgt p"] by blast
  show ?thesis
  proof (cases r)
    case Leaf
    have "distinct (n # path_list p)" using mset_same [OF p(6)] d by auto
    then show ?thesis using climb_ok [OF p(4)] p(1,3) Leaf ys by (simp add: sp_fnext_def)
  next
    case (Node r1 c r2)
    then have c: "rightlink b = Some c" using p(3) by simp
    have "inorder r \<noteq> []" using Node by simp
    then have "first_of ys = first_of (inorder r)" unfolding ys by (rule first_of_append)
    then show ?thesis
      using leftmost_ok [of h "Some n" c r] p(1,3) c by (simp add: sp_fnext_def)
  qed
qed

subsection \<open>Scanning\<close>

lemma scan_loop_ok:
  assumes t: "tree_ok h q t" and ord: "inorder t = xs @ ys"
  shows "scan_loop h f (first_of ys) s = Some (Inr (fold f ys s))"
  using ord
proof (induction ys arbitrary: xs s)
  case Nil
  then show ?case by (subst scan_loop.simps) simp
next
  case (Cons y ys)
  have "sp_fnext h (Some y) = Some (Inr (first_of ys))" by (rule sp_fnext_ok [OF t Cons.prems])
  moreover have "scan_loop h f (first_of ys) (f y s) = Some (Inr (fold f ys (f y s)))"
    using Cons.prems by (intro Cons.IH [of "xs @ [y]"]) simp
  ultimately show ?case by (subst scan_loop.simps) simp
qed

lemma sp_scan_ok:
  assumes t: "tree_ok h q t"
  shows "sp_scan h f None q s = Some (Inr (fold f (inorder t) s))"
    and "inorder t = xs @ n # ys \<Longrightarrow> sp_scan h f (Some n) q s = Some (Inr (fold f (n # ys) s))"
proof -
  show "sp_scan h f None q s = Some (Inr (fold f (inorder t) s))"
    using sp_fhead_ok [OF t] scan_loop_ok [OF t, of "[]" "inorder t" f s] by (simp add: sp_scan_def)
  show "sp_scan h f (Some n) q s = Some (Inr (fold f (n # ys) s))" if o: "inorder t = xs @ n # ys"
    using scan_loop_ok [OF t o, of f s] by (simp add: sp_scan_def)
qed

subsection \<open>Emptying\<close>

lemma sp_chop_ok:
  assumes "rep (blks m) up (Some n) t" "distinct (inorder t)" "mem_ok m used" "set_tree t \<subseteq> used"
  shows "\<exists>m'. sp_chop n m = Some (Inr m') \<and> mem_ok m' (used - set_tree t)
    \<and> (\<forall>x. x \<notin> set_tree t \<longrightarrow> blks m' x = blks m x)"
  using assms
proof (induction t arbitrary: up n m used)
  case (Node l a r)
  obtain b where b: "a = n" "blks m n = Some b" "rep (blks m) (Some n) (leftlink b) l"
      "rep (blks m) (Some n) (rightlink b) r"
    using Node.prems(1) by (auto split: option.splits)
  have d: "distinct (inorder l)" "distinct (inorder r)" "n \<notin> set_tree l" "n \<notin> set_tree r"
      "set_tree l \<inter> set_tree r = {}" "set_tree l \<subseteq> used" "set_tree r \<subseteq> used" "n \<in> used"
    using Node.prems(2,4) b(1) by auto
  obtain m1 where m1: "(case rightlink b of None \<Rightarrow> Some (Inr m) | Some x \<Rightarrow> sp_chop x m) = Some (Inr m1)"
      "mem_ok m1 (used - set_tree r)" "\<forall>x. x \<notin> set_tree r \<longrightarrow> blks m1 x = blks m x"
  proof (cases "rightlink b")
    case None
    then have "r = Leaf" using b(4) by (simp add: rep_None)
    then show ?thesis using that [of m] None Node.prems(3) by simp
  next
    case (Some c)
    then show ?thesis using that Node.IH(2) [OF b(4) [unfolded Some] d(2) Node.prems(3) d(7)] by auto
  qed
  have n1: "blks m1 n = Some b" using m1(3) d b(2) by simp
  have l1: "rep (blks m1) (Some n) (leftlink b) l" using d m1(3) by (intro rep_frame [OF b(3)]) auto
  have sub1: "set_tree l \<subseteq> used - set_tree r" using d by auto
  obtain m2 where m2: "(case leftlink b of None \<Rightarrow> Some (Inr m1) | Some x \<Rightarrow> sp_chop x m1) = Some (Inr m2)"
      "mem_ok m2 (used - set_tree r - set_tree l)" "\<forall>x. x \<notin> set_tree l \<longrightarrow> blks m2 x = blks m1 x"
  proof (cases "leftlink b")
    case None
    then have "l = Leaf" using b(3) by (simp add: rep_None)
    then show ?thesis using that [of m1] None m1(2) by simp
  next
    case (Some c)
    then show ?thesis using that Node.IH(1) [OF l1 [unfolded Some] d(1) m1(2) sub1] by auto
  qed
  have "n \<in> used - set_tree r - set_tree l" using d by blast
  then obtain m3 where m3: "sp_free_blk n m2 = Inr m3" "mem_ok m3 (used - set_tree r - set_tree l - {n})"
      "\<forall>x. x \<noteq> n \<longrightarrow> blks m3 x = blks m2 x"
    using sp_free_blk_ok [OF m2(2)] by blast
  have "used - set_tree r - set_tree l - {n} = used - set_tree (Node l a r)" using b(1) by auto
  moreover have "sp_chop n m = Some (Inr m3)"
    using b(2) n1 m1(1) m2(1) m3(1) by (subst sp_chop.simps) simp
  ultimately show ?case using m3 m2(3) m1(3) b(1) by auto
qed simp

lemma sp_null_ok:
  assumes t: "tree_ok (blks m) q t" and m: "mem_ok m used" "set_tree t \<subseteq> used"
  shows "\<exists>m' q'. sp_null m q = Some (Inr (m', q')) \<and> tree_ok (blks m') q' Leaf \<and> mem_ok m' (used - set_tree t)
    \<and> symbols q' = symbols q \<and> (eltscnt q = of_nat (size t) \<longrightarrow> eltscnt q' = 0)
    \<and> (\<forall>x. x \<notin> set_tree t \<longrightarrow> blks m' x = blks m x)"
proof (cases "root q")
  case None
  then have "t = Leaf" using t by (simp add: tree_ok_def rep_None)
  then show ?thesis using None t m by (intro exI [of _ m] exI [of _ q]) (simp add: sp_null_def)
next
  case (Some n)
  then show ?thesis
    using sp_chop_ok [of m None n t used] t tree_ok_distinct [OF t] m
    by (auto simp: tree_ok_def sp_null_def sp_init_def)
qed

subsection \<open>Giving the free list back\<close>

lemma free_freelist_loop_ok:
  assumes "flist (blks m) p xs" "distinct xs"
  shows "\<exists>m'. sp_free_freelist_loop p m = Some (Inr m') \<and> blks m' = (\<lambda>x. if x \<in> set xs then None else blks m x)
    \<and> sp_free_list m' = sp_free_list m \<and> sp_entries m' = sp_entries m - int (length xs)"
  using assms
proof (induction xs arbitrary: p m)
  case Nil
  then show ?case by (subst sp_free_freelist_loop.simps) simp
next
  case (Cons x xs)
  obtain b where b: "p = Some x" "blks m x = Some b" "flist (blks m) (uplink b) xs" using Cons.prems(1) by auto
  let ?m = "m\<lparr>blks := (blks m)(x := None), sp_entries := sp_entries m - 1\<rparr>"
  have "flist (blks ?m) (uplink b) xs" using Cons.prems(2) by (intro flist_frame [OF b(3)]) auto
  then obtain m' where m': "sp_free_freelist_loop (uplink b) ?m = Some (Inr m')"
      "blks m' = (\<lambda>y. if y \<in> set xs then None else blks ?m y)" "sp_free_list m' = sp_free_list ?m"
      "sp_entries m' = sp_entries ?m - int (length xs)"
  proof -
    have d: "distinct xs" using Cons.prems(2) by simp
    show ?thesis using Cons.IH [OF \<open>flist (blks ?m) (uplink b) xs\<close> d] that by blast
  qed
  have "sp_free_freelist_loop p m = Some (Inr m')" using b(1,2) m'(1) by (subst sp_free_freelist_loop.simps) simp
  then show ?case using m'(2-4) by (auto simp: fun_eq_iff)
qed

end
