(* ===== verification/Spstore.thy ===== *)
theory Spstore
  imports Spwalk
begin

section \<open>The contract of a splay tree\<close>

text \<open>
  The locale \<open>block_store\<close> is the contract of \<open>splay.c\<close>: blocks found by a key, each with a
  datum its owner sets. From it follows that clients see a table from keys to data. The splay
  trees in memory are an interpretation; the properties of \<open>splay.c\<close> stand at the end.
\<close>

locale block_store =
  fixes inv :: "'s \<Rightarrow> bool"
    and find :: "'s \<Rightarrow> u32 \<Rightarrow> nat option"
    and datum :: "'s \<Rightarrow> nat \<Rightarrow> ptr"
    and lookup :: "u32 \<Rightarrow> 's \<Rightarrow> ('s \<times> ptr) res option"
    and install :: "u32 \<Rightarrow> 's \<Rightarrow> ('s \<times> ptr) res option"
    and delete :: "nat \<Rightarrow> 's \<Rightarrow> 's res option"
    and put :: "nat \<Rightarrow> ptr \<Rightarrow> 's \<Rightarrow> 's res"
  assumes find_inj: "inv s \<Longrightarrow> find s k = Some a \<Longrightarrow> find s k' = Some a \<Longrightarrow> k = k'"
    and lookup_law: "inv s \<Longrightarrow>
      \<exists>s'. lookup k s = Some (Inr (s', find s k)) \<and> inv s' \<and> find s' = find s \<and> datum s' = datum s"
    and install_law: "inv s \<Longrightarrow>
      \<exists>s' a. install k s = Some (Inr (s', Some a)) \<and> inv s' \<and> find s' = (find s)(k \<mapsto> a)
        \<and> (\<forall>k' b. find s k' = Some b \<longrightarrow> datum s' b = datum s b)"
    and delete_law: "inv s \<Longrightarrow> find s k = Some a \<Longrightarrow>
      \<exists>s'. delete a s = Some (Inr s') \<and> inv s' \<and> find s' = (find s)(k := None)
        \<and> (\<forall>k' b. find s' k' = Some b \<longrightarrow> datum s' b = datum s b)"
    and put_law: "inv s \<Longrightarrow> find s k = Some a \<Longrightarrow>
      \<exists>s'. put a d s = Inr s' \<and> inv s' \<and> find s' = find s \<and> datum s' = (datum s)(a := d)"
begin

definition table :: "'s \<Rightarrow> u32 \<Rightarrow> ptr option" where
  "table s k = map_option (datum s) (find s k)"

lemma table_lookup:
  "inv s \<Longrightarrow> \<exists>s'. lookup k s = Some (Inr (s', find s k)) \<and> inv s' \<and> find s' = find s \<and> datum s' = datum s
     \<and> table s' = table s"
proof -
  assume inv: "inv s"
  have "table s' = table s" if "find s' = find s" "datum s' = datum s" for s'
    by (rule ext) (simp only: table_def that)
  then show ?thesis using lookup_law [OF inv, of k] by blast
qed

text \<open>Setting the datum of a block that is there updates the table at its key.\<close>

lemma table_put:
  assumes "inv s" "find s k = Some a"
  shows "\<exists>s'. put a d s = Inr s' \<and> inv s' \<and> find s' = find s \<and> datum s' = (datum s)(a := d)
    \<and> table s' = (table s)(k \<mapsto> d)"
proof -
  obtain s' where s': "put a d s = Inr s'" "inv s'" "find s' = find s" "datum s' = (datum s)(a := d)"
    using put_law [OF assms, of d] by blast
  have "table s' x = ((table s)(k \<mapsto> d)) x" for x
  proof (cases "find s x = Some a")
    case True
    then have "x = k" using find_inj [OF assms(1) True assms(2)] by simp
    then show ?thesis using True s'(3,4) by (simp add: table_def)
  next
    case False
    then have "x \<noteq> k" using assms(2) by auto
    then show ?thesis using False s'(3,4) by (cases "find s x") (auto simp: table_def)
  qed
  then show ?thesis using s' by blast
qed

text \<open>Installing a key and setting its datum is an update of the table, whatever was there.\<close>

lemma table_enter:
  assumes "inv s"
  shows "\<exists>s1 a s2. install k s = Some (Inr (s1, Some a)) \<and> put a d s1 = Inr s2 \<and> inv s2
    \<and> find s2 = (find s)(k \<mapsto> a) \<and> table s2 = (table s)(k \<mapsto> d)"
proof -
  obtain s1 a where s1: "install k s = Some (Inr (s1, Some a))" "inv s1" "find s1 = (find s)(k \<mapsto> a)"
      "\<And>k' b. find s k' = Some b \<Longrightarrow> datum s1 b = datum s b"
    using install_law [OF assms, of k] by blast
  have fk: "find s1 k = Some a" using s1(3) by simp
  obtain s2 where s2: "put a d s1 = Inr s2" "inv s2" "find s2 = find s1" "table s2 = (table s1)(k \<mapsto> d)"
    using table_put [OF s1(2) fk, of d] by blast
  have "((table s1)(k \<mapsto> d)) x = ((table s)(k \<mapsto> d)) x" for x
    using s1(3) s1(4) [of x] by (cases "find s x") (auto simp: table_def)
  then show ?thesis using s1 s2 by auto
qed

lemma table_delete:
  assumes "inv s" "find s k = Some a"
  shows "\<exists>s'. delete a s = Some (Inr s') \<and> inv s' \<and> find s' = (find s)(k := None) \<and> table s' = (table s)(k := None)"
proof -
  obtain s' where s': "delete a s = Some (Inr s')" "inv s'" "find s' = (find s)(k := None)"
      "\<And>k' b. find s' k' = Some b \<Longrightarrow> datum s' b = datum s b"
    using delete_law [OF assms] by blast
  have "table s' x = ((table s)(k := None)) x" for x
    using s'(3) s'(4) [of x] by (cases "find s' x") (auto simp: table_def split: if_splits)
  then show ?thesis using s' by auto
qed

end

subsection \<open>The trees in memory\<close>

type_synonym spstore = "spmem \<times> sptree"

definition sps_inv :: "spstore \<Rightarrow> bool" where
  "sps_inv s \<longleftrightarrow> (\<exists>t used. tree_ok (blks (fst s)) (snd s) t \<and> mem_ok (fst s) used \<and> set_tree t \<subseteq> used
     \<and> eltscnt (snd s) = of_nat (size t))"

definition sps_find :: "spstore \<Rightarrow> u32 \<Rightarrow> nat option" where
  "sps_find s = sp_find (blks (fst s)) (snd s)"

definition sps_datum :: "spstore \<Rightarrow> nat \<Rightarrow> ptr" where
  "sps_datum s = data_at (blks (fst s))"

definition sps_lookup :: "u32 \<Rightarrow> spstore \<Rightarrow> (spstore \<times> ptr) res option" where
  "sps_lookup k s = map_option (map_sum id (\<lambda>(h, q, n). (((fst s)\<lparr>blks := h\<rparr>, q), n))) (sp_lookup k (blks (fst s)) (snd s))"

definition sps_install :: "(nat \<Rightarrow> spblk) \<Rightarrow> u32 \<Rightarrow> spstore \<Rightarrow> (spstore \<times> ptr) res option" where
  "sps_install junk k s = map_option (map_sum id (\<lambda>(m, q, n). ((m, q), n))) (sp_install junk k (fst s) (snd s))"

definition sps_delete :: "nat \<Rightarrow> spstore \<Rightarrow> spstore res option" where
  "sps_delete n s = sp_delete n (fst s) (snd s)"

text \<open>\<open>spl->data = d;\<close>\<close>

definition sps_put :: "nat \<Rightarrow> ptr \<Rightarrow> spstore \<Rightarrow> spstore res" where
  "sps_put n d s = res_bind (update (blks (fst s)) (Some n) (\<lambda>b. b\<lparr>data := d\<rparr>)) (\<lambda>h. Inr ((fst s)\<lparr>blks := h\<rparr>, snd s))"

text \<open>The links alone make a tree.\<close>

lemma rep_links:
  assumes "\<And>x. map_option (\<lambda>b. (leftlink b, rightlink b, uplink b)) (h' x)
             = map_option (\<lambda>b. (leftlink b, rightlink b, uplink b)) (h x)"
  shows "rep h' up p t = rep h up p t"
proof (induction t arbitrary: up p)
  case (Node l a r)
  then show ?case using assms [of a] by (cases "h a"; cases "h' a") auto
qed simp

lemma size_inorder: "size t = length (inorder t)"
  by simp

lemma sps_put_ok:
  assumes inv: "sps_inv s" and f: "sps_find s k = Some a"
  shows "\<exists>s'. sps_put a d s = Inr s' \<and> sps_inv s' \<and> sps_find s' = sps_find s \<and> sps_datum s' = (sps_datum s)(a := d)"
proof -
  obtain m q where s: "s = (m, q)" by (cases s)
  obtain t used where t: "tree_ok (blks m) q t" "mem_ok m used" "set_tree t \<subseteq> used" "eltscnt q = of_nat (size t)"
    using inv s by (auto simp: sps_inv_def)
  have a: "a \<in> set_tree t" using sp_find_iff [OF t(1)] f s by (auto simp: sps_find_def)
  then obtain b where b: "blks m a = Some b" using tree_ok_dom [OF t(1)] by blast
  let ?h = "(blks m)(a \<mapsto> b\<lparr>data := d\<rparr>)"
  have k: "key_at ?h = key_at (blks m)" using b by (auto simp: key_at_def fun_eq_iff)
  have r: "rep ?h up p t = rep (blks m) up p t" for up p by (rule rep_links) (use b in auto)
  have t1: "tree_ok ?h q t" using t(1) unfolding tree_ok_def k r .
  have "dom ?h = dom (blks m)" using b by auto
  then have m1: "mem_ok (m\<lparr>blks := ?h\<rparr>) used" using a t(3) by (intro mem_ok_heap [OF t(2)]) auto
  have "sp_find ?h q x = sp_find (blks m) q x" for x
    using sp_find_hit [OF t1, of x] by (intro sp_find_eqI [OF t(1), symmetric]) (simp add: is_hit_def k split: option.splits)
  moreover have "data_at ?h = (data_at (blks m))(a := d)" by (auto simp: data_at_def fun_eq_iff)
  moreover have "sps_inv (m\<lparr>blks := ?h\<rparr>, q)" using t1 m1 t(3,4) by (auto simp: sps_inv_def)
  moreover have "sps_put a d s = Inr (m\<lparr>blks := ?h\<rparr>, q)" using b s by (simp add: sps_put_def)
  ultimately show ?thesis using s by (auto simp: sps_find_def sps_datum_def fun_eq_iff)
qed

lemma sps_lookup_ok:
  assumes inv: "sps_inv s"
  shows "\<exists>s'. sps_lookup k s = Some (Inr (s', sps_find s k)) \<and> sps_inv s' \<and> sps_find s' = sps_find s
    \<and> sps_datum s' = sps_datum s"
proof -
  obtain m q where s: "s = (m, q)" by (cases s)
  obtain t used where t: "tree_ok (blks m) q t" "mem_ok m used" "set_tree t \<subseteq> used" "eltscnt q = of_nat (size t)"
    using inv s by (auto simp: sps_inv_def)
  obtain h' q' t' where l: "sp_lookup k (blks m) q = Some (Inr (h', q', sp_find (blks m) q k))" "tree_ok h' q' t'"
      "inorder t' = inorder t" "payload h' = payload (blks m)" "eltscnt q' = eltscnt q"
      "\<forall>x. x \<notin> set_tree t \<longrightarrow> h' x = blks m x"
    using sp_lookup_ok [OF t(1), of k] by blast
  have same: "sp_find h' q' = sp_find (blks m) q" "set_tree t' = set_tree t"
    using tree_ok_same_order [OF t(1) _ l(3,4)] l(2) by (auto simp: tree_ok_def)
  have "mem_ok (m\<lparr>blks := h'\<rparr>) used"
    using l(6) t(3) by (intro mem_ok_heap [OF t(2) payload_dom [OF l(4)]]) auto
  moreover have "size t' = size t" using arg_cong [OF l(3), of length] by simp
  ultimately have "sps_inv (m\<lparr>blks := h'\<rparr>, q')"
    unfolding sps_inv_def using l(2,5) t(3,4) same(2)
    by (intro exI [of _ t'] exI [of _ used]) simp
  then show ?thesis using l(1) same(1) payload_data_at [OF l(4)] s
    by (simp add: sps_lookup_def sps_find_def sps_datum_def)
qed

lemma sps_install_ok:
  assumes inv: "sps_inv s"
  shows "\<exists>s' a. sps_install junk k s = Some (Inr (s', Some a)) \<and> sps_inv s' \<and> sps_find s' = (sps_find s)(k \<mapsto> a)
    \<and> (\<forall>k' b. sps_find s k' = Some b \<longrightarrow> sps_datum s' b = sps_datum s b)"
proof -
  obtain m q where s: "s = (m, q)" by (cases s)
  obtain t used where t: "tree_ok (blks m) q t" "mem_ok m used" "set_tree t \<subseteq> used" "eltscnt q = of_nat (size t)"
    using inv s by (auto simp: sps_inv_def)
  obtain m' q' t' n where i: "sp_install junk k m q = Some (Inr (m', q', Some n))" "tree_ok (blks m') q' t'"
      "mem_ok m' (insert n used)" "set_tree t' = insert n (set_tree t)" "key_at (blks m') n = k"
      "\<forall>a\<in>used. payload (blks m') a = payload (blks m) a"
      "case sp_find (blks m) q k of Some a \<Rightarrow> n = a \<and> eltscnt q' = eltscnt q
       | None \<Rightarrow> n \<notin> used \<and> eltscnt q' = eltscnt q + 1"
    using sp_install_ok [OF t(1-3), of junk k] by blast
  have keys: "key_at (blks m') a = key_at (blks m) a" "data_at (blks m') a = data_at (blks m) a" if "a \<in> set_tree t" for a
    using payload_at [of "blks m'" a "blks m"] i(6) that t(3) by auto
  have c: "size t' = card (set_tree t')" "size t = card (set_tree t)"
    using distinct_card [OF tree_ok_distinct [OF i(2)]] distinct_card [OF tree_ok_distinct [OF t(1)]] by simp_all
  have "eltscnt q' = of_nat (size t')"
  proof (cases "sp_find (blks m) q k")
    case None
    then have "n \<notin> set_tree t" "eltscnt q' = eltscnt q + 1" using i(7) t(3) by auto
    then show ?thesis using t(4) c i(4) by simp
  next
    case (Some a)
    have "a \<in> set_tree t" using Some sp_find_iff [OF t(1)] by blast
    then have "n \<in> set_tree t" "eltscnt q' = eltscnt q" using i(7) Some by simp_all
    then show ?thesis using t(4) c i(4) by (simp add: insert_absorb)
  qed
  then have "sps_inv (m', q')" unfolding sps_inv_def using i(2-4) t(3)
    by (intro exI [of _ t'] exI [of _ "insert n used"]) auto
  moreover have "sp_find (blks m') q' x = ((sp_find (blks m) q)(k \<mapsto> n)) x" for x
  proof (rule sp_find_eqI [OF i(2)])
    show "is_hit (blks m') t' x (((sp_find (blks m) q)(k \<mapsto> n)) x)"
    proof (cases "x = k")
      case True
      then show ?thesis using i(4,5) by (simp add: is_hit_def)
    next
      case False
      then show ?thesis using sp_find_hit [OF t(1), of x] i(4,5) keys
        by (auto simp: is_hit_def image_iff split: option.splits)
    qed
  qed
  moreover have "data_at (blks m') b = data_at (blks m) b" if "sp_find (blks m) q k' = Some b" for k' b
    using sp_find_iff [OF t(1)] that keys by blast
  ultimately show ?thesis using i(1) s
    by (intro exI [of _ "(m', q')"] exI [of _ n]) (auto simp: sps_install_def sps_find_def sps_datum_def fun_eq_iff)
qed

lemma sps_delete_ok:
  assumes inv: "sps_inv s" and f: "sps_find s k = Some a"
  shows "\<exists>s'. sps_delete a s = Some (Inr s') \<and> sps_inv s' \<and> sps_find s' = (sps_find s)(k := None)
    \<and> (\<forall>k' b. sps_find s' k' = Some b \<longrightarrow> sps_datum s' b = sps_datum s b)"
proof -
  obtain m q where s: "s = (m, q)" by (cases s)
  obtain t used where t: "tree_ok (blks m) q t" "mem_ok m used" "set_tree t \<subseteq> used" "eltscnt q = of_nat (size t)"
    using inv s by (auto simp: sps_inv_def)
  have a: "a \<in> set_tree t" "key_at (blks m) a = k" using sp_find_iff [OF t(1)] f s by (auto simp: sps_find_def)
  obtain m' q' t' where d: "sp_delete a m q = Some (Inr (m', q'))" "tree_ok (blks m') q' t'"
      "mem_ok m' (used - {a})" "inorder t' = remove1 a (inorder t)"
      "\<forall>x\<in>used - {a}. payload (blks m') x = payload (blks m) x" "eltscnt q' = eltscnt q - 1"
    using sp_delete_ok [OF t(1-3) a(1)] by blast
  have st: "set_tree t' = set_tree t - {a}"
    using arg_cong [OF d(4), of set] tree_ok_distinct [OF t(1)] by simp
  have keys: "key_at (blks m') x = key_at (blks m) x" "data_at (blks m') x = data_at (blks m) x" if "x \<in> set_tree t'" for x
    using payload_at [of "blks m'" x "blks m"] d(5) that st t(3) by auto
  have "size t = Suc (size t')"
    using arg_cong [OF d(4), of length] a(1) by (cases t) (auto simp: length_remove1)
  then have "sps_inv (m', q')" unfolding sps_inv_def using d(2,3,6) st t(3,4)
    by (intro exI [of _ t'] exI [of _ "used - {a}"]) auto
  moreover have "sp_find (blks m') q' x = ((sp_find (blks m) q)(k := None)) x" for x
  proof (rule sp_find_eqI [OF d(2)])
    show "is_hit (blks m') t' x (((sp_find (blks m) q)(k := None)) x)"
    proof (cases "x = k")
      case True
      then show ?thesis using st keys key_at_inj [OF t(1)] a by (auto simp: is_hit_def)
    next
      case False
      then show ?thesis using sp_find_hit [OF t(1), of x] st keys a
        by (auto simp: is_hit_def image_iff split: option.splits)
    qed
  qed
  moreover have "data_at (blks m') b = data_at (blks m) b" if "sp_find (blks m') q' k' = Some b" for k' b
    using sp_find_iff [OF d(2)] that keys by blast
  ultimately show ?thesis using d(1) s
    by (intro exI [of _ "(m', q')"]) (auto simp: sps_delete_def sps_find_def sps_datum_def fun_eq_iff)
qed

interpretation sps: block_store sps_inv sps_find sps_datum sps_lookup "sps_install junk" sps_delete sps_put for junk
proof unfold_locales
  show "k = k'" if "sps_inv s" "sps_find s k = Some a" "sps_find s k' = Some a" for s k a k'
    using that sp_find_iff by (fastforce simp: sps_inv_def sps_find_def)
qed (fact sps_lookup_ok sps_install_ok sps_delete_ok sps_put_ok)+

subsection \<open>Sequences of operations\<close>

text \<open>What callers do with a tree: look a key up and read the datum, enter a datum under a key,
  remove a key. The output is what a lookup read.\<close>

datatype sop = Look u32 | Enter u32 ptr | Remove u32

fun sop_run :: "(nat \<Rightarrow> spblk) \<Rightarrow> sop \<Rightarrow> spstore \<Rightarrow> (spstore \<times> ptr option) res option" where
  "sop_run junk (Look k) s =
     (case sps_lookup k s of None \<Rightarrow> None | Some (Inl e) \<Rightarrow> Some (Inl e)
      | Some (Inr (s1, n)) \<Rightarrow> Some (Inr (s1, map_option (sps_datum s1) n)))"
| "sop_run junk (Enter k d) s =
     (case sps_install junk k s of None \<Rightarrow> None | Some (Inl e) \<Rightarrow> Some (Inl e)
      | Some (Inr (s1, n)) \<Rightarrow> Some (case n of None \<Rightarrow> Inl Null_pointer
          | Some a \<Rightarrow> res_bind (sps_put a d s1) (\<lambda>s2. Inr (s2, None))))"
| "sop_run junk (Remove k) s =
     (case sps_lookup k s of None \<Rightarrow> None | Some (Inl e) \<Rightarrow> Some (Inl e)
      | Some (Inr (s1, None)) \<Rightarrow> Some (Inr (s1, None))
      | Some (Inr (s1, Some a)) \<Rightarrow>
          (case sps_delete a s1 of None \<Rightarrow> None | Some (Inl e) \<Rightarrow> Some (Inl e)
           | Some (Inr s2) \<Rightarrow> Some (Inr (s2, None))))"

fun sops_run :: "(nat \<Rightarrow> spblk) \<Rightarrow> sop list \<Rightarrow> spstore \<Rightarrow> (spstore \<times> ptr option list) res option" where
  "sops_run junk [] s = Some (Inr (s, []))"
| "sops_run junk (x # xs) s =
     (case sop_run junk x s of None \<Rightarrow> None | Some (Inl e) \<Rightarrow> Some (Inl e)
      | Some (Inr (s1, r)) \<Rightarrow>
          (case sops_run junk xs s1 of None \<Rightarrow> None | Some (Inl e) \<Rightarrow> Some (Inl e)
           | Some (Inr (s2, rs)) \<Rightarrow> Some (Inr (s2, r # rs))))"

text \<open>The same on a table.\<close>

fun tab_run :: "sop list \<Rightarrow> (u32 \<Rightarrow> ptr option) \<Rightarrow> (u32 \<Rightarrow> ptr option) \<times> ptr option list" where
  "tab_run [] t = (t, [])"
| "tab_run (Look k # xs) t = apsnd (Cons (t k)) (tab_run xs t)"
| "tab_run (Enter k d # xs) t = apsnd (Cons None) (tab_run xs (t(k \<mapsto> d)))"
| "tab_run (Remove k # xs) t = apsnd (Cons None) (tab_run xs (t(k := None)))"

definition sps_table :: "spstore \<Rightarrow> u32 \<Rightarrow> ptr option" where
  "sps_table s k = map_option (sps_datum s) (sps_find s k)"

lemma sps_table_eq: "sps.table = sps_table"
  by (simp add: fun_eq_iff sps.table_def sps_table_def)

definition sp_start :: spstore where
  "sp_start = (\<lparr>blks = Map.empty, sp_free_list = None, sp_allocated = 0, sp_entries = 0, sp_fresh = 0\<rparr>, sp_init)"

lemma sp_start_ok: "sps_inv sp_start" "sps_table sp_start = Map.empty"
proof -
  have t: "tree_ok (blks (fst sp_start)) (snd sp_start) Leaf"
    by (simp add: sp_start_def sp_init_def tree_ok_def)
  have "mem_ok (fst sp_start) {}"
    by (rule mem_okI [of _ "[]"]) (simp_all add: sp_start_def)
  then show "sps_inv sp_start"
    unfolding sps_inv_def using t by (intro exI [of _ Leaf] exI [of _ "{}"]) (simp add: sp_start_def sp_init_def)
  show "sps_table sp_start = Map.empty"
    by (rule ext) (simp add: sps_table_def sps_find_def is_hit_def sp_find_eqI [OF t, where n = None])
qed

lemma sop_run_ok:
  assumes "sps_inv s"
  shows "\<exists>s1. sop_run junk x s = Some (Inr (s1, hd (snd (tab_run [x] (sps_table s)))))
    \<and> sps_inv s1 \<and> sps_table s1 = fst (tab_run [x] (sps_table s))"
proof (cases x)
  case (Look k)
  obtain s1 where "sps_lookup k s = Some (Inr (s1, sps_find s k))" "sps_inv s1" "sps_find s1 = sps_find s"
      "sps_datum s1 = sps_datum s" "sps_table s1 = sps_table s"
    using sps.table_lookup [OF assms, of k] unfolding sps_table_eq by blast
  then show ?thesis using Look by (simp add: sps_table_def)
next
  case (Enter k d)
  obtain s1 a s2 where "sps_install junk k s = Some (Inr (s1, Some a))" "sps_put a d s1 = Inr s2" "sps_inv s2"
      "sps_table s2 = (sps_table s)(k \<mapsto> d)"
    using sps.table_enter [OF assms, of junk k d] unfolding sps_table_eq by blast
  then show ?thesis using Enter by simp
next
  case (Remove k)
  obtain s1 where s1: "sps_lookup k s = Some (Inr (s1, sps_find s k))" "sps_inv s1" "sps_find s1 = sps_find s"
      "sps_table s1 = sps_table s"
    using sps.table_lookup [OF assms, of k] unfolding sps_table_eq by blast
  show ?thesis
  proof (cases "sps_find s k")
    case None
    then have "(sps_table s)(k := None) = sps_table s" by (auto simp: sps_table_def fun_eq_iff)
    then show ?thesis using Remove None s1 by simp
  next
    case (Some a)
    then obtain s2 where "sps_delete a s1 = Some (Inr s2)" "sps_inv s2" "sps_table s2 = (sps_table s1)(k := None)"
      using sps.table_delete [OF s1(2), of k a] s1(3) unfolding sps_table_eq by auto
    then show ?thesis using Remove Some s1 by simp
  qed
qed

lemma tab_run_Cons:
  "tab_run (x # xs) t = apsnd (Cons (hd (snd (tab_run [x] t)))) (tab_run xs (fst (tab_run [x] t)))"
  by (cases x) simp_all

lemma sops_run_ok:
  "sps_inv s \<Longrightarrow> \<exists>s1. sops_run junk xs s = Some (Inr (s1, snd (tab_run xs (sps_table s))))
     \<and> sps_inv s1 \<and> sps_table s1 = fst (tab_run xs (sps_table s))"
proof (induction xs arbitrary: s)
  case (Cons x xs)
  obtain s1 where s1: "sop_run junk x s = Some (Inr (s1, hd (snd (tab_run [x] (sps_table s)))))"
      "sps_inv s1" "sps_table s1 = fst (tab_run [x] (sps_table s))"
    using sop_run_ok [OF Cons.prems] by blast
  from Cons.IH [OF s1(2)] obtain s2 where "sops_run junk xs s1 = Some (Inr (s2, snd (tab_run xs (sps_table s1))))"
      "sps_inv s2" "sps_table s2 = fst (tab_run xs (sps_table s1))" by blast
  then show ?case using s1 by (subst (1 2) tab_run_Cons) simp
qed simp

section \<open>Properties\<close>

text \<open>C29. Splaying a block of any tree in memory ends without a fault, makes the block the root,
  and keeps the blocks in their order with their keys and data; memory outside the tree is not
  touched.\<close>

theorem splay_keeps_order:
  assumes "rep h None (root q) t" "distinct (inorder t)" "n \<in> set_tree t"
  shows "\<exists>h' q' l r. splay h (Some n) q = Some (Inr (h', q')) \<and> root q' = Some n
    \<and> rep h' None (root q') (Node l n r) \<and> inorder (Node l n r) = inorder t
    \<and> payload h' = payload h \<and> (\<forall>x. x \<notin> set_tree t \<longrightarrow> h' x = h x)"
  using splay_correct [OF assms] by blast

definition three_blocks :: heap where
  "three_blocks = [4 \<mapsto> \<lparr>leftlink = None, rightlink = Some 5, uplink = Some 6, key = 10, data = None\<rparr>,
     5 \<mapsto> \<lparr>leftlink = None, rightlink = None, uplink = Some 4, key = 20, data = None\<rparr>,
     6 \<mapsto> \<lparr>leftlink = Some 4, rightlink = None, uplink = None, key = 30, data = None\<rparr>]"

definition three_tree :: sptree where
  "three_tree = sp_init\<lparr>root := Some 6, eltscnt := 3\<rparr>"

theorem splay_keeps_order_witness:
  "\<exists>h' q' l r. splay three_blocks (Some 5) three_tree = Some (Inr (h', q')) \<and> root q' = Some 5
     \<and> inorder (Node l (5 :: nat) r) = [4, 5, 6]"
  using splay_keeps_order [of three_blocks three_tree "Node (Node Leaf 4 (Node Leaf 5 Leaf)) 6 Leaf" 5]
  by (auto simp: three_blocks_def three_tree_def)

text \<open>C28. Starting from nothing, any sequence of lookups, insertions and removals on a splay tree
  ends without a fault and reads what a table of the same entries would hold.\<close>

theorem splay_is_table:
  "\<exists>s. sops_run junk xs sp_start = Some (Inr (s, snd (tab_run xs Map.empty)))
    \<and> sps_inv s \<and> sps_table s = fst (tab_run xs Map.empty)"
  using sops_run_ok [OF sp_start_ok(1), of junk xs] unfolding sp_start_ok(2) .

text \<open>C32. A scan calls its function once for every block of the tree, in ascending order of the
  keys.\<close>

theorem scan_ascending:
  assumes "sps_inv (m, q)"
  shows "\<exists>xs. sp_scan (blks m) f None q s = Some (Inr (fold f xs s)) \<and> sorted_wrt (<) (map (key_at (blks m)) xs)
    \<and> (\<forall>a. a \<in> set xs \<longleftrightarrow> sps_find (m, q) (key_at (blks m) a) = Some a)"
proof -
  obtain t where t: "tree_ok (blks m) q t" using assms by (auto simp: sps_inv_def)
  then have "sorted_wrt (<) (map (key_at (blks m)) (inorder t))" by (simp add: tree_ok_def)
  moreover have "a \<in> set (inorder t) \<longleftrightarrow> sps_find (m, q) (key_at (blks m) a) = Some a" for a
    using sp_find_iff [OF t] by (simp add: sps_find_def)
  ultimately show ?thesis using sp_scan_ok(1) [OF t, of f s] by blast
qed

definition three_mem :: spmem where
  "three_mem = \<lparr>blks = three_blocks, sp_free_list = None, sp_allocated = 3, sp_entries = 3, sp_fresh = 7\<rparr>"

lemma three_ok: "sps_inv (three_mem, three_tree)"
proof -
  let ?t = "Node (Node Leaf 4 (Node Leaf 5 Leaf)) 6 Leaf :: nat tree"
  have "tree_ok three_blocks three_tree ?t"
    by (simp add: tree_ok_def three_blocks_def three_tree_def key_at_def)
  moreover have "mem_ok three_mem {4, 5, 6}"
    by (rule mem_okI [of _ "[]"]) (auto simp: three_mem_def three_blocks_def)
  ultimately show ?thesis
    unfolding sps_inv_def by (intro exI [of _ ?t] exI [of _ "{4, 5, 6}"]) (simp add: three_mem_def three_tree_def)
qed

theorem scan_ascending_witness:
  "\<exists>xs. sp_scan three_blocks (#) None three_tree [] = Some (Inr (fold (#) xs []))
     \<and> sorted_wrt (<) (map (key_at three_blocks) xs)"
  using scan_ascending [OF three_ok, of "(#)" "[]"] by (auto simp: three_mem_def)

text \<open>Giving the free list back to the system leaves \<open>sp_free_list\<close> pointing at memory that is
  gone: the next allocation reads it. And the count of entries in use falls although none was
  in use.\<close>

lemma freelist_dangles:
  assumes "mem_ok m used" "sp_free_list m \<noteq> None"
  shows "\<exists>m'. sp_free_freelist m = Some (Inr m') \<and> sp_alloc_blk junk m' = Inl Out_of_bounds
    \<and> sp_entries m' < int (card used)"
proof (rule mem_okE [OF assms(1)])
  fix xs
  assume xs: "flist (blks m) (sp_free_list m) xs" "distinct xs" "sp_entries m = int (card used)"
  obtain x ys where x: "xs = x # ys" "sp_free_list m = Some x" using xs(1) assms(2) by (cases xs) auto
  obtain m' where m': "sp_free_freelist_loop (sp_free_list m) m = Some (Inr m')"
      "blks m' = (\<lambda>x. if x \<in> set xs then None else blks m x)" "sp_free_list m' = sp_free_list m"
      "sp_entries m' = sp_entries m - int (length xs)"
    using free_freelist_loop_ok [OF xs(1,2)] by blast
  have "sp_alloc_blk junk m' = Inl Out_of_bounds"
    using m'(2,3) x by (simp add: sp_alloc_blk_def deref_def)
  then show ?thesis using m'(1,4) x(1) xs(3) by (simp add: sp_free_freelist_def)
qed

definition blank_memory :: "nat \<Rightarrow> spblk" where
  "blank_memory a = \<lparr>leftlink = None, rightlink = None, uplink = None, key = 0, data = None\<rparr>"

definition one_free :: spmem where
  "one_free = \<lparr>blks = [0 \<mapsto> \<lparr>leftlink = None, rightlink = None, uplink = None, key = 0, data = None\<rparr>],
     sp_free_list = Some 0, sp_allocated = 1, sp_entries = 0, sp_fresh = 1\<rparr>"

lemma freelist_dangles_example:
  "\<exists>m'. sp_free_freelist one_free = Some (Inr m') \<and> sp_alloc_blk blank_memory m' = Inl Out_of_bounds \<and> sp_entries m' < 0"
  using freelist_dangles [of one_free "{}" blank_memory] mem_okI [of one_free "[0]" "{}"] by (simp add: one_free_def)

end
