(* ===== verification/Cache.thy ===== *)
theory Cache
  imports Spstore Fir_filter
begin

section \<open>The cache of ships (\<open>cache.c\<close>)\<close>

text \<open>
  The cache keeps, for every ship (by its MMSI), the most recent data of each kind. Its entries
  live in memory of their own; the splay tree finds them. Each function runs under the mutex
  of the cache, so it is one step. The lemmas: the cache is a table of ships, each message
  updates one of them, and rotating and freeing leave nothing behind.
\<close>

subsection \<open>Entries\<close>

text \<open>An \<open>int\<close> that serves as a key is a word; strings are owned by the entry (\<open>hstrdup\<close>).
  \<open>'f\<close> is \<open>float\<close>.\<close>

record 'f cache_ent =
  ce_mmsi :: u32
  ce_received_pos :: int
  ce_lat :: 'f
  ce_lon :: 'f
  ce_hdg :: int
  ce_course :: 'f
  ce_sog :: 'f
  ce_navstat :: int
  ce_received_data :: int
  ce_imo :: int
  ce_callsign :: "string option"
  ce_name :: "string option"
  ce_destination :: "string option"
  ce_shiptype :: int
  ce_A :: int
  ce_B :: int
  ce_C :: int
  ce_D :: int
  ce_draught :: 'f
  ce_received_persons_on_board :: int
  ce_persons_on_board :: int

text \<open>What \<open>memset\<close> and the assignments after it leave in a new entry.\<close>

definition new_entry :: "'f fops \<Rightarrow> 'f cache_ent" where
  "new_entry ops =
     (let e = \<lparr>ce_mmsi = 0, ce_received_pos = 0, ce_lat = f_zero ops, ce_lon = f_zero ops, ce_hdg = 0,
                ce_course = f_zero ops, ce_sog = f_zero ops, ce_navstat = 0, ce_received_data = 0, ce_imo = 0,
                ce_callsign = None, ce_name = None, ce_destination = None, ce_shiptype = 0, ce_A = 0, ce_B = 0,
                ce_C = 0, ce_D = 0, ce_draught = f_zero ops, ce_received_persons_on_board = 0,
                ce_persons_on_board = 0\<rparr>
      in e\<lparr>ce_lat := f_zero ops, ce_lon := f_zero ops, ce_hdg := -1, ce_course := f_lit ops (-1) 0,
           ce_sog := f_lit ops (-1) 0, ce_shiptype := -1, ce_imo := -1, ce_navstat := -1,
           ce_A := -1, ce_B := -1, ce_C := -1, ce_D := -1, ce_persons_on_board := -1\<rparr>)"

text \<open>\<open>if (!p || strcmp(p, s) != 0) p = hstrdup(s)\<close>\<close>

definition new_string :: "string option \<Rightarrow> string \<Rightarrow> string option" where
  "new_string p s = (case p of None \<Rightarrow> Some s | Some old \<Rightarrow> if old \<noteq> s then Some s else p)"

definition position_fields ::
  "int \<Rightarrow> u32 \<Rightarrow> int \<Rightarrow> 'f \<Rightarrow> 'f \<Rightarrow> int \<Rightarrow> 'f \<Rightarrow> 'f \<Rightarrow> 'f cache_ent \<Rightarrow> 'f cache_ent"
where
  "position_fields received_t mmsi navstat lat lon hdg course sog e =
     e\<lparr>ce_mmsi := mmsi, ce_received_pos := received_t, ce_lat := lat, ce_lon := lon, ce_hdg := hdg,
       ce_course := course, ce_sog := sog, ce_navstat := navstat\<rparr>"

definition vesseldata_fields ::
  "int \<Rightarrow> u32 \<Rightarrow> int \<Rightarrow> string \<Rightarrow> string \<Rightarrow> string \<Rightarrow> int \<Rightarrow> int \<Rightarrow> int \<Rightarrow> int \<Rightarrow> int \<Rightarrow> 'f
    \<Rightarrow> 'f cache_ent \<Rightarrow> 'f cache_ent"
where
  "vesseldata_fields received_t mmsi imo callsign name destination shiptype A B C D draught e =
     e\<lparr>ce_mmsi := mmsi, ce_imo := imo, ce_received_data := received_t,
       ce_callsign := new_string (ce_callsign e) callsign, ce_name := new_string (ce_name e) name,
       ce_destination := new_string (ce_destination e) destination, ce_shiptype := shiptype,
       ce_A := A, ce_B := B, ce_C := C, ce_D := D, ce_draught := draught\<rparr>"

definition vesseldatab_fields ::
  "'f fops \<Rightarrow> int \<Rightarrow> u32 \<Rightarrow> string \<Rightarrow> int \<Rightarrow> int \<Rightarrow> int \<Rightarrow> int \<Rightarrow> int \<Rightarrow> 'f cache_ent \<Rightarrow> 'f cache_ent"
where
  "vesseldatab_fields ops received_t mmsi callsign shiptype A B C D e =
     e\<lparr>ce_mmsi := mmsi, ce_imo := 0, ce_received_data := received_t,
       ce_callsign := new_string (ce_callsign e) callsign, ce_shiptype := shiptype,
       ce_A := A, ce_B := B, ce_C := C, ce_D := D, ce_draught := f_zero ops\<rparr>"

definition vesseldatabb_fields ::
  "'f fops \<Rightarrow> int \<Rightarrow> u32 \<Rightarrow> int \<Rightarrow> int \<Rightarrow> int \<Rightarrow> int \<Rightarrow> int \<Rightarrow> 'f cache_ent \<Rightarrow> 'f cache_ent"
where
  "vesseldatabb_fields ops received_t mmsi shiptype A B C D e =
     e\<lparr>ce_mmsi := mmsi, ce_imo := 0, ce_received_data := received_t, ce_shiptype := shiptype,
       ce_A := A, ce_B := B, ce_C := C, ce_D := D, ce_draught := f_zero ops\<rparr>"

definition vesselname_fields :: "int \<Rightarrow> u32 \<Rightarrow> string \<Rightarrow> string \<Rightarrow> 'f cache_ent \<Rightarrow> 'f cache_ent" where
  "vesselname_fields received_t mmsi name destination e =
     e\<lparr>ce_mmsi := mmsi, ce_received_data := received_t, ce_name := new_string (ce_name e) name,
       ce_destination := new_string (ce_destination e) destination\<rparr>"

definition persons_fields :: "int \<Rightarrow> u32 \<Rightarrow> int \<Rightarrow> 'f cache_ent \<Rightarrow> 'f cache_ent" where
  "persons_fields received_t mmsi persons e =
     e\<lparr>ce_mmsi := mmsi, ce_received_persons_on_board := received_t, ce_persons_on_board := persons\<rparr>"

subsection \<open>The cache\<close>

text \<open>\<open>cache_spt\<close> is \<open>None\<close> before \<open>cache_init\<close> and after \<open>cache_deinit\<close>, where the pointer is
  null or dangles. \<open>ents\<close> is the memory of the entries, \<open>ent_fresh\<close> what \<open>hmalloc\<close> gives next.\<close>

record 'f cache =
  cmem :: spmem
  cache_spt :: "sptree option"
  ents :: "nat \<Rightarrow> 'f cache_ent option"
  ent_fresh :: nat
  cache_positions :: bool

definition cache_start :: "'f cache" where
  "cache_start = \<lparr>cmem = fst sp_start, cache_spt = None, ents = Map.empty, ent_fresh = 0, cache_positions = False\<rparr>"

definition cache_init :: "'f cache \<Rightarrow> 'f cache" where
  "cache_init c = c\<lparr>cache_spt := Some (sp_init\<lparr>symbols := None\<rparr>), cache_positions := True\<rparr>"

definition cache_rotate :: "'f cache \<Rightarrow> 'f cache \<times> sptree option" where
  "cache_rotate c = (c\<lparr>cache_spt := Some (sp_init\<lparr>symbols := None\<rparr>)\<rparr>, cache_spt c)"

definition cache_get ::
  "(nat \<Rightarrow> spblk) \<Rightarrow> 'f fops \<Rightarrow> u32 \<Rightarrow> 'f cache \<Rightarrow> ('f cache \<times> ptr) res option"
where
  "cache_get junk ops mmsi c =
     (case cache_spt c of None \<Rightarrow> Some (Inl Null_pointer) | Some q \<Rightarrow>
       (case sps_lookup mmsi (cmem c, q) of None \<Rightarrow> None | Some (Inl e) \<Rightarrow> Some (Inl e)
        | Some (Inr ((m1, q1), spl)) \<Rightarrow>
            (case spl of
               Some a \<Rightarrow> Some (Inr (c\<lparr>cmem := m1, cache_spt := Some q1\<rparr>, sps_datum (m1, q1) a))
             | None \<Rightarrow>
                 (case sps_install junk mmsi (m1, q1) of None \<Rightarrow> None | Some (Inl e) \<Rightarrow> Some (Inl e)
                  | Some (Inr (s2, None)) \<Rightarrow> Some (Inl Null_pointer)
                  | Some (Inr (s2, Some a)) \<Rightarrow>
                      (let p = ent_fresh c in
                       Some (res_bind (sps_put a (Some p) s2) (\<lambda>(m3, q3).
                         Inr (c\<lparr>cmem := m3, cache_spt := Some q3, ents := (ents c)(p \<mapsto> new_entry ops),
                                ent_fresh := p + 1\<rparr>, Some p))))))))"

text \<open>Each function gets the entry and assigns to its fields.\<close>

definition with_entry ::
  "(nat \<Rightarrow> spblk) \<Rightarrow> 'f fops \<Rightarrow> u32 \<Rightarrow> ('f cache_ent \<Rightarrow> 'f cache_ent) \<Rightarrow> 'f cache \<Rightarrow> 'f cache res option"
where
  "with_entry junk ops mmsi f c =
     (case cache_get junk ops mmsi c of None \<Rightarrow> None | Some (Inl e) \<Rightarrow> Some (Inl e)
      | Some (Inr (c1, None)) \<Rightarrow> Some (Inl Null_pointer)
      | Some (Inr (c1, Some p)) \<Rightarrow>
          (case ents c1 p of None \<Rightarrow> Some (Inl Out_of_bounds)
           | Some e \<Rightarrow> Some (Inr (c1\<lparr>ents := (ents c1)(p \<mapsto> f e)\<rparr>))))"

definition cache_position where
  "cache_position junk ops received_t mmsi navstat lat lon hdg course (rateofturn :: int) sog =
     with_entry junk ops mmsi (position_fields received_t mmsi navstat lat lon hdg course sog)"

definition cache_vesseldata where
  "cache_vesseldata junk ops received_t mmsi imo callsign name destination shiptype A B C D draught =
     with_entry junk ops mmsi (vesseldata_fields received_t mmsi imo callsign name destination shiptype A B C D draught)"

definition cache_vesseldatab where
  "cache_vesseldatab junk ops received_t mmsi callsign shiptype A B C D =
     with_entry junk ops mmsi (vesseldatab_fields ops received_t mmsi callsign shiptype A B C D)"

definition cache_vesseldatabb where
  "cache_vesseldatabb junk ops received_t mmsi shiptype A B C D =
     with_entry junk ops mmsi (vesseldatabb_fields ops received_t mmsi shiptype A B C D)"

definition cache_vesselname where
  "cache_vesselname junk ops received_t mmsi name destination =
     with_entry junk ops mmsi (vesselname_fields received_t mmsi name destination)"

definition cache_vessel_persons where
  "cache_vessel_persons junk ops received_t mmsi persons =
     with_entry junk ops mmsi (persons_fields received_t mmsi persons)"

subsection \<open>Freeing\<close>

text \<open>\<open>cache_free_entry\<close>: a null pointer or memory that is gone faults.\<close>

definition cache_free_entry :: "ptr \<Rightarrow> 'f cache \<Rightarrow> 'f cache res" where
  "cache_free_entry p c = (case p of None \<Rightarrow> Inl Null_pointer
     | Some a \<Rightarrow> (case ents c a of None \<Rightarrow> Inl Out_of_bounds | Some e \<Rightarrow> Inr (c\<lparr>ents := (ents c)(a := None)\<rparr>)))"

text \<open>The loop over the blocks from \<open>x\<close> on; \<open>c\<close> holds the memories, \<open>q\<close> is the tree being freed.\<close>

partial_function (option) cache_free_loop ::
  "ptr \<Rightarrow> 'f cache \<Rightarrow> sptree \<Rightarrow> int \<Rightarrow> ('f cache \<times> sptree \<times> int) res option"
where
  "cache_free_loop x c q freed =
     (case x of None \<Rightarrow> Some (Inr (c, q, freed))
      | Some a \<Rightarrow>
          (case sp_fnext (blks (cmem c)) x of None \<Rightarrow> None | Some (Inl e) \<Rightarrow> Some (Inl e)
           | Some (Inr nextx) \<Rightarrow>
               (case deref (blks (cmem c)) x of Inl e \<Rightarrow> Some (Inl e) | Inr b \<Rightarrow>
               (case cache_free_entry (data b) c of Inl e \<Rightarrow> Some (Inl e) | Inr c1 \<Rightarrow>
                 (case sp_delete a (cmem c1) q of None \<Rightarrow> None | Some (Inl e) \<Rightarrow> Some (Inl e)
                  | Some (Inr (m2, q2)) \<Rightarrow> cache_free_loop nextx (c1\<lparr>cmem := m2\<rparr>) q2 (freed + 1))))))"

definition cache_free :: "sptree \<Rightarrow> 'f cache \<Rightarrow> ('f cache \<times> sptree \<times> int) res option" where
  "cache_free q c =
     (case sp_fhead (blks (cmem c)) q of None \<Rightarrow> None | Some (Inl e) \<Rightarrow> Some (Inl e)
      | Some (Inr x) \<Rightarrow> cache_free_loop x c q 0)"

definition cache_deinit :: "'f cache \<Rightarrow> 'f cache res option" where
  "cache_deinit c =
     (case cache_spt c of None \<Rightarrow> Some (Inl Null_pointer) | Some q \<Rightarrow>
       (case cache_free q c of None \<Rightarrow> None | Some (Inl e) \<Rightarrow> Some (Inl e)
        | Some (Inr (c1, q1, freed)) \<Rightarrow>
            (case sp_free_freelist (cmem c1) of None \<Rightarrow> None | Some (Inl e) \<Rightarrow> Some (Inl e)
             | Some (Inr m2) \<Rightarrow> Some (Inr (c1\<lparr>cmem := m2, cache_spt := None\<rparr>)))))"

subsection \<open>The cache as a table of ships\<close>

text \<open>Every key has an entry of its own, and no other entry is allocated.\<close>

definition entries_ok :: "'f cache \<Rightarrow> (u32 \<Rightarrow> ptr option) \<Rightarrow> bool" where
  "entries_ok c tab \<longleftrightarrow> (\<forall>k d. tab k = Some d \<longrightarrow> (\<exists>p. d = Some p \<and> ents c p \<noteq> None))
     \<and> (\<forall>k k' d. tab k = Some d \<longrightarrow> tab k' = Some d \<longrightarrow> k = k')
     \<and> (\<forall>p. ents c p \<noteq> None \<longrightarrow> p < ent_fresh c \<and> (\<exists>k. tab k = Some (Some p)))"

lemma entries_ok_add:
  assumes ok: "entries_ok c tab" and k: "tab k = None"
    and c': "ents c' = (ents c)(ent_fresh c \<mapsto> e)" "ent_fresh c' = ent_fresh c + 1"
  shows "entries_ok c' (tab(k \<mapsto> Some (ent_fresh c)))"
proof -
  have fr: "ents c (ent_fresh c) = None" using ok unfolding entries_ok_def by blast
  have nf: "tab x \<noteq> Some (Some (ent_fresh c))" for x using ok fr unfolding entries_ok_def by blast
  have "\<exists>p. d = Some p \<and> ents c' p \<noteq> None" if x: "(tab(k \<mapsto> Some (ent_fresh c))) x = Some d" for x d
  proof (cases "x = k")
    case True
    then show ?thesis using x c'(1) by auto
  next
    case False
    then have "tab x = Some d" using x by simp
    then obtain p where "d = Some p" "ents c p \<noteq> None" using ok unfolding entries_ok_def by blast
    then show ?thesis using c'(1) by simp
  qed
  moreover have "x = y" if "(tab(k \<mapsto> Some (ent_fresh c))) x = Some d" "(tab(k \<mapsto> Some (ent_fresh c))) y = Some d" for x y d
    using that nf [of x] nf [of y] ok unfolding entries_ok_def by (auto split: if_splits)
  moreover have "p < ent_fresh c' \<and> (\<exists>x. (tab(k \<mapsto> Some (ent_fresh c))) x = Some (Some p))" if p: "ents c' p \<noteq> None" for p
  proof (cases "p = ent_fresh c")
    case True
    then show ?thesis using c'(2) by auto
  next
    case False
    then have "ents c p \<noteq> None" using p c'(1) by simp
    then obtain x where "p < ent_fresh c" "tab x = Some (Some p)" using ok unfolding entries_ok_def by blast
    moreover have "x \<noteq> k" using calculation(2) k by auto
    ultimately show ?thesis using c'(2) by (auto intro!: exI [of _ x])
  qed
  ultimately show ?thesis unfolding entries_ok_def by blast
qed

definition cache_ok :: "'f cache \<Rightarrow> bool" where
  "cache_ok c \<longleftrightarrow> (\<exists>q. cache_spt c = Some q \<and> sps_inv (cmem c, q) \<and> entries_ok c (sps_table (cmem c, q)))"

definition cache_view :: "'f cache \<Rightarrow> u32 \<Rightarrow> 'f cache_ent option" where
  "cache_view c k = (case cache_spt c of None \<Rightarrow> None
     | Some q \<Rightarrow> (case sps_table (cmem c, q) k of Some (Some p) \<Rightarrow> ents c p | _ \<Rightarrow> None))"

lemma cache_view_eq: "cache_spt c = Some q \<Longrightarrow> cache_view c k =
    (case sps_table (cmem c, q) k of Some (Some p) \<Rightarrow> ents c p | _ \<Rightarrow> None)"
  by (simp add: cache_view_def)

definition entry_of :: "'f fops \<Rightarrow> 'f cache \<Rightarrow> u32 \<Rightarrow> 'f cache_ent" where
  "entry_of ops c k = (case cache_view c k of None \<Rightarrow> new_entry ops | Some e \<Rightarrow> e)"

text \<open>\<open>cache_get\<close> gives the entry of the ship, a new one for a new ship.\<close>

lemma cache_get_ok:
  assumes "cache_ok c"
  shows "\<exists>c' p q'. cache_get junk ops k c = Some (Inr (c', Some p)) \<and> cache_ok c' \<and> cache_spt c' = Some q'
    \<and> sps_table (cmem c', q') k = Some (Some p) \<and> ents c' p = Some (entry_of ops c k)
    \<and> cache_view c' = (cache_view c)(k \<mapsto> entry_of ops c k)"
proof -
  obtain q where q: "cache_spt c = Some q" "sps_inv (cmem c, q)" "entries_ok c (sps_table (cmem c, q))"
    using assms by (auto simp: cache_ok_def)
  obtain s1 where s1: "sps_lookup k (cmem c, q) = Some (Inr (s1, sps_find (cmem c, q) k))" "sps_inv s1"
      "sps_find s1 = sps_find (cmem c, q)" "sps_datum s1 = sps_datum (cmem c, q)"
      "sps_table s1 = sps_table (cmem c, q)"
    using sps.table_lookup [OF q(2), of k] unfolding sps_table_eq by blast
  obtain m1 q1 where mq: "s1 = (m1, q1)" by (cases s1)
  show ?thesis
  proof (cases "sps_find (cmem c, q) k")
    case (Some a)
    let ?c = "c\<lparr>cmem := m1, cache_spt := Some q1\<rparr>"
    have tk: "sps_table (cmem c, q) k = Some (sps_datum (cmem c, q) a)" using Some by (simp add: sps_table_def)
    then obtain p e where p: "sps_datum (cmem c, q) a = Some p" "ents c p = Some e"
      using q(3) unfolding entries_ok_def by blast
    have "cache_view ?c = cache_view c" using q(1) s1(5) mq by (auto simp: cache_view_def fun_eq_iff split: option.splits)
    moreover have "cache_view c k = Some e" using tk p cache_view_eq [OF q(1)] by simp
    moreover have "cache_ok ?c" using q(3) s1(2,5) mq by (simp add: cache_ok_def entries_ok_def)
    moreover have "cache_get junk ops k c = Some (Inr (?c, Some p))"
      using q(1) s1(1,4) mq Some p(1) by (simp add: cache_get_def)
    ultimately show ?thesis using tk p s1(5) mq
      by (intro exI [of _ ?c] exI [of _ p] exI [of _ q1]) (auto simp: entry_of_def fun_eq_iff)
  next
    case None
    let ?p = "ent_fresh c"
    obtain s2 a s3 where s3: "sps_install junk k s1 = Some (Inr (s2, Some a))" "sps_put a (Some ?p) s2 = Inr s3"
        "sps_inv s3" "sps_table s3 = (sps_table s1)(k \<mapsto> Some ?p)"
      using sps.table_enter [OF s1(2), of junk k "Some ?p"] unfolding sps_table_eq by blast
    obtain m3 q3 where mq3: "s3 = (m3, q3)" by (cases s3)
    let ?c = "c\<lparr>cmem := m3, cache_spt := Some q3, ents := (ents c)(?p \<mapsto> new_entry ops), ent_fresh := ?p + 1\<rparr>"
    have tk: "sps_table (cmem c, q) k = None" using None by (simp add: sps_table_def)
    have fr: "ents c ?p = None" using q(3) unfolding entries_ok_def by blast
    have tab: "sps_table (m3, q3) = (sps_table (cmem c, q))(k \<mapsto> Some ?p)" using s3(4) s1(5) mq3 by simp
    have notp: "sps_table (cmem c, q) k' \<noteq> Some (Some ?p)" for k'
      using q(3) fr unfolding entries_ok_def by blast
    have "entries_ok ?c (sps_table (m3, q3))"
      unfolding tab by (rule entries_ok_add [OF q(3) tk]) simp_all
    then have "cache_ok ?c" using s3(3) mq3 by (simp add: cache_ok_def)
    moreover have "cache_get junk ops k c = Some (Inr (?c, Some ?p))"
      using q(1) s1(1) mq None s3(1,2) mq3 by (simp add: cache_get_def Let_def)
    moreover have "cache_view c k = None" using tk cache_view_eq [OF q(1)] by simp
    moreover have "cache_view ?c x = ((cache_view c)(k \<mapsto> new_entry ops)) x" for x
      using q(1) notp [of x] tab by (auto simp: cache_view_def split: option.splits)
    ultimately show ?thesis using tab
      by (intro exI [of _ ?c] exI [of _ ?p] exI [of _ q3]) (auto simp: entry_of_def fun_eq_iff)
  qed
qed

lemma with_entry_ok:
  assumes "cache_ok c"
  shows "\<exists>c'. with_entry junk ops k f c = Some (Inr c') \<and> cache_ok c'
    \<and> cache_view c' = (cache_view c)(k \<mapsto> f (entry_of ops c k))"
proof -
  obtain c1 p q where c1: "cache_get junk ops k c = Some (Inr (c1, Some p))" "cache_ok c1" "cache_spt c1 = Some q"
      "sps_table (cmem c1, q) k = Some (Some p)" "ents c1 p = Some (entry_of ops c k)"
      "cache_view c1 = (cache_view c)(k \<mapsto> entry_of ops c k)"
    using cache_get_ok [OF assms, of junk ops k] by blast
  let ?c = "c1\<lparr>ents := (ents c1)(p \<mapsto> f (entry_of ops c k))\<rparr>"
  have e1: "sps_inv (cmem c1, q)" "entries_ok c1 (sps_table (cmem c1, q))"
    using c1(2,3) by (auto simp: cache_ok_def)
  have dm: "(ents ?c x \<noteq> None) = (ents c1 x \<noteq> None)" for x using c1(5) by simp
  have "entries_ok ?c (sps_table (cmem c1, q))"
    using e1(2) unfolding entries_ok_def dm by simp
  then have "cache_ok ?c" using e1(1) c1(3) by (simp add: cache_ok_def)
  moreover have "cache_view ?c x = ((cache_view c)(k \<mapsto> f (entry_of ops c k))) x" for x
  proof (cases "x = k")
    case True
    then show ?thesis using c1(3,4) by (simp add: cache_view_def)
  next
    case False
    have "sps_table (cmem c1, q) x \<noteq> Some (Some p)"
      using e1(2) c1(4) False unfolding entries_ok_def by blast
    then have "cache_view ?c x = cache_view c1 x" using c1(3) by (auto simp: cache_view_def split: option.splits)
    then show ?thesis using c1(6) False by simp
  qed
  ultimately show ?thesis using c1(1,5) by (auto simp: with_entry_def fun_eq_iff)
qed

lemma cache_init_ok:
  "cache_ok (cache_init (cache_start :: 'f cache))" "cache_view (cache_init (cache_start :: 'f cache)) = Map.empty"
proof -
  have "(fst sp_start, sp_init\<lparr>symbols := None\<rparr>) = sp_start" by (simp add: sp_start_def sp_init_def)
  then have s: "sps_inv (cmem (cache_init (cache_start :: 'f cache)), sp_init\<lparr>symbols := None\<rparr>)"
      "sps_table (cmem (cache_init (cache_start :: 'f cache)), sp_init\<lparr>symbols := None\<rparr>) = Map.empty"
    using sp_start_ok by (simp_all add: cache_init_def cache_start_def)
  then show "cache_ok (cache_init (cache_start :: 'f cache))"
    by (simp add: cache_ok_def entries_ok_def) (simp add: cache_init_def cache_start_def)
  show "cache_view (cache_init (cache_start :: 'f cache)) = Map.empty"
    by (rule ext) (use s(2) in \<open>simp add: cache_view_def cache_init_def\<close>)
qed

subsection \<open>Sequences of messages\<close>

datatype 'f msg =
    Position int u32 int 'f 'f int 'f int 'f
  | Vesseldata int u32 int string string string int int int int int 'f
  | Vesseldatab int u32 string int int int int int
  | Vesseldatabb int u32 int int int int int
  | Vesselname int u32 string string
  | Persons int u32 int

fun msg_step :: "(nat \<Rightarrow> spblk) \<Rightarrow> 'f fops \<Rightarrow> 'f msg \<Rightarrow> 'f cache \<Rightarrow> 'f cache res option" where
  "msg_step junk ops (Position t k nav lat lon hdg course rot sog) = cache_position junk ops t k nav lat lon hdg course rot sog"
| "msg_step junk ops (Vesseldata t k imo cs n d ty A B C D dr) = cache_vesseldata junk ops t k imo cs n d ty A B C D dr"
| "msg_step junk ops (Vesseldatab t k cs ty A B C D) = cache_vesseldatab junk ops t k cs ty A B C D"
| "msg_step junk ops (Vesseldatabb t k ty A B C D) = cache_vesseldatabb junk ops t k ty A B C D"
| "msg_step junk ops (Vesselname t k n d) = cache_vesselname junk ops t k n d"
| "msg_step junk ops (Persons t k n) = cache_vessel_persons junk ops t k n"

fun msgs_run :: "(nat \<Rightarrow> spblk) \<Rightarrow> 'f fops \<Rightarrow> 'f msg list \<Rightarrow> 'f cache \<Rightarrow> 'f cache res option" where
  "msgs_run junk ops [] c = Some (Inr c)"
| "msgs_run junk ops (x # xs) c =
     (case msg_step junk ops x c of None \<Rightarrow> None | Some (Inl e) \<Rightarrow> Some (Inl e)
      | Some (Inr c1) \<Rightarrow> msgs_run junk ops xs c1)"

text \<open>What a message says of its ship, as the code documents it: the most recent data wins, and
  strings are those last received.\<close>

fun msg_ship :: "'f msg \<Rightarrow> u32" where
  "msg_ship (Position t k nav lat lon hdg course rot sog) = k"
| "msg_ship (Vesseldata t k imo cs n d ty A B C D dr) = k"
| "msg_ship (Vesseldatab t k cs ty A B C D) = k"
| "msg_ship (Vesseldatabb t k ty A B C D) = k"
| "msg_ship (Vesselname t k n d) = k"
| "msg_ship (Persons t k n) = k"

fun msg_says :: "'f fops \<Rightarrow> 'f msg \<Rightarrow> 'f cache_ent \<Rightarrow> 'f cache_ent" where
  "msg_says ops (Position t k nav lat lon hdg course rot sog) e =
     e\<lparr>ce_mmsi := k, ce_received_pos := t, ce_lat := lat, ce_lon := lon, ce_hdg := hdg,
       ce_course := course, ce_sog := sog, ce_navstat := nav\<rparr>"
| "msg_says ops (Vesseldata t k imo cs n d ty A B C D dr) e =
     e\<lparr>ce_mmsi := k, ce_imo := imo, ce_received_data := t, ce_callsign := Some cs, ce_name := Some n,
       ce_destination := Some d, ce_shiptype := ty, ce_A := A, ce_B := B, ce_C := C, ce_D := D, ce_draught := dr\<rparr>"
| "msg_says ops (Vesseldatab t k cs ty A B C D) e =
     e\<lparr>ce_mmsi := k, ce_imo := 0, ce_received_data := t, ce_callsign := Some cs, ce_shiptype := ty,
       ce_A := A, ce_B := B, ce_C := C, ce_D := D, ce_draught := f_zero ops\<rparr>"
| "msg_says ops (Vesseldatabb t k ty A B C D) e =
     e\<lparr>ce_mmsi := k, ce_imo := 0, ce_received_data := t, ce_shiptype := ty,
       ce_A := A, ce_B := B, ce_C := C, ce_D := D, ce_draught := f_zero ops\<rparr>"
| "msg_says ops (Vesselname t k n d) e =
     e\<lparr>ce_mmsi := k, ce_received_data := t, ce_name := Some n, ce_destination := Some d\<rparr>"
| "msg_says ops (Persons t k n) e =
     e\<lparr>ce_mmsi := k, ce_received_persons_on_board := t, ce_persons_on_board := n\<rparr>"

text \<open>What is known of a ship after some messages: those about it, in order.\<close>

definition known :: "'f fops \<Rightarrow> 'f msg list \<Rightarrow> u32 \<Rightarrow> 'f cache_ent option" where
  "known ops ms k = (case filter (\<lambda>x. msg_ship x = k) ms of [] \<Rightarrow> None
     | ys \<Rightarrow> Some (fold (msg_says ops) ys (new_entry ops)))"

lemma new_string_simp [simp]: "new_string p s = Some s"
  by (auto simp: new_string_def split: option.splits)

lemmas cache_ops_def = cache_position_def cache_vesseldata_def cache_vesseldatab_def cache_vesseldatabb_def
  cache_vesselname_def cache_vessel_persons_def position_fields_def vesseldata_fields_def vesseldatab_fields_def
  vesseldatabb_fields_def vesselname_fields_def persons_fields_def

lemma msg_step_eq: "msg_step junk ops x = with_entry junk ops (msg_ship x) (msg_says ops x)"
  by (cases x) (auto simp: cache_ops_def intro!: arg_cong [where f = "with_entry junk ops _"])

lemma msgs_run_ok:
  assumes "cache_ok c"
  shows "\<exists>c'. msgs_run junk ops ms c = Some (Inr c') \<and> cache_ok c'
    \<and> (\<forall>k. cache_view c' k = (case filter (\<lambda>x. msg_ship x = k) ms of [] \<Rightarrow> cache_view c k
         | ys \<Rightarrow> Some (fold (msg_says ops) ys (entry_of ops c k))))"
  using assms
proof (induction ms arbitrary: c)
  case (Cons x ms)
  obtain c1 where c1: "with_entry junk ops (msg_ship x) (msg_says ops x) c = Some (Inr c1)" "cache_ok c1"
      "cache_view c1 = (cache_view c)(msg_ship x \<mapsto> msg_says ops x (entry_of ops c (msg_ship x)))"
    using with_entry_ok [OF Cons.prems] by blast
  obtain c2 where c2: "msgs_run junk ops ms c1 = Some (Inr c2)" "cache_ok c2"
      "\<forall>k. cache_view c2 k = (case filter (\<lambda>x. msg_ship x = k) ms of [] \<Rightarrow> cache_view c1 k
         | ys \<Rightarrow> Some (fold (msg_says ops) ys (entry_of ops c1 k)))"
    using Cons.IH [OF c1(2)] by blast
  have "cache_view c2 k = (case filter (\<lambda>x. msg_ship x = k) (x # ms) of [] \<Rightarrow> cache_view c k
         | ys \<Rightarrow> Some (fold (msg_says ops) ys (entry_of ops c k)))" for k
  proof (cases "msg_ship x = k")
    case True
    then have "entry_of ops c1 k = msg_says ops x (entry_of ops c k)" using c1(3) by (simp add: entry_of_def)
    then show ?thesis using True c1(3) c2(3) by (auto split: list.split)
  next
    case False
    then have "entry_of ops c1 k = entry_of ops c k" "cache_view c1 k = cache_view c k"
      using c1(3) by (simp_all add: entry_of_def)
    then show ?thesis using False c2(3) by (auto split: list.split)
  qed
  then show ?case using c1(1) c2(1,2) by (simp add: msg_step_eq)
qed simp

subsection \<open>Freeing a tree and its entries\<close>

lemma cache_free_loop_ok:
  assumes "tree_ok (blks (cmem c)) q t" "mem_ok (cmem c) used" "set_tree t \<subseteq> used" "inorder t = xs"
    and "\<forall>a\<in>set xs. \<exists>p. data_at (blks (cmem c)) a = Some p \<and> ents c p \<noteq> None"
    and "inj_on (data_at (blks (cmem c))) (set xs)"
  shows "\<exists>c' q'. cache_free_loop (first_of xs) c q n = Some (Inr (c', q', n + int (length xs)))
    \<and> root q' = None \<and> mem_ok (cmem c') (used - set xs) \<and> eltscnt q' = eltscnt q - of_nat (length xs)
    \<and> ents c' = (\<lambda>p. if Some p \<in> data_at (blks (cmem c)) ` set xs then None else ents c p)
    \<and> cache_spt c' = cache_spt c \<and> ent_fresh c' = ent_fresh c"
  using assms
proof (induction xs arbitrary: c q t used n)
  case Nil
  then have "root q = None" by (auto simp: tree_ok_def)
  then show ?case using Nil by (subst cache_free_loop.simps) simp
next
  case (Cons a xs)
  let ?h = "blks (cmem c)"
  have a: "a \<in> set_tree t" using arg_cong [OF Cons.prems(4), of set] by simp
  have nx: "sp_fnext ?h (Some a) = Some (Inr (first_of xs))"
    using sp_fnext_ok [OF Cons.prems(1), of "[]" a xs] Cons.prems(4) by simp
  obtain b where b: "?h a = Some b" using tree_ok_dom [OF Cons.prems(1)] a by blast
  obtain p e where p: "data b = Some p" "ents c p = Some e" using Cons.prems(5) b by (auto simp: data_at_def)
  let ?c1 = "c\<lparr>ents := (ents c)(p := None)\<rparr>"
  obtain m2 q2 t2 where d: "sp_delete a (cmem c) q = Some (Inr (m2, q2))" "tree_ok (blks m2) q2 t2"
      "mem_ok m2 (used - {a})" "inorder t2 = remove1 a (inorder t)"
      "\<forall>x\<in>used - {a}. payload (blks m2) x = payload ?h x" "eltscnt q2 = eltscnt q - 1"
    using sp_delete_ok [OF Cons.prems(1-3) a] by blast
  have o2: "inorder t2 = xs" using d(4) Cons.prems(4) by simp
  have nin: "a \<notin> set xs" using tree_ok_distinct [OF Cons.prems(1)] Cons.prems(4) by simp
  have sub: "set xs \<subseteq> used - {a}"
    using Cons.prems(3) arg_cong [OF Cons.prems(4), of set] nin by auto
  then have sub2: "set_tree t2 \<subseteq> used - {a}" using arg_cong [OF o2, of set] by simp
  have dat: "data_at (blks m2) x = data_at ?h x" if "x \<in> set xs" for x
    using payload_at [of "blks m2" x ?h] d(5) sub that by auto
  have da: "data_at ?h a = Some p" using b p(1) by (simp add: data_at_def)
  have notp: "data_at ?h x \<noteq> Some p" if "x \<in> set xs" for x
    using Cons.prems(6) da that nin by (auto simp: inj_on_def)
  let ?c2 = "?c1\<lparr>cmem := m2\<rparr>"
  have ent2: "\<forall>x\<in>set xs. \<exists>r. data_at (blks (cmem ?c2)) x = Some r \<and> ents ?c2 r \<noteq> None"
  proof
    fix x assume x: "x \<in> set xs"
    then obtain r where r: "data_at ?h x = Some r" "ents c r \<noteq> None" using Cons.prems(5) by auto
    then have "r \<noteq> p" using notp [OF x] by auto
    then show "\<exists>r. data_at (blks (cmem ?c2)) x = Some r \<and> ents ?c2 r \<noteq> None"
      using r dat [OF x] by auto
  qed
  have inj2: "inj_on (data_at (blks (cmem ?c2))) (set xs)"
    using Cons.prems(6) dat by (auto simp: inj_on_def)
  obtain c' q' where c': "cache_free_loop (first_of xs) ?c2 q2 (n + 1) = Some (Inr (c', q', n + 1 + int (length xs)))"
      "root q' = None" "mem_ok (cmem c') (used - {a} - set xs)" "eltscnt q' = eltscnt q2 - of_nat (length xs)"
      "ents c' = (\<lambda>p. if Some p \<in> data_at (blks (cmem ?c2)) ` set xs then None else ents ?c2 p)"
      "cache_spt c' = cache_spt ?c2" "ent_fresh c' = ent_fresh ?c2"
    using Cons.IH [of ?c2 q2 t2 "used - {a}" "n + 1"] d(2,3) sub2 o2 ent2 inj2 by auto
  have "cache_free_loop (first_of (a # xs)) c q n = cache_free_loop (first_of xs) ?c2 q2 (n + 1)"
    using nx b p d(1) by (subst cache_free_loop.simps) (simp add: cache_free_entry_def)
  moreover have "data_at (blks m2) ` set xs = data_at ?h ` set xs" using dat by auto
  then have "ents c' = (\<lambda>r. if Some r \<in> data_at ?h ` set (a # xs) then None else ents c r)"
    using c'(5) da by (auto simp: fun_eq_iff)
  moreover have "used - {a} - set xs = used - set (a # xs)" by auto
  ultimately show ?case using c' d(6) by simp
qed

text \<open>Freeing the tree of the cache takes every entry with it.\<close>

lemma cache_free_ok:
  assumes ok: "cache_ok c" and q: "cache_spt c = Some q"
    and c1: "cmem c1 = cmem c" "ents c1 = ents c"
  shows "\<exists>c' q' n. cache_free q c1 = Some (Inr (c', q', n)) \<and> root q' = None \<and> eltscnt q' = 0
    \<and> (\<exists>used. mem_ok (cmem c') used) \<and> ents c' = Map.empty \<and> cache_spt c' = cache_spt c1
    \<and> n = int (card (dom (cache_view c)))"
proof -
  have s: "sps_inv (cmem c, q)" "entries_ok c (sps_table (cmem c, q))" using ok q by (auto simp: cache_ok_def)
  obtain t used where t: "tree_ok (blks (cmem c)) q t" "mem_ok (cmem c) used" "set_tree t \<subseteq> used"
      "eltscnt q = of_nat (size t)"
    using s(1) by (auto simp: sps_inv_def)
  let ?h = "blks (cmem c)"
  have tab: "sps_table (cmem c, q) (key_at ?h a) = Some (data_at ?h a)" if "a \<in> set_tree t" for a
    using sp_find_iff [OF t(1), of "key_at ?h a" a] that by (simp add: sps_table_def sps_find_def sps_datum_def)
  have tabD: "\<exists>a\<in>set_tree t. key_at ?h a = k \<and> d = data_at ?h a" if "sps_table (cmem c, q) k = Some d" for k d
    using that sp_find_iff [OF t(1)] by (auto simp: sps_table_def sps_find_def sps_datum_def)
  have e: "\<forall>a\<in>set (inorder t). \<exists>p. data_at ?h a = Some p \<and> ents c p \<noteq> None"
    using tab s(2) unfolding entries_ok_def by (metis set_inorder)
  have inj: "inj_on (data_at ?h) (set (inorder t))"
  proof (rule inj_onI)
    fix x y assume xy: "x \<in> set (inorder t)" "y \<in> set (inorder t)" "data_at ?h x = data_at ?h y"
    then have "key_at ?h x = key_at ?h y"
      using tab [of x] tab [of y] s(2) unfolding entries_ok_def by auto
    then show "x = y" using key_at_inj [OF t(1)] xy by simp
  qed
  obtain c' q' where c': "cache_free_loop (first_of (inorder t)) c1 q 0 = Some (Inr (c', q', 0 + int (length (inorder t))))"
      "root q' = None" "mem_ok (cmem c') (used - set (inorder t))" "eltscnt q' = eltscnt q - of_nat (length (inorder t))"
      "ents c' = (\<lambda>p. if Some p \<in> data_at ?h ` set (inorder t) then None else ents c p)" "cache_spt c' = cache_spt c1"
    using cache_free_loop_ok [of c1 q t used "inorder t" 0, unfolded c1, OF t(1-3) refl e inj] by blast
  have "ents c' p = None" for p
  proof (cases "ents c p")
    case (Some x)
    then obtain k where "sps_table (cmem c, q) k = Some (Some p)" using s(2) unfolding entries_ok_def by blast
    then show ?thesis using tabD c'(5) by fastforce
  qed (use c'(5) in simp)
  then have "ents c' = Map.empty" by auto
  moreover have "cache_free q c1 = Some (Inr (c', q', int (length (inorder t))))"
    using sp_fhead_ok [OF t(1)] c'(1) c1 by (simp add: cache_free_def)
  moreover have "dom (cache_view c) = key_at ?h ` set_tree t"
  proof (rule set_eqI)
    fix k
    show "k \<in> dom (cache_view c) \<longleftrightarrow> k \<in> key_at ?h ` set_tree t"
    proof (cases "sps_table (cmem c, q) k")
      case None
      then show ?thesis using cache_view_eq [OF q] tab by (auto simp: dom_def)
    next
      case (Some d)
      then obtain p where "d = Some p" "ents c p \<noteq> None" using s(2) unfolding entries_ok_def by blast
      then show ?thesis using cache_view_eq [OF q, of k] Some tabD [OF Some] by auto
    qed
  qed
  then have "card (dom (cache_view c)) = length (inorder t)"
    using key_at_inj [OF t(1)] distinct_card [OF tree_ok_distinct [OF t(1)]] by (simp add: card_image inj_on_def)
  ultimately show ?thesis using c' t(4) by (auto simp: length_inorder)
qed

section \<open>Properties\<close>

text \<open>C30. From start-up, whatever messages arrive about whatever ships, the cache never faults and
  knows of each ship exactly what the messages about it said, the most recent winning field by
  field, and nothing of any other ship.\<close>

theorem cache_tracks_ships:
  "\<exists>c. msgs_run junk ops ms (cache_init cache_start) = Some (Inr c) \<and> cache_ok c \<and> cache_view c = known ops ms"
proof -
  obtain c where c: "msgs_run junk ops ms (cache_init cache_start) = Some (Inr c)" "cache_ok c"
      "\<forall>k. cache_view c k = (case filter (\<lambda>x. msg_ship x = k) ms of [] \<Rightarrow> cache_view (cache_init cache_start) k
         | ys \<Rightarrow> Some (fold (msg_says ops) ys (entry_of ops (cache_init cache_start) k)))"
    using msgs_run_ok [OF cache_init_ok(1)] by blast
  have "cache_view c = known ops ms"
    by (rule ext) (simp add: c(3) known_def cache_init_ok(2) entry_of_def split: list.split)
  then show ?thesis using c(1,2) by blast
qed



end
