(* ===== verification/Cjson_parse.thy ===== *)
theory Cjson_parse
  imports Cjson "HOL-Library.Sublist"
begin

unbundle bit_operations_syntax

section \<open>Parsing JSON (\<open>cJSON.c\<close>)\<close>

text \<open>
  The parser of the JSON library. A position in the text is the list of the characters that
  are left; behind its end is the NUL, and reading behind that is a fault. \<open>parse_string\<close>
  counts in a first pass what it allocates and decodes in a second one, whose writes are
  checked against that. Numbers are doubles, whose arithmetic is a parameter. Arrays and
  objects nest without limit, so the parser takes fuel; twice the length of the text is
  enough. \<open>ep\<close>, the place of an error, is left out.
\<close>

subsection \<open>Doubles and the parsed tree\<close>

record 'd dops =
  d_of_int :: "int \<Rightarrow> 'd"
  d_add :: "'d \<Rightarrow> 'd \<Rightarrow> 'd"
  d_mul :: "'d \<Rightarrow> 'd \<Rightarrow> 'd"
  d_pow10 :: "'d \<Rightarrow> 'd"
  d_to_int :: "'d \<Rightarrow> int"

text \<open>An item as the parser fills it; \<open>cJSON\<close> of \<^theory_text>\<open>Cjson\<close> with a double.\<close>

datatype 'd pjson = PJSON (ptype: nat) (pchild: "'d pjson list") (pvaluestring: "string option")
  (pvalueint: int) (pvaluedouble: 'd) (pstring: "string option")

text \<open>\<open>cJSON_New_Item\<close>: all zero\<close>

definition new_item :: "'d dops \<Rightarrow> nat \<Rightarrow> 'd pjson list \<Rightarrow> string option \<Rightarrow> 'd pjson" where
  "new_item D t cs s = PJSON t cs s 0 (d_of_int D 0) None"

subsection \<open>Numbers\<close>

text \<open>\<open>do n=(n*10.0)+(*num++ -'0'); while (digit)\<close>\<close>

definition digits_d :: "'d dops \<Rightarrow> 'd \<Rightarrow> string \<Rightarrow> 'd" where
  "digits_d D n ds = foldl (\<lambda>n c. d_add D (d_mul D n (d_of_int D 10)) (d_of_int D (int (ch c) - 48))) n ds"

text \<open>The stages of \<open>parse_number\<close>: the sign, a leading zero, the digits, those of the fraction, and
  the exponent's sign and digits with what follows. The exponent is an \<open>int\<close> that wraps.\<close>

definition num_sign :: "string \<Rightarrow> int \<times> string" where
  "num_sign s = (case s of c # cs \<Rightarrow> if c = CHR ''-'' then (- 1, cs) else (1, s) | [] \<Rightarrow> (1, s))"

definition num_zero :: "string \<Rightarrow> string" where
  "num_zero s = (case s of c # cs \<Rightarrow> if c = CHR ''0'' then cs else s | [] \<Rightarrow> s)"

definition num_digits :: "string \<Rightarrow> string" where
  "num_digits s = (case s of c # cs \<Rightarrow> if c_isdigit c \<and> c \<noteq> CHR ''0'' then takeWhile c_isdigit s else [] | [] \<Rightarrow> [])"

definition num_fraction :: "string \<Rightarrow> string" where
  "num_fraction s = (case s of c # d # cs \<Rightarrow> if c = CHR ''.'' \<and> c_isdigit d then takeWhile c_isdigit (d # cs) else [] | _ \<Rightarrow> [])"

definition num_exponent :: "string \<Rightarrow> int \<times> string \<times> string" where
  "num_exponent s = (case s of
     c # cs \<Rightarrow> if c = CHR ''e'' \<or> c = CHR ''E'' then
         (let (sg, t) = (case cs of d # ds \<Rightarrow> if d = CHR ''+'' then (1, ds) else if d = CHR ''-'' then (- 1, ds)
                                    else (1, cs) | [] \<Rightarrow> (1, cs))
          in (sg, takeWhile c_isdigit t, dropWhile c_isdigit t))
       else (1, [], s)
   | [] \<Rightarrow> (1, [], s))"

definition parse_number :: "'d dops \<Rightarrow> string \<Rightarrow> 'd pjson \<times> string" where
  "parse_number D num =
     (let (sign, s1) = num_sign num;
          s2 = num_zero s1;
          ds = num_digits s2;
          n = digits_d D (d_of_int D 0) ds;
          s3 = drop (length ds) s2;
          fs = num_fraction s3;
          n1 = digits_d D n fs;
          scale = foldl (\<lambda>x _. d_add D x (d_of_int D (- 1))) (d_of_int D 0) fs;
          s4 = (if fs = [] then s3 else drop (length fs + 1) s3);
          (signsub, es, s5) = num_exponent s4;
          subscale = foldl (\<lambda>a c. a * 10 + of_nat (ch c - 48)) (0 :: u32) es;
          v = d_mul D (d_mul D (d_of_int D sign) n1)
                (d_pow10 D (d_add D scale (d_of_int D (sint (subscale * word_of_int signsub)))))
      in (PJSON cJSON_Number [] None (d_to_int D v) v None, s5))"

subsection \<open>Strings\<close>

text \<open>The first pass, from behind the opening quote: the number of characters, an escape being
  one. A backslash makes it skip the next character, even the NUL.\<close>

fun string_units :: "string \<Rightarrow> nat res" where
  "string_units [] = Inr 0"
| "string_units (c # cs) =
     (if c = CHR 0x22 then Inr 0
      else if c = CHR 0x5C then
        (case cs of [] \<Rightarrow> Inl Out_of_bounds | d # ds \<Rightarrow> res_bind (string_units ds) (\<lambda>n. Inr (n + 1)))
      else res_bind (string_units cs) (\<lambda>n. Inr (n + 1)))"

text \<open>\<open>sscanf(s, "%4x", \<dots>)\<close>: the number, or \<open>None\<close> when nothing matches.\<close>

definition c_isxdigit :: "char \<Rightarrow> bool" where
  "c_isxdigit c \<longleftrightarrow> c_isdigit c \<or> 65 \<le> ch c \<and> ch c \<le> 70 \<or> 97 \<le> ch c \<and> ch c \<le> 102"

definition xdigit_val :: "char \<Rightarrow> nat" where
  "xdigit_val c = (if c_isdigit c then ch c - 48 else if ch c \<le> 70 then ch c - 55 else ch c - 87)"

definition scan_4x :: "string \<Rightarrow> u32 option" where
  "scan_4x s =
     (let t = take 4 (dropWhile c_isspace s);
          neg = (t \<noteq> [] \<and> hd t = CHR ''-'');
          t1 = (if t \<noteq> [] \<and> (hd t = CHR ''-'' \<or> hd t = CHR ''+'') then tl t else t);
          t2 = (case t1 of a # b # cs \<Rightarrow> if a = CHR ''0'' \<and> (b = CHR ''x'' \<or> b = CHR ''X'') then cs else t1 | _ \<Rightarrow> t1);
          ds = takeWhile c_isxdigit t2;
          v = (of_nat (foldl (\<lambda>a c. a * 16 + xdigit_val c) 0 ds) :: u32)
      in if ds = [] then None else Some (if neg then - v else v))"

definition byte_of :: "u32 \<Rightarrow> char" where
  "byte_of w = char_of (unat (w AND 0xFF))"

definition utf8_len :: "u32 \<Rightarrow> nat" where
  "utf8_len uc = (if uc < 0x80 then 1 else if uc < 0x800 then 2 else if uc < 0x10000 then 3 else 4)"

definition cont_byte :: "u32 \<Rightarrow> char" where
  "cont_byte uc = byte_of ((uc OR 0x80) AND 0xBF)"

text \<open>The cases fall through from the last byte to the first.\<close>

definition utf8_bytes :: "u32 \<Rightarrow> string" where
  "utf8_bytes uc =
     (let len = utf8_len uc in
      if len = 1 then [byte_of uc]
      else if len = 2 then [byte_of (drop_bit 6 uc OR 0xC0), cont_byte uc]
      else if len = 3 then [byte_of (drop_bit 12 uc OR 0xE0), cont_byte (drop_bit 6 uc), cont_byte uc]
      else [byte_of (drop_bit 18 uc OR 0xF0), cont_byte (drop_bit 12 uc), cont_byte (drop_bit 6 uc), cont_byte uc])"

text \<open>Writing behind \<open>out\<close>, of which \<open>len + 1\<close> bytes are allocated.\<close>

definition put_bytes :: "nat \<Rightarrow> string \<Rightarrow> string \<Rightarrow> string res" where
  "put_bytes len out bs = (if length out + length bs \<le> len + 1 then Inr (out @ bs) else Inl Out_of_bounds)"

text \<open>What an escape \<open>\u\<close> does: \<open>t\<close> is the text behind the \<open>u\<close>, \<open>uc\<close> and \<open>uc2\<close> the variables, which
  are unset at first. The result is what it writes, how much of \<open>t\<close> it takes, and the variables.\<close>

definition escape_u :: "u32 option \<Rightarrow> u32 option \<Rightarrow> string \<Rightarrow> (string \<times> nat \<times> u32 option \<times> u32 option) res" where
  "escape_u uc uc2 t =
     (let uc = (case scan_4x t of None \<Rightarrow> uc | Some v \<Rightarrow> Some v) in
      case uc of None \<Rightarrow> Inl Uninitialised
      | Some w \<Rightarrow>
          if 0xDC00 \<le> w \<and> w \<le> 0xDFFF \<or> w = 0 then Inr ([], 4, uc, uc2)
          else if 0xD800 \<le> w \<and> w \<le> 0xDBFF then
            (if length t < 4 then Inl Out_of_bounds
             else if take 2 (drop 4 t) \<noteq> [CHR 0x5C, CHR ''u''] then Inr ([], 4, uc, uc2)
             else
               (let uc2 = (case scan_4x (drop 6 t) of None \<Rightarrow> uc2 | Some v \<Rightarrow> Some v) in
                case uc2 of None \<Rightarrow> Inl Uninitialised
                | Some w2 \<Rightarrow>
                    if w2 < 0xDC00 \<or> w2 > 0xDFFF then Inr ([], 10, uc, uc2)
                    else
                      (let c = 0x10000 OR push_bit 10 (w AND 0x3FF) OR (w2 AND 0x3FF)
                       in Inr (utf8_bytes c, 10, Some (drop_bit (6 * (utf8_len c - 1)) c), uc2))))
          else Inr (utf8_bytes w, 4, Some (drop_bit (6 * (utf8_len w - 1)) w), uc2))"

definition simple_escape :: "char \<Rightarrow> char" where
  "simple_escape e =
     (if e = CHR ''b'' then CHR 0x08 else if e = CHR ''f'' then CHR 0x0C
      else if e = CHR ''n'' then CHR 0x0A else if e = CHR ''r'' then CHR 0x0D
      else if e = CHR ''t'' then CHR 0x09 else e)"

text \<open>The second pass; the result is the string and the text behind the closing quote.\<close>

function (sequential) unescape ::
  "nat \<Rightarrow> u32 option \<Rightarrow> u32 option \<Rightarrow> string \<Rightarrow> string \<Rightarrow> (string \<times> string) res"
where
  "unescape len uc uc2 out [] = res_bind (put_bytes len out [CHR 0x00]) (\<lambda>_. Inr (out, []))"
| "unescape len uc uc2 out (c # cs) =
     (if c = CHR 0x22 then res_bind (put_bytes len out [CHR 0x00]) (\<lambda>_. Inr (out, cs))
      else if c \<noteq> CHR 0x5C then res_bind (put_bytes len out [c]) (\<lambda>o1. unescape len uc uc2 o1 cs)
      else case cs of
          [] \<Rightarrow> Inl Out_of_bounds
        | e # t \<Rightarrow>
            if e = CHR ''u'' then
              res_bind (escape_u uc uc2 t) (\<lambda>(bs, k, u1, u2).
                res_bind (put_bytes len out bs) (\<lambda>o1.
                  if length t < k then Inl Out_of_bounds else unescape len u1 u2 o1 (drop k t)))
            else
              res_bind (put_bytes len out
                [simple_escape e]) (\<lambda>o1. unescape len uc uc2 o1 t))"
  by pat_completeness auto
termination
  by (relation "measure (\<lambda>(len, uc, uc2, out, s). length s)") auto

declare unescape.simps [simp del]

text \<open>\<open>Inr None\<close> is the return value 0.\<close>

definition parse_string_json :: "string \<Rightarrow> (string \<times> string) option res" where
  "parse_string_json str =
     (case str of [] \<Rightarrow> Inr None
      | c # cs \<Rightarrow>
          if c \<noteq> CHR 0x22 then Inr None
          else res_bind (string_units cs) (\<lambda>len.
                 res_bind (unescape len None None [] cs) (\<lambda>(out, rest). Inr (Some (out, rest)))))"

subsection \<open>Values\<close>

definition skip :: "string \<Rightarrow> string" where
  "skip s = dropWhile (\<lambda>c. ch c \<le> 32) s"

definition starts :: "string \<Rightarrow> string \<Rightarrow> bool" where
  "starts p s \<longleftrightarrow> take (length p) s = p"

fun with_string :: "'d pjson \<Rightarrow> string \<Rightarrow> 'd pjson" where
  "with_string (PJSON t cs vs v d n) s = PJSON t cs vs v d (Some s)"

text \<open>\<open>parse_elems\<close> and \<open>parse_members\<close> are at the place of an entry; \<open>acc\<close> holds those before.
  The outer \<open>None\<close> is fuel that has run out.\<close>

fun parse_value :: "nat \<Rightarrow> 'd dops \<Rightarrow> string \<Rightarrow> ('d pjson \<times> string) option res option"
  and parse_elems :: "nat \<Rightarrow> 'd dops \<Rightarrow> string \<Rightarrow> 'd pjson list \<Rightarrow> ('d pjson \<times> string) option res option"
  and parse_members :: "nat \<Rightarrow> 'd dops \<Rightarrow> string \<Rightarrow> 'd pjson list \<Rightarrow> ('d pjson \<times> string) option res option"
where
  "parse_value 0 D s = None"
| "parse_value (Suc f) D s =
     (if starts ''null'' s then Some (Inr (Some (new_item D cJSON_NULL [] None, drop 4 s)))
      else if starts ''false'' s then Some (Inr (Some (new_item D cJSON_False [] None, drop 5 s)))
      else if starts ''true'' s then Some (Inr (Some (PJSON cJSON_True [] None 1 (d_of_int D 0) None, drop 4 s)))
      else case s of [] \<Rightarrow> Some (Inr None) | c # cs \<Rightarrow>
        if c = CHR 0x22 then
          Some (map_sum id (map_option (\<lambda>(x, rest). (new_item D cJSON_String [] (Some x), rest))) (parse_string_json s))
        else if c = CHR ''-'' \<or> c_isdigit c then Some (Inr (Some (parse_number D s)))
        else if c = CHR ''['' then
          (case skip cs of
             d # ds \<Rightarrow> if d = CHR '']'' then Some (Inr (Some (new_item D cJSON_Array [] None, ds)))
                        else parse_elems f D (d # ds) []
           | [] \<Rightarrow> parse_elems f D [] [])
        else if c = CHR ''{'' then
          (case skip cs of
             d # ds \<Rightarrow> if d = CHR ''}'' then Some (Inr (Some (new_item D cJSON_Object [] None, ds)))
                        else parse_members f D (d # ds) []
           | [] \<Rightarrow> parse_members f D [] [])
        else Some (Inr None))"
| "parse_elems 0 D s acc = None"
| "parse_elems (Suc f) D s acc =
     (case parse_value f D (skip s) of
        None \<Rightarrow> None | Some (Inl e) \<Rightarrow> Some (Inl e) | Some (Inr None) \<Rightarrow> Some (Inr None)
      | Some (Inr (Some (v, rest))) \<Rightarrow>
          (case skip rest of
             [] \<Rightarrow> Some (Inr None)
           | c # cs \<Rightarrow>
               if c = CHR '','' then parse_elems f D cs (acc @ [v])
               else if c = CHR '']'' then Some (Inr (Some (new_item D cJSON_Array (acc @ [v]) None, cs)))
               else Some (Inr None)))"
| "parse_members 0 D s acc = None"
| "parse_members (Suc f) D s acc =
     (case parse_string_json (skip s) of
        Inl e \<Rightarrow> Some (Inl e) | Inr None \<Rightarrow> Some (Inr None)
      | Inr (Some (name, r1)) \<Rightarrow>
          (case skip r1 of
             [] \<Rightarrow> Some (Inr None)
           | b # bs \<Rightarrow>
               if b \<noteq> CHR '':'' then Some (Inr None)
               else
                 (case parse_value f D (skip bs) of
                    None \<Rightarrow> None | Some (Inl e) \<Rightarrow> Some (Inl e) | Some (Inr None) \<Rightarrow> Some (Inr None)
                  | Some (Inr (Some (v, rest))) \<Rightarrow>
                      (case skip rest of
                         [] \<Rightarrow> Some (Inr None)
                       | c # cs \<Rightarrow>
                           if c = CHR '','' then parse_members f D cs (acc @ [with_string v name])
                           else if c = CHR ''}'' then
                             Some (Inr (Some (new_item D cJSON_Object (acc @ [with_string v name]) None, cs)))
                           else Some (Inr None)))))"

definition cJSON_Parse :: "'d dops \<Rightarrow> string \<Rightarrow> 'd pjson option res option" where
  "cJSON_Parse D value =
     map_option (map_sum id (map_option fst)) (parse_value (2 * length (skip value) + 1) D (skip value))"

subsection \<open>Every step of the parser uses up text\<close>

lemma string_units_total: "CHR 0x5C \<notin> set s \<Longrightarrow> string_units s = Inr (length (takeWhile (\<lambda>c. c \<noteq> CHR 0x22) s))"
  by (induction s rule: string_units.induct) auto

lemma put_bytes_Inr: "put_bytes len out bs = Inr o1 \<Longrightarrow> o1 = out @ bs"
  by (simp add: put_bytes_def split: if_splits)

lemma unescape_suffix: "unescape len uc uc2 out s = Inr (x, rest) \<Longrightarrow> suffix rest s"
proof (induction "length s" arbitrary: s out uc uc2 rule: less_induct)
  case less
  have IH: "suffix rest t" if "length t < length s" "unescape len u1 u2 o1 t = Inr (x, rest)"
    for t u1 u2 o1
    using less.hyps that by blast
  show ?case
  proof (cases s)
    case Nil
    then show ?thesis using less.prems by (auto simp: unescape.simps res_bind_Inr_iff)
  next
    case (Cons c cs)
    have "cs \<noteq> []" if "c = CHR 0x5C"
      using less.prems Cons that by (auto simp: unescape.simps)
    then consider "c = CHR 0x22" | "c \<noteq> CHR 0x22" "c \<noteq> CHR 0x5C" | e t where "c = CHR 0x5C" "cs = e # t" "e = CHR ''u''"
      | e t where "c = CHR 0x5C" "cs = e # t" "e \<noteq> CHR ''u''"
      by (metis list.exhaust)
    then show ?thesis
    proof cases
      case 1
      then show ?thesis using less.prems Cons by (auto simp: unescape.simps res_bind_Inr_iff suffix_ConsI)
    next
      case 2
      then obtain o1 where "unescape len uc uc2 o1 cs = Inr (x, rest)"
        using less.prems Cons by (auto simp: unescape.simps res_bind_Inr_iff)
      from IH [OF _ this] show ?thesis using Cons by (simp add: suffix_ConsI)
    next
      case (3 e t)
      then obtain k u1 u2 o1 where u: "unescape len u1 u2 o1 (drop k t) = Inr (x, rest)"
        using less.prems Cons by (auto simp: unescape.simps res_bind_Inr_iff split: if_splits)
      have "length (drop k t) < length s" using Cons 3 by (simp add: less_Suc_eq_le le_SucI)
      from IH [OF this u] show ?thesis
        using Cons 3 suffix_drop [of k t] by (meson suffix_ConsI suffix_order.trans)
    next
      case (4 e t)
      from 4(1,3) obtain o1 where "unescape len uc uc2 o1 t = Inr (x, rest)"
        using less.prems unfolding Cons 4(2) unescape.simps by (auto simp: res_bind_Inr_iff)
      from IH [OF _ this] show ?thesis using Cons 4 by (simp add: suffix_ConsI)
    qed
  qed
qed

lemma suffix_imp_strict: "suffix r cs \<Longrightarrow> strict_suffix r (c # cs)"
  by (meson suffix_ConsD' suffix_order.le_less_trans suffix_order.order_refl)

lemma parse_string_suffix: "parse_string_json s = Inr (Some (x, rest)) \<Longrightarrow> strict_suffix rest s"
  by (cases s) (auto simp: parse_string_json_def res_bind_Inr_iff split: if_splits
      intro!: suffix_imp_strict elim: unescape_suffix)

lemma skip_suffix: "suffix (skip s) s"
  by (simp add: skip_def suffix_dropWhile)

lemma skip_Cons_suffix: "skip s = c # cs \<Longrightarrow> strict_suffix cs s"
  using skip_suffix [of s] by (simp add: suffix_ConsD')

lemma num_stages_suffix:
  "suffix (snd (num_sign s)) s" "suffix (num_zero s) s" "suffix (snd (snd (num_exponent s))) s"
proof -
  show "suffix (snd (num_sign s)) s" "suffix (num_zero s) s"
    by (auto simp: num_sign_def num_zero_def suffix_ConsI split: list.splits)
  show "suffix (snd (snd (num_exponent s))) s"
    by (auto simp: num_exponent_def Let_def suffix_dropWhile suffix_ConsI split: list.splits)
qed

lemma parse_number_rest:
  "snd (parse_number D s) =
     (let s2 = num_zero (snd (num_sign s)); s3 = drop (length (num_digits s2)) s2; fs = num_fraction s3
      in snd (snd (num_exponent (if fs = [] then s3 else drop (length fs + 1) s3))))"
  by (simp add: parse_number_def Let_def split_beta)

lemma parse_number_suffix:
  assumes "c = CHR ''-'' \<or> c_isdigit c"
  shows "suffix (snd (parse_number D (c # cs))) cs"
proof -
  define s2 where "s2 = num_zero (snd (num_sign (c # cs)))"
  define s3 where "s3 = drop (length (num_digits s2)) s2"
  consider "c = CHR ''-''" | "c = CHR ''0''" | "c \<noteq> CHR ''-''" "c \<noteq> CHR ''0''" "c_isdigit c"
    using assms by blast
  then have "suffix s3 cs"
  proof cases
    case 1
    then have "s2 = num_zero cs" by (simp add: s2_def num_sign_def)
    then show ?thesis
      using num_stages_suffix(2) [of cs] suffix_drop by (metis s3_def suffix_order.trans)
  next
    case 2
    then have "s2 = cs" by (simp add: s2_def num_sign_def num_zero_def)
    then show ?thesis by (simp add: s3_def suffix_drop)
  next
    case 3
    then have "s2 = c # cs" "num_digits s2 \<noteq> []" by (simp_all add: s2_def num_sign_def num_zero_def num_digits_def)
    then show ?thesis by (cases "num_digits s2") (simp_all add: s3_def suffix_drop)
  qed
  moreover have "suffix (snd (snd (num_exponent (if fs = [] then s3 else drop n s3)))) s3" for n fs
    using num_stages_suffix(3) [of s3] suffix_order.trans [OF num_stages_suffix(3) [of "drop n s3"] suffix_drop]
    by simp
  ultimately show ?thesis
    unfolding parse_number_rest Let_def s2_def [symmetric] s3_def [symmetric] by (meson suffix_order.trans)
qed

text \<open>How an entry is parsed, and what is left then\<close>

lemma starts_split: "starts p s \<Longrightarrow> s = p @ drop (length p) s"
  unfolding starts_def by (metis append_take_drop_id)

lemma drop_strict: "s \<noteq> [] \<Longrightarrow> 0 < n \<Longrightarrow> strict_suffix (drop n s) s"
  by (cases s; cases n) (simp_all add: suffix_imp_strict suffix_drop)

lemma starts_nonempty: "starts p s \<Longrightarrow> p \<noteq> [] \<Longrightarrow> s \<noteq> []"
  by (auto simp: starts_def)

lemma parse_progress:
  "parse_value f D s = Some (Inr (Some (v, r))) \<Longrightarrow> strict_suffix r s"
  "parse_elems f D s acc = Some (Inr (Some (v, r))) \<Longrightarrow> strict_suffix r s"
  "parse_members f D s acc = Some (Inr (Some (v, r))) \<Longrightarrow> strict_suffix r s"
proof (induction f arbitrary: s acc v r and s acc v r and s acc v r)
  case (Suc f)
  {
  case 1
  note prem = 1
  show ?case
  proof (cases "starts ''null'' s \<or> starts ''false'' s \<or> starts ''true'' s")
    case True
    then show ?thesis
      using prem starts_nonempty [of _ s] by (auto simp: drop_strict split: if_splits)
  next
    case False
    then obtain c cs where s: "s = c # cs" using prem by (cases s) auto
    consider "c = CHR 0x22" | "c = CHR ''-'' \<or> c_isdigit c" "c \<noteq> CHR 0x22"
      | d ds where "c = CHR ''[''" "skip cs = d # ds" "d = CHR '']''"
      | "c = CHR ''[''" "parse_elems f D (skip cs) [] = Some (Inr (Some (v, r)))"
      | d ds where "c = CHR ''{''" "skip cs = d # ds" "d = CHR ''}''"
      | "c = CHR ''{''" "parse_members f D (skip cs) [] = Some (Inr (Some (v, r)))"
      using prem False s by (auto split: if_splits list.splits)
    then show ?thesis
    proof cases
      case 1
      then have "parse_string_json s = Inr (Some (the (pvaluestring v), r))"
        using prem False s by (cases "parse_string_json s") (auto simp: new_item_def)
      then show ?thesis by (rule parse_string_suffix)
    next
      case 2
      then have "r = snd (parse_number D s)" using prem False s by auto
      then show ?thesis using parse_number_suffix [OF 2(1), of D cs] s by (simp add: suffix_imp_strict)
    next
      case (3 d ds)
      then show ?thesis using prem False s skip_Cons_suffix [of cs]
        by (auto simp: c_isdigit_def intro: suffix_imp_strict)
    next
      case 4
      then show ?thesis using suffix_order.less_le_trans [OF Suc.IH(2) [OF 4(2)] skip_suffix] s
        by (simp add: suffix_imp_strict suffix_order.less_imp_le)
    next
      case (5 d ds)
      then show ?thesis using prem False s skip_Cons_suffix [of cs]
        by (auto simp: c_isdigit_def intro: suffix_imp_strict)
    next
      case 6
      then show ?thesis using suffix_order.less_le_trans [OF Suc.IH(3) [OF 6(2)] skip_suffix] s
        by (simp add: suffix_imp_strict suffix_order.less_imp_le)
    qed
  qed
next
  case 2
  then obtain v1 rest c cs where p: "parse_value f D (skip s) = Some (Inr (Some (v1, rest)))" "skip rest = c # cs"
    and q: "c = CHR '']'' \<and> r = cs \<or> c = CHR '','' \<and> parse_elems f D cs (acc @ [v1]) = Some (Inr (Some (v, r)))"
    by (auto split: option.splits sum.splits list.splits if_splits)
  have "strict_suffix cs s"
    using Suc.IH(1) [OF p(1)] skip_Cons_suffix [OF p(2)] skip_suffix [of s]
    by (meson suffix_order.less_le_trans suffix_order.less_trans)
  moreover have "suffix r cs"
    using q Suc.IH(2) [of cs "acc @ [v1]" v r] by auto
  ultimately show ?case by (meson suffix_order.le_less_trans)
next
  case 3
  then obtain name r1 bs v1 rest c cs where n: "parse_string_json (skip s) = Inr (Some (name, r1))" "skip r1 = CHR '':'' # bs"
    and p: "parse_value f D (skip bs) = Some (Inr (Some (v1, rest)))" "skip rest = c # cs"
    and q: "c = CHR ''}'' \<and> r = cs \<or> c = CHR '','' \<and> parse_members f D cs (acc @ [with_string v1 name]) = Some (Inr (Some (v, r)))"
    by (auto split: option.splits sum.splits list.splits if_splits)
  have "strict_suffix bs s"
    using parse_string_suffix [OF n(1)] skip_Cons_suffix [OF n(2)] skip_suffix [of s]
    by (meson suffix_order.less_le_trans suffix_order.less_trans)
  moreover have "strict_suffix cs bs"
    using Suc.IH(1) [OF p(1)] skip_Cons_suffix [OF p(2)] skip_suffix [of bs]
    by (meson suffix_order.less_le_trans suffix_order.less_trans)
  moreover have "suffix r cs"
    using q Suc.IH(3) [of cs "acc @ [with_string v1 name]" v r] by auto
  ultimately show ?case by (meson suffix_order.le_less_trans suffix_order.less_trans)
  }
next
  case 0
  {
  case 1
  then show ?case by simp
next
  case 2
  then show ?case by simp
next
  case 3
  then show ?case by simp
  }
qed

lemma skip_shorter: "length (skip s) \<le> length s"
  by (rule suffix_length_le [OF skip_suffix])

lemmas skip_Cons_shorter = suffix_length_less [OF skip_Cons_suffix]
lemmas parse_string_shorter = suffix_length_less [OF parse_string_suffix]
lemmas parse_value_shorter = suffix_length_less [OF parse_progress(1)]

text \<open>Twice the length of the text is enough fuel.\<close>

lemma parse_enough:
  "2 * length s + 1 \<le> f \<Longrightarrow> parse_value f D s \<noteq> None"
  "2 * length s + 2 \<le> f \<Longrightarrow> parse_elems f D s acc \<noteq> None"
  "2 * length s + 2 \<le> f \<Longrightarrow> parse_members f D s acc \<noteq> None"
proof (induction f arbitrary: s acc and s acc and s acc)
  case (Suc f)
  {
  case 1
  have "parse_elems f D (skip cs) [] \<noteq> None" "parse_members f D (skip cs) [] \<noteq> None" if "s = c # cs" for c cs
    using 1 that skip_shorter [of cs] Suc.IH(2,3) [of "skip cs" "[]"] by (simp_all del: not_None_eq)
  then show ?case
    by (cases s; cases "skip (tl s)") (simp_all del: not_None_eq)
next
  case 2
  have v: "parse_value f D (skip s) \<noteq> None"
    using 2 skip_shorter [of s] Suc.IH(1) [of "skip s"] by linarith
  have "parse_elems f D cs acc' \<noteq> None"
    if "parse_value f D (skip s) = Some (Inr (Some (v, rest)))" "skip rest = c # cs" for v rest c cs acc'
    using 2 parse_value_shorter [OF that(1)] skip_Cons_shorter [OF that(2)] skip_shorter [of s]
    by (intro Suc.IH(2)) simp
  then show ?case
    using v by (auto split: list.split option.splits sum.splits)
next
  case 3
  have v: "parse_value f D (skip bs) \<noteq> None"
    if "parse_string_json (skip s) = Inr (Some (name, r1))" "skip r1 = b # bs" for name r1 b bs
    using 3 parse_string_shorter [OF that(1)] skip_Cons_shorter [OF that(2)] skip_shorter [of s] skip_shorter [of bs]
    by (intro Suc.IH(1)) simp
  have "parse_members f D cs acc' \<noteq> None"
    if "parse_string_json (skip s) = Inr (Some (name, r1))" "skip r1 = b # bs"
      "parse_value f D (skip bs) = Some (Inr (Some (v, rest)))" "skip rest = c # cs" for name r1 b bs v rest c cs acc'
    using 3 parse_string_shorter [OF that(1)] skip_Cons_shorter [OF that(2)] skip_shorter [of s] skip_shorter [of bs]
      parse_value_shorter [OF that(3)] skip_Cons_shorter [OF that(4)]
    by (intro Suc.IH(3)) simp
  then show ?case
    by (auto split: list.split option.splits sum.splits dest: v simp del: not_None_eq)
  }
qed simp_all

lemma parse_more_fuel:
  "parse_value f D s \<noteq> None \<Longrightarrow> parse_value (Suc f) D s = parse_value f D s"
  "parse_elems f D s acc \<noteq> None \<Longrightarrow> parse_elems (Suc f) D s acc = parse_elems f D s acc"
  "parse_members f D s acc \<noteq> None \<Longrightarrow> parse_members (Suc f) D s acc = parse_members f D s acc"
proof (induction f arbitrary: s acc and s acc and s acc)
  case (Suc f)
  {
  case 1
  then show ?case
    unfolding parse_value.simps(2) [of f D s] parse_value.simps(2) [of "Suc f" D s] using Suc.IH(2,3)
    by (auto simp del: parse_value.simps parse_elems.simps parse_members.simps split: list.split if_splits)
next
  case 2
  then have "parse_value f D (skip s) \<noteq> None" by (auto split: option.splits)
  then show ?case
    using 2 unfolding parse_elems.simps(2) [of f D s acc] parse_elems.simps(2) [of "Suc f" D s acc] using Suc.IH(2)
    by (auto simp del: parse_value.simps parse_elems.simps parse_members.simps simp: Suc.IH(1)
        split: option.split sum.split list.split if_splits)
next
  case 3
  then show ?case
    unfolding parse_members.simps(2) [of f D s acc] parse_members.simps(2) [of "Suc f" D s acc] using Suc.IH(1,3)
    by (auto simp del: parse_value.simps parse_elems.simps parse_members.simps
        split: option.splits sum.split list.split if_splits)
  }
qed simp_all

subsection \<open>Texts that parse without a fault\<close>

text \<open>No backslash ends the text, and behind every \<open>\u\<close> stand four hexadecimal digits.\<close>

fun escapes_ok :: "string \<Rightarrow> bool" where
  "escapes_ok [] \<longleftrightarrow> True"
| "escapes_ok (c # cs) \<longleftrightarrow>
     (c = CHR 0x5C \<longrightarrow> cs \<noteq> [] \<and> (hd cs = CHR ''u'' \<longrightarrow> 4 < length cs \<and> list_all c_isxdigit (take 4 (tl cs))))
     \<and> escapes_ok cs"

lemma escapes_ok_appendD: "escapes_ok (xs @ s) \<Longrightarrow> escapes_ok s"
  by (induction xs) simp_all

lemma escapes_ok_suffix: "escapes_ok s \<Longrightarrow> suffix t s \<Longrightarrow> escapes_ok t"
  by (auto elim!: suffixE dest: escapes_ok_appendD)

lemma xdigit_plain: "c_isxdigit c \<Longrightarrow> c \<noteq> CHR 0x22 \<and> c \<noteq> CHR 0x5C \<and> \<not> c_isspace c \<and> c \<noteq> CHR ''-''
    \<and> c \<noteq> CHR ''+'' \<and> c \<noteq> CHR ''x'' \<and> c \<noteq> CHR ''X''"
  by (auto simp: c_isxdigit_def c_isdigit_def c_isspace_def)

lemma four_split:
  assumes "4 \<le> length t"
  obtains a b c d u where "t = a # b # c # d # u"
  using assms by (cases t rule: list.exhaust; cases "tl t"; cases "tl (tl t)"; cases "tl (tl (tl t))") auto

definition hex4 :: "char \<Rightarrow> char \<Rightarrow> char \<Rightarrow> char \<Rightarrow> u32" where
  "hex4 a b c d = of_nat (((xdigit_val a * 16 + xdigit_val b) * 16 + xdigit_val c) * 16 + xdigit_val d)"

lemma scan_4x_digits:
  "list_all c_isxdigit [a, b, c, d] \<Longrightarrow> scan_4x (a # b # c # d # u) = Some (hex4 a b c d)"
  using xdigit_plain [of a] xdigit_plain [of b]
  by (simp add: scan_4x_def hex4_def Let_def)

lemma utf8_bytes_length: "length (utf8_bytes w) \<le> 4"
  by (simp add: utf8_bytes_def Let_def)

lemma string_units_plain:
  "list_all c_isxdigit [a, b, c, d] \<Longrightarrow>
   string_units (a # b # c # d # u) = res_bind (string_units u) (\<lambda>n. Inr (n + 4))"
  using xdigit_plain [of a] xdigit_plain [of b] xdigit_plain [of c] xdigit_plain [of d]
  by (cases "string_units u") simp_all

lemma string_units_ok: "escapes_ok s \<Longrightarrow> \<exists>n. string_units s = Inr n"
proof (induction s rule: string_units.induct)
  case (2 c cs)
  consider "c = CHR 0x22" | d ds where "c = CHR 0x5C" "cs = d # ds" | "c \<noteq> CHR 0x22" "c \<noteq> CHR 0x5C"
    using "2.prems" by (cases cs) auto
  then show ?case
  proof cases
    case (2 d ds)
    then show ?thesis using "2.IH"(1) [of d ds] "2.prems" by force
  next
    case 3
    then show ?thesis using "2.IH"(2) "2.prems" by force
  qed simp
qed simp

lemma escapes_ok_u:
  assumes "escapes_ok (CHR 0x5C # CHR ''u'' # t)"
  obtains a b c d u where "t = a # b # c # d # u" "list_all c_isxdigit [a, b, c, d]" "escapes_ok u"
proof -
  have "4 \<le> length t" using assms by simp
  then obtain a b c d u where t: "t = a # b # c # d # u" by (rule four_split)
  moreover have "escapes_ok u"
    using assms escapes_ok_appendD [of "[CHR 0x5C, CHR ''u'', a, b, c, d]" u] t by simp
  moreover have "list_all c_isxdigit [a, b, c, d]"
    using assms unfolding t escapes_ok.simps(2) [of "CHR 0x5C"] by simp
  ultimately show ?thesis using that by blast
qed

lemma escape_u_fits:
  assumes "escapes_ok (CHR 0x5C # CHR ''u'' # t)" "string_units t = Inr m"
  shows "\<exists>bs k u1 u2 n. escape_u uc uc2 t = Inr (bs, k, u1, u2) \<and> k \<le> length t
     \<and> string_units (drop k t) = Inr n \<and> length bs + n \<le> m + 1"
proof -
  obtain a b c d u where t: "t = a # b # c # d # u" "list_all c_isxdigit [a, b, c, d]" and u: "escapes_ok u"
    using assms(1) by (rule escapes_ok_u)
  obtain n where n: "string_units u = Inr n" "m = n + 4"
    using string_units_ok [OF u] assms(2) string_units_plain [OF t(2), of u] t(1) by auto
  have scan: "scan_4x t = Some (hex4 a b c d)" using scan_4x_digits [OF t(2)] t(1) by simp
  define w where "w = hex4 a b c d"
  have len: "length (utf8_bytes v) \<le> Suc (n + 4)" for v using utf8_bytes_length [of v] by simp
  consider "0xDC00 \<le> w \<and> w \<le> 0xDFFF \<or> w = 0" | "\<not> (0xDC00 \<le> w \<and> w \<le> 0xDFFF \<or> w = 0)" "0xD800 \<le> w \<and> w \<le> 0xDBFF"
    | "\<not> (0xDC00 \<le> w \<and> w \<le> 0xDFFF \<or> w = 0)" "\<not> (0xD800 \<le> w \<and> w \<le> 0xDBFF)" by blast
  then show ?thesis
  proof cases
    case 1
    then show ?thesis using n t(1) scan by (auto simp: escape_u_def w_def)
  next
    case 3
    then show ?thesis
      using n t(1) scan utf8_bytes_length [of w] by (auto simp: escape_u_def w_def [symmetric] Let_def)
  next
    case 2
    show ?thesis
    proof (cases "take 2 u = [CHR 0x5C, CHR ''u'']")
      case False
      then show ?thesis using 2 n t(1) scan by (auto simp: escape_u_def w_def [symmetric] Let_def)
    next
      case True
      then obtain u' where u': "u = CHR 0x5C # CHR ''u'' # u'"
        by (cases u; cases "tl u") auto
      obtain e f g h v where v: "u' = e # f # g # h # v" "list_all c_isxdigit [e, f, g, h]" and ok: "escapes_ok v"
        using u u' by (metis escapes_ok_u)
      obtain l where l: "string_units v = Inr l" "n = l + 5"
        using string_units_ok [OF ok] n(1) string_units_plain [OF v(2), of v] u' v(1) by auto
      have scan2: "scan_4x (drop 6 t) = Some (hex4 e f g h)" using scan_4x_digits [OF v(2)] t(1) u' v(1) by simp
      have "\<exists>bs u1 u2. escape_u uc uc2 t = Inr (bs, 10, u1, u2) \<and> length bs \<le> 4"
        using 2 t(1) u' v(1) scan [folded w_def] scan2 utf8_bytes_length unfolding escape_u_def Let_def
        by simp
      moreover have "string_units (drop 10 t) = Inr l" "10 \<le> length t" using l t(1) u' v(1) by simp_all
      ultimately show ?thesis using n(2) l(2) by fastforce
    qed
  qed
qed

lemma put_bytes_ok: "length out + length bs \<le> len + 1 \<Longrightarrow> put_bytes len out bs = Inr (out @ bs)"
  by (simp add: put_bytes_def)

lemma unescape_fits:
  "escapes_ok s \<Longrightarrow> string_units s = Inr m \<Longrightarrow> length out + m \<le> len \<Longrightarrow>
   \<exists>p. unescape len uc uc2 out s = Inr p"
proof (induction "length s" arbitrary: s m out uc uc2 rule: less_induct)
  case less
  have IH: "\<exists>p. unescape len u1 u2 o1 t = Inr p"
    if "length t < length s" "suffix t s" "string_units t = Inr n" "length o1 + n \<le> len" for t n o1 u1 u2
    using less.hyps [OF that(1) escapes_ok_suffix [OF less.prems(1) that(2)] that(3,4)] .
  show ?case
  proof (cases s)
    case Nil
    then show ?thesis using less.prems by (simp add: unescape.simps put_bytes_ok)
  next
    case (Cons c cs)
    have "cs \<noteq> []" if "c = CHR 0x5C"
      using less.prems Cons that by auto
    then consider "c = CHR 0x22" | "c \<noteq> CHR 0x22" "c \<noteq> CHR 0x5C" | e t where "c = CHR 0x5C" "cs = e # t" "e = CHR ''u''"
      | e t where "c = CHR 0x5C" "cs = e # t" "e \<noteq> CHR ''u''"
      by (metis list.exhaust)
    then show ?thesis
    proof cases
      case 1
      then show ?thesis using less.prems Cons by (simp add: unescape.simps put_bytes_ok)
    next
      case 2
      then obtain n where "string_units cs = Inr n" "m = n + 1"
        using less.prems(2) Cons by (auto simp: res_bind_Inr_iff)
      then show ?thesis
        using IH [of cs n "out @ [c]" uc uc2] less.prems(3) 2 Cons
        by (simp add: unescape.simps put_bytes_ok suffix_ConsI)
    next
      case (3 e t)
      obtain n where n: "string_units t = Inr n" "m = n + 1"
        using less.prems(2) Cons 3 by (auto simp: res_bind_Inr_iff)
      have ok: "escapes_ok (CHR 0x5C # CHR ''u'' # t)" using less.prems(1) Cons 3 by blast
      obtain bs k u1 u2 l where e: "escape_u uc uc2 t = Inr (bs, k, u1, u2)" "k \<le> length t"
        "string_units (drop k t) = Inr l" "length bs + l \<le> n + 1"
        using escape_u_fits [OF ok n(1)] by blast
      have "\<exists>p. unescape len u1 u2 (out @ bs) (drop k t) = Inr p"
        using IH [of "drop k t" l "out @ bs"] e n less.prems(3) Cons 3
        by (simp add: suffix_ConsI suffix_drop less_Suc_eq_le le_SucI)
      then show ?thesis
        using Cons 3 e n less.prems(3) by (simp add: unescape.simps put_bytes_ok)
    next
      case (4 e t)
      obtain n where n: "string_units t = Inr n" "m = n + 1"
        using less.prems(2) Cons 4 by (auto simp: res_bind_Inr_iff)
      have "\<exists>p. unescape len uc uc2 (out @ [x]) t = Inr p" for x
        using IH [of t n "out @ [x]" uc uc2] n less.prems(3) Cons 4 by (simp add: suffix_ConsI)
      then show ?thesis
        using 4(1,3) n less.prems(3) unfolding Cons 4(2) unescape.simps
        by (simp add: put_bytes_ok)
    qed
  qed
qed

lemma parse_string_safe: "escapes_ok s \<Longrightarrow> \<exists>p. parse_string_json s = Inr p"
proof (cases s)
  case (Cons c cs)
  assume ok: "escapes_ok s"
  then have "escapes_ok cs" using Cons by simp
  then obtain m where m: "string_units cs = Inr m" using string_units_ok by blast
  obtain x r where "unescape m None None [] cs = Inr (x, r)"
    using unescape_fits [OF \<open>escapes_ok cs\<close> m, of "[]" m None None] by auto
  then show ?thesis using Cons m by (simp add: parse_string_json_def)
qed (simp add: parse_string_json_def)

lemma parse_safe:
  "escapes_ok s \<Longrightarrow> parse_value f D s \<noteq> Some (Inl e)"
  "escapes_ok s \<Longrightarrow> parse_elems f D s acc \<noteq> Some (Inl e)"
  "escapes_ok s \<Longrightarrow> parse_members f D s acc \<noteq> Some (Inl e)"
proof (induction f arbitrary: s acc and s acc and s acc)
  case (Suc f)
  {
  case 1
  have "escapes_ok (skip (tl s))"
    using 1 suffix_order.trans [OF skip_suffix suffix_tl] by (rule escapes_ok_suffix)
  then show ?case
    using parse_string_safe [OF 1] Suc.IH(2,3) [of "skip (tl s)" "[]"]
    by (cases s; cases "skip (tl s)") (auto simp del: escapes_ok.simps)
next
  case 2
  have ok: "escapes_ok (skip s)" by (rule escapes_ok_suffix [OF 2 skip_suffix])
  have "escapes_ok cs" if "parse_value f D (skip s) = Some (Inr (Some (v, rest)))" "skip rest = c # cs" for v rest c cs
    using parse_progress(1) [OF that(1)] skip_Cons_suffix [OF that(2)] ok
    by (meson escapes_ok_suffix suffix_order.less_imp_le)
  then show ?case
    using Suc.IH(1) [OF ok] Suc.IH(2) by (auto split: list.split option.splits sum.splits)
next
  case 3
  have ok: "escapes_ok (skip s)" by (rule escapes_ok_suffix [OF 3 skip_suffix])
  have okb: "escapes_ok (skip bs)"
    if "parse_string_json (skip s) = Inr (Some (name, r1))" "skip r1 = b # bs" for name r1 b bs
    using parse_string_suffix [OF that(1)] skip_Cons_suffix [OF that(2)] skip_suffix [of bs] ok
    by (meson escapes_ok_suffix suffix_order.less_imp_le)
  have okc: "escapes_ok cs" if "escapes_ok (skip bs)"
      "parse_value f D (skip bs) = Some (Inr (Some (v, rest)))" "skip rest = c # cs" for bs v rest c cs
    using parse_progress(1) [OF that(2)] skip_Cons_suffix [OF that(3)] that(1)
    by (meson escapes_ok_suffix suffix_order.less_imp_le)
  show ?case
    using parse_string_safe [OF ok]
    by (auto split: list.split option.splits sum.splits dest: okb okc Suc.IH(1,3))
  }
qed simp_all

subsection \<open>What the printer wrote is read back: strings\<close>

lemma hex_digit_xdigit: "n < 16 \<Longrightarrow> c_isxdigit (hex_digit n) \<and> xdigit_val (hex_digit n) = n"
  by (auto simp: hex_digit_def c_isxdigit_def c_isdigit_def xdigit_val_def)

lemma escape_char_cases:
  assumes "c \<noteq> CHR 0x00"
  obtains "escape_char c = [c]" "c \<noteq> CHR 0x22" "c \<noteq> CHR 0x5C"
  | e where "escape_char c = [CHR 0x5C, e]" "e \<noteq> CHR ''u''" "simple_escape e = c"
  | h l where "escape_char c = [CHR 0x5C, CHR ''u'', CHR ''0'', CHR ''0'', h, l]"
      "list_all c_isxdigit [CHR ''0'', CHR ''0'', h, l]" "hex4 (CHR ''0'') (CHR ''0'') h l = of_nat (ch c)"
      "0 < ch c" "ch c < 32"
proof (cases "c \<in> set special_chars")
  case True
  then have "\<exists>e. escape_char c = [CHR 0x5C, e] \<and> e \<noteq> CHR ''u'' \<and> simple_escape e = c"
    by (auto simp: special_chars_def escape_char_def simple_escape_def)
  then show ?thesis using that(2) by blast
next
  case False
  show ?thesis
  proof (cases "31 < ch c")
    case True
    then show ?thesis using that(1) False by (auto simp: special_chars_def escape_char_def)
  next
    case c: False
    have "ch c \<noteq> ch (CHR 0x00)" using assms ch_inj [of c "CHR 0x00"] by blast
    then have pos: "0 < ch c" by simp
    have e: "escape_char c = [CHR 0x5C, CHR ''u'', CHR ''0'', CHR ''0'', hex_digit (ch c div 16), hex_digit (ch c mod 16)]"
      using c False by (auto simp: special_chars_def escape_char_def)
    have h: "c_isxdigit (hex_digit (ch c div 16)) \<and> xdigit_val (hex_digit (ch c div 16)) = ch c div 16"
      "c_isxdigit (hex_digit (ch c mod 16)) \<and> xdigit_val (hex_digit (ch c mod 16)) = ch c mod 16"
      using c by (auto intro!: hex_digit_xdigit)
    have v: "hex4 (CHR ''0'') (CHR ''0'') (hex_digit (ch c div 16)) (hex_digit (ch c mod 16)) = of_nat (ch c)"
      using h unfolding hex4_def by (simp add: xdigit_val_def [of "CHR ''0''"] c_isdigit_def del: of_nat_add of_nat_mult)
    show ?thesis using that(3) [OF e _ v pos] h c by (simp add: c_isxdigit_def c_isdigit_def)
  qed
qed

lemma utf8_bytes_small: "n < 128 \<Longrightarrow> utf8_bytes (of_nat n) = [char_of n]"
proof -
  assume n: "n < 128"
  then have "(of_nat n :: u32) < 0x80" by (simp add: word_less_nat_alt unat_of_nat)
  moreover have "(of_nat n :: u32) AND 0xFF = of_nat n"
  proof -
    have "(0xFF :: u32) = mask 8" by (simp add: mask_eq_exp_minus_1)
    then have "(of_nat n :: u32) AND 0xFF = take_bit 8 (of_nat n)" by (simp add: take_bit_eq_mask)
    also have "\<dots> = of_nat (take_bit 8 n)" by (simp add: take_bit_of_nat)
    finally show ?thesis using n by (simp add: take_bit_nat_eq_self)
  qed
  ultimately show ?thesis using n by (simp add: utf8_bytes_def utf8_len_def byte_of_def unat_of_nat)
qed

lemma escape_u_control:
  assumes "list_all c_isxdigit [a, b, h, l]" "hex4 a b h l = of_nat n" "0 < n" "n < 32"
  shows "\<exists>u1. escape_u uc uc2 (a # b # h # l # t) = Inr ([char_of n], 4, u1, uc2)"
proof -
  have "(of_nat n :: u32) \<noteq> 0" "\<not> 0xDC00 \<le> (of_nat n :: u32)" "\<not> 0xD800 \<le> (of_nat n :: u32)"
  proof -
    have u: "unat (of_nat n :: u32) = n" using assms(4) by (simp add: unat_of_nat)
    then show "(of_nat n :: u32) \<noteq> 0" using assms(3) by force
    show "\<not> 0xDC00 \<le> (of_nat n :: u32)" "\<not> 0xD800 \<le> (of_nat n :: u32)"
      using assms(4) by (simp_all add: word_le_nat_alt u)
  qed
  then show ?thesis
    using scan_4x_digits [OF assms(1), of t] assms(2,4) utf8_bytes_small [of n]
    by (simp add: escape_u_def Let_def)
qed

lemma unescape_char:
  assumes "c \<noteq> CHR 0x00" "length out < len"
  shows "\<exists>u1. unescape len uc uc2 out (escape_char c @ t) = unescape len u1 uc2 (out @ [c]) t"
  using assms(1)
proof (cases rule: escape_char_cases)
  case 1
  then show ?thesis using assms(2) by (auto simp: unescape.simps put_bytes_ok)
next
  case (2 e)
  then have "unescape len uc uc2 out (escape_char c @ t) = unescape len uc uc2 (out @ [c]) t"
    using assms(2) unfolding 2(1) append_Cons append_Nil unescape.simps by (simp add: put_bytes_ok)
  then show ?thesis by blast
next
  case (3 h l)
  obtain u1 where "escape_u uc uc2 (CHR ''0'' # CHR ''0'' # h # l # t) = Inr ([c], 4, u1, uc2)"
    using escape_u_control [OF 3(2-5), of uc uc2 t] by auto
  then have "unescape len uc uc2 out (escape_char c @ t) = unescape len u1 uc2 (out @ [c]) t"
    using assms(2) unfolding 3(1) append_Cons append_Nil unescape.simps(2) by (simp add: put_bytes_ok)
  then show ?thesis by blast
qed

lemma unescape_printed:
  "CHR 0x00 \<notin> set s \<Longrightarrow> length out + length s \<le> len \<Longrightarrow>
   unescape len uc uc2 out (escape_chars s @ CHR 0x22 # rest) = Inr (out @ s, rest)"
proof (induction s arbitrary: out uc)
  case Nil
  then show ?case by (simp add: unescape.simps put_bytes_ok)
next
  case (Cons c cs)
  obtain u1 where "unescape len uc uc2 out (escape_char c @ escape_chars cs @ CHR 0x22 # rest)
      = unescape len u1 uc2 (out @ [c]) (escape_chars cs @ CHR 0x22 # rest)"
    using unescape_char [of c out len uc uc2] Cons.prems by fastforce
  then show ?case using Cons.IH [of "out @ [c]" u1] Cons.prems by auto
qed

lemma string_units_printed:
  "CHR 0x00 \<notin> set s \<Longrightarrow> \<exists>n. string_units (escape_chars s @ CHR 0x22 # rest) = Inr n \<and> length s \<le> n"
proof (induction s)
  case (Cons c cs)
  then obtain n where n: "string_units (escape_chars cs @ CHR 0x22 # rest) = Inr n" "length cs \<le> n" by auto
  from Cons.prems have "c \<noteq> CHR 0x00" by auto
  then show ?case
  proof (cases rule: escape_char_cases)
    case 1
    then show ?thesis using n Cons.prems by auto
  next
    case (2 e)
    then show ?thesis using n Cons.prems by auto
  next
    case (3 h l)
    then show ?thesis using n Cons.prems string_units_plain [OF 3(2), of "escape_chars cs @ CHR 0x22 # rest"] by auto
  qed
qed simp

lemma parse_string_printed:
  assumes "CHR 0x00 \<notin> set s"
  shows "parse_string_json (print_string_ptr (Some s) @ rest) = Inr (Some (s, rest))"
proof -
  obtain n where "string_units (escape_chars s @ CHR 0x22 # rest) = Inr n" "length s \<le> n"
    using string_units_printed [OF assms] by blast
  then show ?thesis
    using unescape_printed [OF assms, of "[]" n None None rest]
    by (simp add: parse_string_json_def print_string_ptr_def)
qed

subsection \<open>What the printer wrote is read back: numbers\<close>

text \<open>What the parser needs of doubles to read an \<open>int\<close>: they hold integers up to $2^{53}$, on
  which sums and products are exact (a product of zero and a negative number, which is \<open>-0.0\<close>,
  left out), \<open>pow(10, 0)\<close> is 1 and the conversion gives the \<open>int\<close> back.\<close>

definition exact_doubles :: "'d dops \<Rightarrow> bool" where
  "exact_doubles D \<longleftrightarrow>
     (\<forall>a b. \<bar>a\<bar> \<le> 2 ^ 53 \<and> \<bar>b\<bar> \<le> 2 ^ 53 \<and> \<bar>a + b\<bar> \<le> 2 ^ 53 \<longrightarrow>
        d_add D (d_of_int D a) (d_of_int D b) = d_of_int D (a + b))
     \<and> (\<forall>a b. \<bar>a\<bar> \<le> 2 ^ 53 \<and> \<bar>b\<bar> \<le> 2 ^ 53 \<and> \<bar>a * b\<bar> \<le> 2 ^ 53 \<and> (a * b \<noteq> 0 \<or> 0 \<le> a \<and> 0 \<le> b) \<longrightarrow>
        d_mul D (d_of_int D a) (d_of_int D b) = d_of_int D (a * b))
     \<and> d_pow10 D (d_of_int D 0) = d_of_int D 1
     \<and> (\<forall>a. - (2 ^ 31) \<le> a \<and> a < 2 ^ 31 \<longrightarrow> d_to_int D (d_of_int D a) = a)"

lemma exact_add: "exact_doubles D \<Longrightarrow> \<bar>a\<bar> \<le> 2 ^ 53 \<Longrightarrow> \<bar>b\<bar> \<le> 2 ^ 53 \<Longrightarrow> \<bar>a + b\<bar> \<le> 2 ^ 53 \<Longrightarrow>
    d_add D (d_of_int D a) (d_of_int D b) = d_of_int D (a + b)"
  unfolding exact_doubles_def by blast

lemma exact_mul: "exact_doubles D \<Longrightarrow> \<bar>a\<bar> \<le> 2 ^ 53 \<Longrightarrow> \<bar>b\<bar> \<le> 2 ^ 53 \<Longrightarrow> \<bar>a * b\<bar> \<le> 2 ^ 53 \<Longrightarrow>
    a * b \<noteq> 0 \<or> 0 \<le> a \<and> 0 \<le> b \<Longrightarrow> d_mul D (d_of_int D a) (d_of_int D b) = d_of_int D (a * b)"
  unfolding exact_doubles_def by blast

lemma exact_rest: "exact_doubles D \<Longrightarrow> d_pow10 D (d_of_int D 0) = d_of_int D 1"
  "exact_doubles D \<Longrightarrow> - (2 ^ 31) \<le> a \<Longrightarrow> a < 2 ^ 31 \<Longrightarrow> d_to_int D (d_of_int D a) = a"
  unfolding exact_doubles_def by blast+

lemma digits_val_mono: "a \<le> digits_val a ds"
proof (induction ds arbitrary: a)
  case (Cons c cs)
  have "a \<le> a * 10 + (ch c - 48)" by simp
  also have "\<dots> \<le> digits_val (a * 10 + (ch c - 48)) cs" by (rule Cons.IH)
  finally show ?case by (simp add: digits_val_def)
qed (simp add: digits_val_def)

lemma digits_d_exact:
  assumes "exact_doubles D" "list_all c_isdigit ds" "digits_val a ds \<le> 2 ^ 53"
  shows "digits_d D (d_of_int D (int a)) ds = d_of_int D (int (digits_val a ds))"
  using assms(2,3)
proof (induction ds arbitrary: a)
  case (Cons c cs)
  let ?b = "a * 10 + (ch c - 48)"
  have d: "48 \<le> ch c" "ch c \<le> 57" using Cons.prems(1) by (auto simp: c_isdigit_def)
  have b: "?b \<le> 2 ^ 53"
    using digits_val_mono [of ?b cs] Cons.prems(2) by (simp add: digits_val_def)
  have m: "d_mul D (d_of_int D (int a)) (d_of_int D 10) = d_of_int D (int a * 10)"
    using b by (intro exact_mul [OF assms(1)]) simp_all
  have i: "int a * 10 + (int (ch c) - 48) = int ?b" using d by (simp add: of_nat_diff)
  have "d_add D (d_of_int D (int a * 10)) (d_of_int D (int (ch c) - 48)) = d_of_int D (int a * 10 + (int (ch c) - 48))"
  proof (rule exact_add [OF assms(1)])
    have b': "int ?b \<le> 2 ^ 53" using zle_int [of ?b "2 ^ 53"] b by simp
    show "\<bar>int a * 10\<bar> \<le> 2 ^ 53" "\<bar>int a * 10 + (int (ch c) - 48)\<bar> \<le> 2 ^ 53" using b' i d by linarith+
    show "\<bar>int (ch c) - 48\<bar> \<le> 2 ^ 53" using d by simp
  qed
  then have "digits_d D (d_of_int D (int a)) (c # cs) = digits_d D (d_of_int D (int ?b)) cs"
    unfolding digits_d_def foldl_Cons m i by (rule arg_cong)
  also have "\<dots> = d_of_int D (int (digits_val ?b cs))"
    using Cons.prems by (intro Cons.IH) (simp_all add: digits_val_def)
  finally show ?case by (simp add: digits_val_def)
qed (simp add: digits_d_def digits_val_def)

text \<open>What may follow a value in a text\<close>

definition stop :: "string \<Rightarrow> bool" where
  "stop rest \<longleftrightarrow> (case rest of [] \<Rightarrow> True | c # _ \<Rightarrow> \<not> c_isdigit c \<and> c \<noteq> CHR ''.'' \<and> c \<noteq> CHR ''e'' \<and> c \<noteq> CHR ''E'')"

lemma digit_0: "digit n = CHR ''0'' \<longleftrightarrow> n = 0" if "n < 10"
proof -
  have "digit n = CHR ''0'' \<longleftrightarrow> ch (digit n) = ch (CHR ''0'')" by (simp only: ch_inj)
  then show ?thesis using that by simp
qed

lemma dec_nat_leading: "0 < n \<Longrightarrow> hd (dec_nat n) \<noteq> CHR ''0''"
proof (induction n rule: dec_nat.induct)
  case (1 n)
  show ?case
  proof (cases "n < 10")
    case True
    then show ?thesis using "1.prems" by (subst dec_nat.simps) (simp add: digit_0)
  next
    case False
    then show ?thesis using "1.IH" by (subst dec_nat.simps) (simp add: hd_append)
  qed
qed

lemma num_stop: "stop rest \<Longrightarrow> num_digits rest = []" "stop rest \<Longrightarrow> num_fraction rest = []"
  "stop rest \<Longrightarrow> num_exponent rest = (1, [], rest)" "stop rest \<Longrightarrow> takeWhile c_isdigit rest = []"
  by (auto simp: stop_def num_digits_def num_fraction_def num_exponent_def split: list.splits)

lemma number_stages:
  fixes n :: nat
  assumes "stop rest"
  defines "s2 \<equiv> num_zero (dec_nat n @ rest)"
  shows "digits_val 0 (num_digits s2) = n \<and> list_all c_isdigit (num_digits s2) \<and> drop (length (num_digits s2)) s2 = rest"
proof (cases "n = 0")
  case True
  then have "s2 = rest" by (simp add: s2_def num_zero_def dec_nat.simps [of 0] digit_0)
  then show ?thesis using assms(1) True by (simp add: num_stop digits_val_def)
next
  case False
  obtain c cs where c: "dec_nat n = c # cs" by (cases "dec_nat n") (use dec_nat_nonempty [of n] in auto)
  have "c \<noteq> CHR ''0''" "c_isdigit c"
    using dec_nat_leading [of n] hd_dec_nat_digit [of n] False c by simp_all
  then have s2: "s2 = dec_nat n @ rest" "num_digits s2 = takeWhile c_isdigit (dec_nat n @ rest)"
    by (simp_all add: s2_def num_zero_def num_digits_def c)
  then have "num_digits s2 = dec_nat n"
    using num_stop(4) [OF assms(1)] by (simp add: takeWhile_digits)
  then show ?thesis using s2(1) by (auto simp: digits_val_dec_nat list_all_iff dest: dec_nat_digits)
qed

lemma parse_number_printed:
  assumes "exact_doubles D" "- (2 ^ 31) \<le> i" "i < 2 ^ 31" "stop rest"
  shows "parse_number D (dec_int i @ rest) = (PJSON cJSON_Number [] None i (d_of_int D i) None, rest)"
proof -
  define n where "n = nat \<bar>i\<bar>"
  define sg where "sg = (if i < 0 then - 1 else (1 :: int))"
  define s2 where "s2 = num_zero (dec_nat n @ rest)"
  have sign: "num_sign (dec_int i @ rest) = (sg, dec_nat n @ rest)"
  proof (cases "i < 0")
    case False
    have "hd (dec_nat n) \<noteq> CHR ''-''" using hd_dec_nat_digit [of n] by (auto simp: c_isdigit_def)
    then show ?thesis
      using False by (cases "dec_nat n") (auto simp: num_sign_def dec_int_def n_def sg_def)
  qed (simp add: num_sign_def dec_int_def n_def sg_def)
  have st: "digits_val 0 (num_digits s2) = n" "list_all c_isdigit (num_digits s2)"
    "drop (length (num_digits s2)) s2 = rest"
    using number_stages [OF assms(4), of n] by (simp_all add: s2_def)
  have n53: "n \<le> 2 ^ 53" using assms(2,3) by (simp add: n_def)
  have digits: "digits_d D (d_of_int D 0) (num_digits s2) = d_of_int D (int n)"
    using digits_d_exact [OF assms(1) st(2), of 0] st(1) n53 by simp
  have i: "sg * int n = i" by (simp add: sg_def n_def)
  have m1: "d_mul D (d_of_int D sg) (d_of_int D (int n)) = d_of_int D i"
    using exact_mul [OF assms(1), of sg "int n"] n53 assms(2,3) i by (auto simp: sg_def n_def)
  have m2: "d_mul D (d_of_int D i) (d_of_int D 1) = d_of_int D i"
    using exact_mul [OF assms(1), of i 1] assms(2,3) by auto
  have a0: "d_add D (d_of_int D 0) (d_of_int D 0) = d_of_int D 0"
    using exact_add [OF assms(1), of 0 0] by simp
  show ?thesis
    unfolding parse_number_def sign Let_def prod.case s2_def [symmetric] st(3) num_stop(2) [OF assms(4)]
    using digits m1 m2 a0 exact_rest [OF assms(1)] assms(2,3) num_stop(3) [OF assms(4)] by (simp add: digits_d_def)
qed

subsection \<open>What the printer wrote is read back: values\<close>

text \<open>A tree whose items hold what their type says, numbers an \<open>int\<close>: the children of an object
  have names, those of an array none.\<close>

definition no_nul :: "string option \<Rightarrow> bool" where
  "no_nul so = (case so of None \<Rightarrow> False | Some s \<Rightarrow> CHR 0x00 \<notin> set s)"

fun canon :: "cJSON \<Rightarrow> bool" where
  "canon (CJSON t cs vs v n) \<longleftrightarrow>
     t \<le> cJSON_Object \<and> (cs = [] \<or> t = cJSON_Array \<or> t = cJSON_Object)
     \<and> (if t = cJSON_String then no_nul vs else vs = None)
     \<and> (t = cJSON_Number \<longrightarrow> - (2 ^ 31) \<le> v \<and> v < 2 ^ 31)
     \<and> (t = cJSON_Array \<longrightarrow> list_all (\<lambda>c. jstring c = None) cs)
     \<and> (t = cJSON_Object \<longrightarrow> list_all (\<lambda>c. no_nul (jstring c)) cs)
     \<and> list_all canon cs"

fun parsed :: "'d dops \<Rightarrow> cJSON \<Rightarrow> 'd pjson" where
  "parsed D (CJSON t cs vs v n) =
     (let k = (if t = cJSON_Number then v else 0)
      in PJSON t (map (parsed D) cs) vs (if t = cJSON_True then 1 else k) (d_of_int D k) n)"

fun unnamed :: "'d pjson \<Rightarrow> 'd pjson" where
  "unnamed (PJSON t cs vs v d n) = PJSON t cs vs v d None"

lemma parsed_name: "pstring (parsed D j) = jstring j"
  by (cases j) (simp add: Let_def)

lemma unnamed_array: "jstring j = None \<Longrightarrow> unnamed (parsed D j) = parsed D j"
  by (cases j) (simp add: Let_def)

lemma unnamed_member: "jstring j = Some k \<Longrightarrow> with_string (unnamed (parsed D j)) k = parsed D j"
  by (cases j) (simp add: Let_def)

lemma canon_json_ok: "canon j \<Longrightarrow> json_ok j"
  by (induction j rule: canon.induct) (simp add: list_all_iff)

lemma more_fuel_mono:
  assumes step: "\<And>f. P f \<noteq> None \<Longrightarrow> P (Suc f) = P f" and "P f = Some r" "f \<le> g"
  shows "P g = Some r"
  using assms(3)
proof (induction g rule: dec_induct)
  case base
  show ?case by (rule assms(2))
next
  case (step g)
  then show ?case using assms(1) [of g] by simp
qed

lemma parse_fuel_mono:
  "parse_value f D s = Some r \<Longrightarrow> f \<le> g \<Longrightarrow> parse_value g D s = Some r"
  "parse_elems f D s acc = Some r \<Longrightarrow> f \<le> g \<Longrightarrow> parse_elems g D s acc = Some r"
  "parse_members f D s acc = Some r \<Longrightarrow> f \<le> g \<Longrightarrow> parse_members g D s acc = Some r"
  by (rule more_fuel_mono [where P = "\<lambda>f. parse_value f D s"], rule parse_more_fuel(1), assumption+)
    (rule more_fuel_mono [where P = "\<lambda>f. parse_elems f D s acc"], rule parse_more_fuel(2), assumption+,
     rule more_fuel_mono [where P = "\<lambda>f. parse_members f D s acc"], rule parse_more_fuel(3), assumption+)

text \<open>What is read at the place of a value, with enough fuel\<close>

definition reads :: "'d dops \<Rightarrow> string \<Rightarrow> 'd pjson \<Rightarrow> string \<Rightarrow> bool" where
  "reads D s v rest \<longleftrightarrow> (\<exists>f. parse_value f D s = Some (Inr (Some (v, rest))))"

definition reads_elems :: "'d dops \<Rightarrow> string \<Rightarrow> 'd pjson list \<Rightarrow> 'd pjson list \<Rightarrow> string \<Rightarrow> bool" where
  "reads_elems D s acc vs rest \<longleftrightarrow> (\<exists>f. parse_elems f D s acc = Some (Inr (Some (new_item D cJSON_Array (acc @ vs) None, rest))))"

definition reads_members :: "'d dops \<Rightarrow> string \<Rightarrow> 'd pjson list \<Rightarrow> 'd pjson list \<Rightarrow> string \<Rightarrow> bool" where
  "reads_members D s acc vs rest \<longleftrightarrow> (\<exists>f. parse_members f D s acc = Some (Inr (Some (new_item D cJSON_Object (acc @ vs) None, rest))))"

lemma skip_skip [simp]: "skip (skip s) = skip s"
  unfolding skip_def by (induction s) auto

lemma skip_Cons: "skip (c # cs) = (if ch c \<le> 32 then skip cs else c # cs)"
  by (simp add: skip_def)

lemma reads_elems_last:
  assumes "reads D (skip s) v rest" "skip rest = CHR '']'' # r"
  shows "reads_elems D s acc [v] r"
proof -
  obtain f where "parse_value f D (skip s) = Some (Inr (Some (v, rest)))" using assms(1) by (auto simp: reads_def)
  then show ?thesis using assms(2) unfolding reads_elems_def by (intro exI [of _ "Suc f"]) simp
qed

lemma reads_elems_more:
  assumes "reads D (skip s) v rest" "skip rest = CHR '','' # s'" "reads_elems D s' (acc @ [v]) vs r"
  shows "reads_elems D s acc (v # vs) r"
proof -
  obtain f where f: "parse_value f D (skip s) = Some (Inr (Some (v, rest)))" using assms(1) by (auto simp: reads_def)
  obtain g where g: "parse_elems g D s' (acc @ [v]) = Some (Inr (Some (new_item D cJSON_Array (acc @ v # vs) None, r)))"
    using assms(3) by (auto simp: reads_elems_def)
  have "parse_value (max f g) D (skip s) = Some (Inr (Some (v, rest)))"
    "parse_elems (max f g) D s' (acc @ [v]) = Some (Inr (Some (new_item D cJSON_Array (acc @ v # vs) None, r)))"
    using parse_fuel_mono(1) [OF f, of "max f g"] parse_fuel_mono(2) [OF g, of "max f g"] by simp_all
  then show ?thesis using assms(2) unfolding reads_elems_def by (intro exI [of _ "Suc (max f g)"]) simp
qed

text \<open>A member: its name, what stands before the value, the value.\<close>

lemma reads_members_last:
  assumes "CHR 0x00 \<notin> set k" "skip s = print_string_ptr (Some k) @ CHR '':'' # bs"
    "reads D (skip bs) v rest" "skip rest = CHR ''}'' # r"
  shows "reads_members D s acc [with_string v k] r"
proof -
  obtain f where f: "parse_value f D (skip bs) = Some (Inr (Some (v, rest)))" using assms(3) by (auto simp: reads_def)
  show ?thesis
    using assms(4) parse_string_printed [OF assms(1)] f unfolding reads_members_def
    by (intro exI [of _ "Suc f"]) (simp add: assms(2) skip_Cons)
qed

lemma reads_members_more:
  assumes "CHR 0x00 \<notin> set k" "skip s = print_string_ptr (Some k) @ CHR '':'' # bs"
    "reads D (skip bs) v rest" "skip rest = CHR '','' # s'" "reads_members D s' (acc @ [with_string v k]) vs r"
  shows "reads_members D s acc (with_string v k # vs) r"
proof -
  obtain f where f: "parse_value f D (skip bs) = Some (Inr (Some (v, rest)))" using assms(3) by (auto simp: reads_def)
  obtain g where g: "parse_members g D s' (acc @ [with_string v k])
      = Some (Inr (Some (new_item D cJSON_Object (acc @ with_string v k # vs) None, r)))"
    using assms(5) by (auto simp: reads_members_def)
  have "parse_value (max f g) D (skip bs) = Some (Inr (Some (v, rest)))"
    "parse_members (max f g) D s' (acc @ [with_string v k])
      = Some (Inr (Some (new_item D cJSON_Object (acc @ with_string v k # vs) None, r)))"
    using parse_fuel_mono(1) [OF f, of "max f g"] parse_fuel_mono(3) [OF g, of "max f g"] by simp_all
  then show ?thesis
    using assms(4) parse_string_printed [OF assms(1)] unfolding reads_members_def
    by (intro exI [of _ "Suc (max f g)"]) (simp add: assms(2) skip_Cons)
qed

text \<open>White space of the formatted output, and texts that start a value\<close>

definition ws :: "string \<Rightarrow> bool" where
  "ws w \<longleftrightarrow> list_all (\<lambda>c. ch c \<le> 32) w"

lemma skip_ws: "ws w \<Longrightarrow> skip (w @ s) = skip s"
  unfolding ws_def by (induction w) (simp_all add: skip_Cons)

lemma ws_simps [simp]: "ws []" "ws (c # w) \<longleftrightarrow> ch c \<le> 32 \<and> ws w" "ws (v @ w) \<longleftrightarrow> ws v \<and> ws w"
  "ch c \<le> 32 \<Longrightarrow> ws (replicate n c)"
  by (simp_all add: ws_def list_all_iff ball_Un)

definition value_text :: "string \<Rightarrow> bool" where
  "value_text t \<longleftrightarrow> t \<noteq> [] \<and> 32 < ch (hd t) \<and> hd t \<noteq> CHR '']''"

lemma skip_value_text: "value_text t \<Longrightarrow> skip (t @ s) = t @ s"
  by (cases t) (auto simp: value_text_def skip_Cons)

lemma stop_simps [simp]:
  "stop []" "stop (CHR '','' # s)" "stop (CHR '']'' # s)" "stop (CHR ''}'' # s)" "stop (CHR 0x0A # s)" "stop (CHR 0x09 # s)"
  by (simp_all add: stop_def c_isdigit_def)

lemma array_reads:
  assumes "cs \<noteq> []" "ws w"
    and "\<And>c rest. c \<in> set cs \<Longrightarrow> stop rest \<Longrightarrow> reads D (T c @ rest) (V c) rest"
    and "\<And>c. c \<in> set cs \<Longrightarrow> value_text (T c)"
  shows "reads_elems D (w @ array_body fmt (map T cs) @ CHR '']'' # r) acc (map V cs) r"
  using assms
proof (induction cs arbitrary: w acc rule: list_nonempty_induct)
  case (single c)
  then have "skip (w @ T c @ CHR '']'' # r) = T c @ CHR '']'' # r" by (simp add: skip_ws skip_value_text)
  then show ?case
    using single.prems(2) [of c "CHR '']'' # r"] by (simp add: reads_elems_last skip_Cons)
next
  case (cons c cs)
  let ?s' = "(if fmt then '' '' else []) @ array_body fmt (map T cs) @ CHR '']'' # r"
  obtain d ds where cs: "cs = d # ds" using cons.hyps by (cases cs) auto
  have s: "w @ array_body fmt (map T (c # cs)) @ CHR '']'' # r = w @ T c @ CHR '','' # ?s'"
    by (simp add: cs)
  have "skip (w @ T c @ CHR '','' # ?s') = T c @ CHR '','' # ?s'"
    using cons.prems by (simp add: skip_ws skip_value_text)
  moreover have "reads D (T c @ CHR '','' # ?s') (V c) (CHR '','' # ?s')"
    using cons.prems(2) [of c "CHR '','' # ?s'"] by simp
  moreover have "reads_elems D ?s' (acc @ [V c]) (map V cs) r"
    using cons.prems by (intro cons.IH) simp_all
  ultimately have "reads_elems D (w @ T c @ CHR '','' # ?s') acc (V c # map V cs) r"
    using reads_elems_more [of D "w @ T c @ CHR '','' # ?s'" "V c" "CHR '','' # ?s'" ?s' acc "map V cs" r]
    by (simp only: skip_Cons) simp
  then show ?case unfolding s by simp
qed

lemma object_reads:
  assumes "cs \<noteq> []" "ws w"
    and "\<And>c rest. c \<in> set cs \<Longrightarrow> stop rest \<Longrightarrow> reads D (T c @ rest) (unnamed (V c)) rest"
    and "\<And>c. c \<in> set cs \<Longrightarrow> value_text (T c)"
    and "\<And>c. c \<in> set cs \<Longrightarrow> \<exists>k. jstring c = Some k \<and> CHR 0x00 \<notin> set k \<and> with_string (unnamed (V c)) k = V c"
    and tail: "ws tw" "tail = tw @ CHR ''}'' # r" "stop tail"
  shows "reads_members D (w @ object_body fmt depth (map (\<lambda>c. (print_string_ptr (jstring c), T c)) cs) @ tail)
           acc (map V cs) r"
  using assms(1-5)
proof (induction cs arbitrary: w acc rule: list_nonempty_induct)
  case (single c)
  obtain k where k: "jstring c = Some k" "CHR 0x00 \<notin> set k" "with_string (unnamed (V c)) k = V c"
    using single.prems(4) [of c] by auto
  let ?i = "if fmt then replicate depth (CHR 0x09) else []"
  let ?t = "if fmt then [CHR 0x09] else []"
  let ?rest = "(if fmt then [CHR 0x0A] else []) @ tail"
  have s: "w @ object_body fmt depth (map (\<lambda>c. (print_string_ptr (jstring c), T c)) [c]) @ tail
      = (w @ ?i) @ print_string_ptr (Some k) @ CHR '':'' # ?t @ T c @ ?rest" by (simp add: k)
  have "skip ((w @ ?i) @ print_string_ptr (Some k) @ CHR '':'' # ?t @ T c @ ?rest)
      = print_string_ptr (Some k) @ CHR '':'' # ?t @ T c @ ?rest"
    using single.prems(1) by (subst skip_ws) (simp_all add: print_string_ptr_def skip_Cons)
  moreover have "skip (?t @ T c @ ?rest) = T c @ ?rest"
    using single.prems(3) [of c] by (subst skip_ws) (simp_all add: skip_value_text)
  moreover have "reads D (T c @ ?rest) (unnamed (V c)) ?rest"
    using single.prems(2) [of c ?rest] tail(3) by simp
  moreover have "skip ?rest = CHR ''}'' # r"
    using tail(1) by (simp add: tail(2) skip_Cons skip_ws)
  ultimately show ?case
    using reads_members_last [OF k(2), of _ "?t @ T c @ ?rest" D "unnamed (V c)" ?rest r acc] k(3) unfolding s by simp
next
  case (cons c cs)
  obtain k where k: "jstring c = Some k" "CHR 0x00 \<notin> set k" "with_string (unnamed (V c)) k = V c"
    using cons.prems(4) [of c] by auto
  let ?i = "if fmt then replicate depth (CHR 0x09) else []"
  let ?t = "if fmt then [CHR 0x09] else []"
  let ?s' = "(if fmt then [CHR 0x0A] else []) @ object_body fmt depth (map (\<lambda>c. (print_string_ptr (jstring c), T c)) cs) @ tail"
  let ?rest = "CHR '','' # ?s'"
  have s: "w @ object_body fmt depth (map (\<lambda>c. (print_string_ptr (jstring c), T c)) (c # cs)) @ tail
      = (w @ ?i) @ print_string_ptr (Some k) @ CHR '':'' # ?t @ T c @ ?rest" using cons.hyps by (simp add: k)
  have "skip ((w @ ?i) @ print_string_ptr (Some k) @ CHR '':'' # ?t @ T c @ ?rest)
      = print_string_ptr (Some k) @ CHR '':'' # ?t @ T c @ ?rest"
    using cons.prems(1) by (subst skip_ws) (simp_all add: print_string_ptr_def skip_Cons)
  moreover have "skip (?t @ T c @ ?rest) = T c @ ?rest"
    using cons.prems(3) [of c] by (subst skip_ws) (simp_all add: skip_value_text)
  moreover have "reads D (T c @ ?rest) (unnamed (V c)) ?rest"
    using cons.prems(2) [of c ?rest] by simp
  moreover have "skip ?rest = CHR '','' # ?s'" by (simp add: skip_Cons)
  moreover have "reads_members D ?s' (acc @ [V c]) (map V cs) r"
    using cons.prems by (intro cons.IH) simp_all
  ultimately show ?case
    using reads_members_more [OF k(2), of _ "?t @ T c @ ?rest" D "unnamed (V c)" ?rest ?s' acc "map V cs" r] k(3)
    unfolding s by simp
qed

text \<open>The printer on the types of items\<close>

lemma print_simple:
  "print_value (CJSON cJSON_NULL cs vs v n) depth fmt = Some ''null''"
  "print_value (CJSON cJSON_False cs vs v n) depth fmt = Some ''false''"
  "print_value (CJSON cJSON_True cs vs v n) depth fmt = Some ''true''"
  "print_value (CJSON cJSON_Number cs vs v n) depth fmt = Some (dec_int v)"
  "print_value (CJSON cJSON_String cs vs v n) depth fmt = Some (print_string_ptr vs)"
  by (simp_all add: print_value.simps cJSON_types print_number_def)

lemma print_children: "list_all canon cs \<Longrightarrow> None \<notin> (\<lambda>c. print_value c depth fmt) ` set cs"
proof
  assume ok: "list_all canon cs" and "None \<in> (\<lambda>c. print_value c depth fmt) ` set cs"
  then obtain c where c: "c \<in> set cs" "print_value c depth fmt = None" by auto
  then have "canon c" using ok by (simp add: list_all_iff)
  from print_value_Some [OF canon_json_ok [OF this]] c(2) show False by blast
qed

lemma print_array:
  assumes "list_all canon cs"
  shows "print_value (CJSON cJSON_Array cs vs v n) depth fmt =
     Some (array_text fmt (map (\<lambda>c. the (print_value c (depth + 1) fmt)) cs))"
  using print_children [OF assms, of "depth + 1" fmt]
  by (subst print_value.simps) (simp add: cJSON_types Let_def comp_def)

lemma print_object:
  assumes "list_all canon cs"
  shows "print_value (CJSON cJSON_Object cs vs v n) depth fmt =
     Some (object_text fmt (depth + 1) (map (\<lambda>c. (print_string_ptr (jstring c), the (print_value c (depth + 1) fmt))) cs))"
  using print_children [OF assms, of "depth + 1" fmt]
  by (subst print_value.simps) (simp add: cJSON_types Let_def comp_def image_image)

lemma reads_bool_null:
  "reads D (''null'' @ rest) (new_item D cJSON_NULL [] None) rest"
  "reads D (''false'' @ rest) (new_item D cJSON_False [] None) rest"
  "reads D (''true'' @ rest) (PJSON cJSON_True [] None 1 (d_of_int D 0) None) rest"
  unfolding reads_def by (rule exI [of _ 1], simp add: starts_def)+

lemma reads_string:
  "CHR 0x00 \<notin> set s \<Longrightarrow> reads D (print_string_ptr (Some s) @ rest) (new_item D cJSON_String [] (Some s)) rest"
  unfolding reads_def using parse_string_printed [of s rest]
  by (intro exI [of _ 1]) (simp add: starts_def print_string_ptr_def)

lemma dec_int_start: "\<exists>c cs. dec_int i = c # cs \<and> (c = CHR ''-'' \<or> c_isdigit c)"
  using hd_dec_nat_digit [of "nat i"] dec_nat_nonempty [of "nat i"]
  by (cases "dec_nat (nat i)") (auto simp: dec_int_def)

lemma reads_number:
  assumes "exact_doubles D" "- (2 ^ 31) \<le> i" "i < 2 ^ 31" "stop rest"
  shows "reads D (dec_int i @ rest) (PJSON cJSON_Number [] None i (d_of_int D i) None) rest"
proof -
  obtain c cs where c: "dec_int i = c # cs" "c = CHR ''-'' \<or> c_isdigit c" using dec_int_start by blast
  then have "c \<noteq> CHR ''n'' \<and> c \<noteq> CHR ''f'' \<and> c \<noteq> CHR ''t'' \<and> c \<noteq> CHR 0x22"
    by (auto simp: c_isdigit_def)
  then show ?thesis
    using parse_number_printed [OF assms] c unfolding reads_def
    by (intro exI [of _ 1]) (simp add: starts_def)
qed

lemma reads_array:
  assumes "skip s \<noteq> []" "hd (skip s) \<noteq> CHR '']''" "reads_elems D (skip s) [] vs rest"
  shows "reads D (CHR ''['' # s) (new_item D cJSON_Array vs None) rest"
proof -
  obtain f where "parse_elems f D (skip s) [] = Some (Inr (Some (new_item D cJSON_Array vs None, rest)))"
    using assms(3) by (auto simp: reads_elems_def)
  then show ?thesis
    using assms(1,2) unfolding reads_def
    by (intro exI [of _ "Suc f"], cases "skip s") (simp_all add: starts_def c_isdigit_def)
qed

lemma reads_object:
  assumes "skip s \<noteq> []" "hd (skip s) \<noteq> CHR ''}''" "reads_members D (skip s) [] vs rest"
  shows "reads D (CHR ''{'' # s) (new_item D cJSON_Object vs None) rest"
proof -
  obtain f where "parse_members f D (skip s) [] = Some (Inr (Some (new_item D cJSON_Object vs None, rest)))"
    using assms(3) by (auto simp: reads_members_def)
  then show ?thesis
    using assms(1,2) unfolding reads_def
    by (intro exI [of _ "Suc f"], cases "skip s") (simp_all add: starts_def c_isdigit_def)
qed

lemma reads_empty:
  "skip s = CHR '']'' # rest \<Longrightarrow> reads D (CHR ''['' # s) (new_item D cJSON_Array [] None) rest"
  "skip s = CHR ''}'' # rest \<Longrightarrow> reads D (CHR ''{'' # s) (new_item D cJSON_Object [] None) rest"
  unfolding reads_def by (rule exI [of _ 1], simp add: starts_def c_isdigit_def)+

lemma parse_skip [simp]:
  "parse_elems f D (skip s) acc = parse_elems f D s acc"
  "parse_members f D (skip s) acc = parse_members f D s acc"
  by (cases f; simp)+

lemma reads_skip: "reads_elems D (skip s) = reads_elems D s" "reads_members D (skip s) = reads_members D s"
  by (intro ext, simp add: reads_elems_def reads_members_def)+

lemma printed_array_reads:
  assumes "\<And>c rest. c \<in> set cs \<Longrightarrow> stop rest \<Longrightarrow> reads D (T c @ rest) (V c) rest"
    and "\<And>c. c \<in> set cs \<Longrightarrow> value_text (T c)"
  shows "reads D (array_text fmt (map T cs) @ rest) (new_item D cJSON_Array (map V cs) None) rest"
proof (cases cs)
  case Nil
  then show ?thesis by (simp add: array_text_def reads_empty skip_Cons)
next
  case (Cons c cs')
  let ?s = "array_body fmt (map T cs) @ CHR '']'' # rest"
  obtain u where u: "?s = T c @ u" using Cons by (cases cs') auto
  have v: "value_text (T c)" using assms(2) Cons by simp
  then have "skip ?s \<noteq> []" "hd (skip ?s) \<noteq> CHR '']''"
    unfolding u by (auto simp: skip_value_text value_text_def)
  moreover have "reads_elems D ([] @ ?s) [] (map V cs) rest"
    using assms Cons by (intro array_reads) auto
  ultimately show ?thesis
    using reads_array [of ?s D "map V cs" rest] by (simp add: array_text_def reads_skip)
qed

lemma printed_object_reads:
  assumes "\<And>c rest. c \<in> set cs \<Longrightarrow> stop rest \<Longrightarrow> reads D (T c @ rest) (unnamed (V c)) rest"
    and "\<And>c. c \<in> set cs \<Longrightarrow> value_text (T c)"
    and "\<And>c. c \<in> set cs \<Longrightarrow> \<exists>k. jstring c = Some k \<and> CHR 0x00 \<notin> set k \<and> with_string (unnamed (V c)) k = V c"
  shows "reads D (object_text fmt (Suc depth) (map (\<lambda>c. (print_string_ptr (jstring c), T c)) cs) @ rest)
           (new_item D cJSON_Object (map V cs) None) rest"
proof -
  let ?es = "map (\<lambda>c. (print_string_ptr (jstring c), T c)) cs"
  let ?nl = "if fmt then [CHR 0x0A] else []"
  let ?ind = "if fmt then replicate depth (CHR 0x09) else []"
  let ?tail = "?ind @ CHR ''}'' # rest"
  let ?s = "?nl @ object_body fmt (Suc depth) ?es @ ?tail"
  have tx: "object_text fmt (Suc depth) ?es @ rest = CHR ''{'' # ?s" by (simp add: object_text_def)
  show ?thesis
  proof (cases cs)
    case Nil
    have "skip ?s = CHR ''}'' # rest" using Nil by (simp add: skip_Cons skip_ws)
    then have "reads D (CHR ''{'' # ?s) (new_item D cJSON_Object [] None) rest" by (rule reads_empty(2))
    then show ?thesis unfolding tx using Nil by simp
  next
    case (Cons c cs')
    obtain k where k: "jstring c = Some k" using assms(3) Cons by auto
    have st: "stop ?tail" by (cases depth) simp_all
    have "\<exists>w u. ?s = w @ CHR 0x22 # u \<and> ws w"
    proof -
      let ?w = "?nl @ (if fmt then replicate (Suc depth) (CHR 0x09) else [])"
      have "?s = ?w @ CHR 0x22 # tl (print_string_ptr (Some k)) @ drop (length (?w @ print_string_ptr (Some k))) ?s"
        using Cons k by (cases fmt) (simp_all add: print_string_ptr_def)
      moreover have "ws ?w" by simp
      ultimately show ?thesis by blast
    qed
    then obtain w u where s: "?s = w @ CHR 0x22 # u" "ws w" by blast
    then have "skip ?s \<noteq> []" "hd (skip ?s) \<noteq> CHR ''}''" by (simp_all add: skip_ws skip_Cons)
    moreover have "reads_members D ?s [] (map V cs) rest"
      using assms Cons st by (intro object_reads [where tw = ?ind]) auto
    ultimately have "reads D (CHR ''{'' # ?s) (new_item D cJSON_Object (map V cs) None) rest"
      unfolding reads_skip(2) [of D ?s, symmetric] by (rule reads_object)
    then show ?thesis unfolding tx .
  qed
qed

lemma value_text_printed:
  "value_text (array_text fmt es)" "value_text (object_text fmt d os)" "value_text (print_string_ptr (Some s))"
  "value_text ''null''" "value_text ''true''" "value_text ''false''" "value_text (dec_int i)"
proof -
  show "value_text (dec_int i)"
    using dec_int_start [of i] by (auto simp: value_text_def c_isdigit_def)
qed (simp_all add: value_text_def array_text_def object_text_def print_string_ptr_def)

lemma parse_value_printed:
  assumes "exact_doubles D"
  shows "canon j \<Longrightarrow> \<exists>t. print_value j depth fmt = Some t \<and> value_text t
    \<and> (\<forall>rest. stop rest \<longrightarrow> reads D (t @ rest) (unnamed (parsed D j)) rest)"
proof (induction j arbitrary: depth rule: canon.induct)
  case (1 t cs vs v n)
  let ?T = "\<lambda>c. the (print_value c (depth + 1) fmt)"
  have cs: "list_all canon cs" using "1.prems" by simp
  then have IH: "value_text (?T c)" "stop rest \<Longrightarrow> reads D (?T c @ rest) (unnamed (parsed D c)) rest"
    if "c \<in> set cs" for c rest
    using "1.IH" [OF that, of "depth + 1"] that by (auto simp: list_all_iff)
  have "t \<in> {0,1,2,3,4,5,6}" using "1.prems" by (auto simp: cJSON_Object_def)
  then consider "t = cJSON_NULL" | "t = cJSON_False" | "t = cJSON_True" | "t = cJSON_Number" | "t = cJSON_String"
    | "t = cJSON_Array" | "t = cJSON_Object" by (auto simp: cJSON_types)
  then show ?case
  proof cases
    case 6
    then have "jstring c = None" if "c \<in> set cs" for c using "1.prems" that by (simp add: list_all_iff)
    then have "reads D (?T c @ rest) (parsed D c) rest" if "c \<in> set cs" "stop rest" for c rest
      using IH(2) [OF that] unnamed_array [of c D] that(1) by simp
    then have "reads D (array_text fmt (map ?T cs) @ rest) (new_item D cJSON_Array (map (parsed D) cs) None) rest" for rest
      using IH(1) by (intro printed_array_reads)
    then show ?thesis
      using 6 "1.prems" print_array [OF cs] by (simp add: value_text_printed Let_def new_item_def cJSON_types)
  next
    case 7
    then have "no_nul (jstring c)" if "c \<in> set cs" for c using "1.prems" that by (simp add: list_all_iff)
    then have "\<exists>k. jstring c = Some k \<and> CHR 0x00 \<notin> set k \<and> with_string (unnamed (parsed D c)) k = parsed D c"
      if "c \<in> set cs" for c
      using that unnamed_member [of c] by (fastforce simp: no_nul_def split: option.splits)
    then have "reads D (object_text fmt (Suc depth) (map (\<lambda>c. (print_string_ptr (jstring c), ?T c)) cs) @ rest)
        (new_item D cJSON_Object (map (parsed D) cs) None) rest" for rest
      using IH by (intro printed_object_reads) auto
    then show ?thesis
      using 7 "1.prems" print_object [OF cs] by (simp add: value_text_printed Let_def new_item_def cJSON_types)
  next
    case 4
    then show ?thesis
      using "1.prems" reads_number [OF assms]
      by (simp add: print_simple [unfolded cJSON_types] value_text_printed Let_def cJSON_types)
  next
    case 5
    then show ?thesis
      using "1.prems" reads_string
      by (auto simp: print_simple [unfolded cJSON_types] value_text_printed Let_def cJSON_types new_item_def no_nul_def split: option.splits)
  qed (use "1.prems" reads_bool_null in \<open>auto simp: print_simple [unfolded cJSON_types] value_text_printed Let_def cJSON_types new_item_def simp del: One_nat_def\<close>)
qed

lemma unescape_plain:
  "CHR 0x22 \<notin> set p \<Longrightarrow> CHR 0x5C \<notin> set p \<Longrightarrow> length out \<le> len + 1 \<Longrightarrow>
   unescape len uc uc2 out p = (if length out + length p \<le> len then Inr (out @ p, []) else Inl Out_of_bounds)"
  by (induction p arbitrary: out) (auto simp: unescape.simps put_bytes_def)

lemma printed_parses:
  assumes "exact_doubles D" "canon j" "jstring j = None"
  shows "\<exists>t. print_value j 0 fmt = Some t \<and> cJSON_Parse D t = Some (Inr (Some (parsed D j)))"
proof -
  obtain t where t: "print_value j 0 fmt = Some t" "value_text t" "reads D (t @ []) (unnamed (parsed D j)) []"
    using parse_value_printed [OF assms(1,2), of 0 fmt] stop_simps(1) by blast
  define f where "f = 2 * length t + 1"
  have skip: "skip t = t" using skip_value_text [OF t(2), of "[]"] by simp
  obtain g where g: "parse_value g D t = Some (Inr (Some (parsed D j, [])))"
    using t(3) unnamed_array [OF assms(3), of D] by (auto simp: reads_def)
  obtain r where r: "parse_value f D t = Some r" using parse_enough(1) [of t f D] unfolding f_def by blast
  have "r = Inr (Some (parsed D j, []))"
    using parse_fuel_mono(1) [OF g, of "max f g"] parse_fuel_mono(1) [OF r, of "max f g"] by simp
  then have "cJSON_Parse D t = Some (Inr (Some (parsed D j)))"
    using r unfolding cJSON_Parse_def skip f_def [symmetric] by simp
  then show ?thesis using t(1) by blast
qed

section \<open>Properties\<close>

text \<open>C38. The parser always answers: twice the length of the text is enough for every value,
  array and object nested in it, and more changes nothing.\<close>

theorem parse_always_answers:
  "cJSON_Parse D value \<noteq> None
   \<and> parse_value (2 * length (skip value) + 1 + k) D (skip value) = parse_value (2 * length (skip value) + 1) D (skip value)"
proof -
  have some: "parse_value (2 * length (skip value) + 1) D (skip value) \<noteq> None" by (rule parse_enough(1)) simp
  then obtain r where "parse_value (2 * length (skip value) + 1) D (skip value) = Some r" by blast
  then show ?thesis
    using parse_fuel_mono(1) [of "2 * length (skip value) + 1" D "skip value" r "2 * length (skip value) + 1 + k"]
    by (simp add: cJSON_Parse_def)
qed

text \<open>C36. Parsing a text neither writes behind what is allocated for a string nor reads behind
  the NUL that ends the text, when the text does not end in a backslash and every \<open>\u\<close> in it is
  followed by four hexadecimal digits; surrogate pairs may be broken.\<close>

theorem parse_in_bounds:
  assumes "escapes_ok value"
  shows "\<exists>r. cJSON_Parse D value = Some (Inr r)"
proof -
  define f where "f = 2 * length (skip value) + 1"
  have "escapes_ok (skip value)" by (rule escapes_ok_suffix [OF assms skip_suffix])
  then have "parse_value f D (skip value) \<noteq> Some (Inl e)" for e by (rule parse_safe(1))
  moreover have "parse_value f D (skip value) \<noteq> None" by (rule parse_enough(1)) (simp add: f_def)
  ultimately obtain x where "parse_value f D (skip value) = Some (Inr x)"
    by (metis not_None_eq sum.exhaust)
  then show ?thesis unfolding cJSON_Parse_def f_def [symmetric] by simp
qed

theorem parse_in_bounds_witness:
  "\<exists>r. cJSON_Parse (\<lparr>d_of_int = id, d_add = (+), d_mul = (*), d_pow10 = (\<lambda>e. 10 ^ nat e), d_to_int = id\<rparr> :: int dops)
     [CHR ''['', CHR 0x22, CHR 0x5C, CHR ''n'', CHR 0x5C, CHR ''u'', CHR ''0'', CHR ''0'', CHR ''e'', CHR ''4'',
      CHR 0x22, CHR '']''] = Some (Inr r)"
  by (rule parse_in_bounds) (simp add: c_isxdigit_def c_isdigit_def)

text \<open>C37. Without that the parser leaves its memory. In \<open>"\u4"xx\<dots>\<close> the first pass stops at the
  quote behind the 4 and allocates three bytes, while the second jumps over that quote as one of
  the four digits and copies everything that follows; behind a final backslash both passes read on
  past the NUL.\<close>

theorem parse_leaves_memory:
  assumes "CHR 0x22 \<notin> set p" "CHR 0x5C \<notin> set p" "2 \<le> length p"
  shows "cJSON_Parse D ([CHR 0x22, CHR 0x5C, CHR ''u'', CHR ''4'', CHR 0x22, a, b] @ p) = Some (Inl Out_of_bounds)
    \<and> cJSON_Parse D ([CHR 0x22] @ p @ [CHR 0x5C]) = Some (Inl Out_of_bounds)"
proof
  have scan: "scan_4x (CHR ''4'' # CHR 0x22 # a # b # p) = Some 4"
    by (simp add: scan_4x_def c_isspace_def c_isxdigit_def c_isdigit_def xdigit_val_def)
  have "char_of (4 :: nat) = CHR 0x04" by (subst ch_inj [symmetric]) simp
  then have "escape_u None None (CHR ''4'' # CHR 0x22 # a # b # p) = Inr ([CHR 0x04], 4, Some 4, None)"
    by (simp add: escape_u_def scan Let_def utf8_bytes_def utf8_len_def byte_of_def)
  then have "unescape 2 None None [] ([CHR 0x5C, CHR ''u'', CHR ''4'', CHR 0x22, a, b] @ p) = Inl Out_of_bounds"
    using assms unescape_plain [of p "[CHR 0x04]" 2 "Some 4" None]
    unfolding append_Cons append_Nil unescape.simps(2) [of _ _ _ _ "CHR 0x5C"] by (simp add: put_bytes_ok)
  then show "cJSON_Parse D ([CHR 0x22, CHR 0x5C, CHR ''u'', CHR ''4'', CHR 0x22, a, b] @ p) = Some (Inl Out_of_bounds)"
    by (simp add: cJSON_Parse_def skip_Cons starts_def parse_string_json_def numeral_2_eq_2)
  have "string_units (p @ [CHR 0x5C]) = Inl Out_of_bounds"
    using assms(1,2) by (induction p) auto
  then show "cJSON_Parse D ([CHR 0x22] @ p @ [CHR 0x5C]) = Some (Inl Out_of_bounds)"
    by (simp add: cJSON_Parse_def skip_Cons starts_def parse_string_json_def)
qed

theorem parse_leaves_memory_witness:
  "cJSON_Parse (\<lparr>d_of_int = id, d_add = (+), d_mul = (*), d_pow10 = (\<lambda>e. 10 ^ nat e), d_to_int = id\<rparr> :: int dops)
     [CHR 0x22, CHR 0x5C, CHR ''u'', CHR ''4'', CHR 0x22, CHR ''x'', CHR ''x'', CHR ''a'', CHR ''b''] = Some (Inl Out_of_bounds)"
  using parse_leaves_memory [of "''ab''" "\<lparr>d_of_int = id, d_add = (+), d_mul = (*), d_pow10 = (\<lambda>e. 10 ^ nat e), d_to_int = id\<rparr> :: int dops"
      "CHR ''x''" "CHR ''x''"]
  by simp

text \<open>C35. What the printer writes, formatted or not, the parser reads back: the same tree, strings
  and names byte for byte and numbers exactly, when the items hold what their type says, numbers
  are \<open>int\<close>s and doubles count exactly up to $2^{53}$. Only \<open>true\<close> differs: the parser gives it the
  value 1.\<close>

theorem parse_print_roundtrip:
  assumes "exact_doubles D" "canon j" "jstring j = None"
  shows "\<exists>t u. cJSON_Print j = Some t \<and> cJSON_Parse D t = Some (Inr (Some (parsed D j)))
     \<and> cJSON_PrintUnformatted j = Some u \<and> cJSON_Parse D u = Some (Inr (Some (parsed D j)))"
  using printed_parses [OF assms] unfolding cJSON_Print_def cJSON_PrintUnformatted_def by blast

theorem parse_print_roundtrip_witness:
  "let D = (\<lparr>d_of_int = id, d_add = (+), d_mul = (*), d_pow10 = (\<lambda>e. 10 ^ nat e), d_to_int = id\<rparr> :: int dops);
       j = cJSON_AddStringToObject (cJSON_AddNumberToObject cJSON_CreateObject ''n'' (- 42)) ''s'' [CHR ''a'', CHR 0x0A]
   in \<exists>t. cJSON_PrintUnformatted j = Some t \<and> cJSON_Parse D t = Some (Inr (Some (parsed D j)))"
proof -
  let ?D = "\<lparr>d_of_int = id, d_add = (+), d_mul = (*), d_pow10 = (\<lambda>e. 10 ^ nat e), d_to_int = id\<rparr> :: int dops"
  let ?j = "cJSON_AddStringToObject (cJSON_AddNumberToObject cJSON_CreateObject ''n'' (- 42)) ''s'' [CHR ''a'', CHR 0x0A]"
  have "exact_doubles ?D" by (simp add: exact_doubles_def)
  moreover have "canon ?j" "jstring ?j = None"
    by (simp_all add: cJSON_AddStringToObject_def cJSON_AddNumberToObject_def cJSON_AddItemToObject_def
        cJSON_CreateObject_def cJSON_CreateNumber_def cJSON_CreateString_def cJSON_types no_nul_def)
  ultimately show ?thesis using parse_print_roundtrip [of ?D ?j] unfolding Let_def by blast
qed

end
