(* ===== verification/Cjson_heap.thy ===== *)
theory Cjson_heap
  imports Cjson
begin

section \<open>JSON trees in memory (\<open>cJSON.c\<close>, \<open>cJSON.h\<close>)\<close>

text \<open>
  The trees of \<^theory_text>\<open>Cjson\<close> as the library keeps them: nodes linked by \<open>next\<close>, \<open>prev\<close> and
  \<open>child\<close>, strings in blocks of their own, both from \<open>cJSON_malloc\<close>, which may answer with a
  null pointer. Every operation on nodes, with the references that share the children of
  another item, and \<open>cJSON_Delete\<close>. Here also: what a tree in memory is, that deleting takes
  exactly the tree, and \<open>loose\<close>, a memory made of some trees apart from each other and the rest.
\<close>

subsection \<open>Memory\<close>

type_synonym jptr = "nat option"

record jnode =
  n_next :: jptr
  n_prev :: jptr
  n_child :: jptr
  n_type :: nat
  n_valuestring :: jptr
  n_value :: int
  n_string :: jptr

record jheap =
  nodes :: "nat \<rightharpoonup> jnode"
  strs :: "nat \<rightharpoonup> string"

text \<open>\<open>cJSON_malloc\<close> for a node and for a string: an address, or a null pointer.\<close>

record jalloc =
  node_at :: "jheap \<Rightarrow> jptr"
  str_at :: "jheap \<Rightarrow> jptr"

text \<open>\<open>cJSON_InitHooks\<close>: the two functions the library calls, from what the caller supplies, \<open>malloc\<close> and
  \<open>free\<close> standing for what is missing.\<close>

definition cJSON_InitHooks :: "'m \<Rightarrow> 'f \<Rightarrow> ('m option \<times> 'f option) option \<Rightarrow> 'm \<times> 'f" where
  "cJSON_InitHooks malloc free hooks =
     (case hooks of None \<Rightarrow> (malloc, free)
      | Some (m, f) \<Rightarrow> (case m of None \<Rightarrow> malloc | Some x \<Rightarrow> x, case f of None \<Rightarrow> free | Some y \<Rightarrow> y))"

definition node :: "jheap \<Rightarrow> jptr \<Rightarrow> jnode res" where
  "node h p = (case p of None \<Rightarrow> Inl Null_pointer
     | Some a \<Rightarrow> (case nodes h a of None \<Rightarrow> Inl Out_of_bounds | Some n \<Rightarrow> Inr n))"

definition set_at :: "nat \<Rightarrow> (jnode \<Rightarrow> jnode) \<Rightarrow> jheap \<Rightarrow> jheap" where
  "set_at a f h = h\<lparr>nodes := (nodes h)(a := map_option f (nodes h a))\<rparr>"

definition set_node :: "jptr \<Rightarrow> (jnode \<Rightarrow> jnode) \<Rightarrow> jheap \<Rightarrow> jheap res" where
  "set_node p f h = res_bind (node h p) (\<lambda>n. Inr (set_at (the p) f h))"

text \<open>Freeing what is not allocated is a fault.\<close>

definition free_node :: "jptr \<Rightarrow> jheap \<Rightarrow> jheap res" where
  "free_node p h = res_bind (node h p) (\<lambda>n. Inr (h\<lparr>nodes := (nodes h)(the p := None)\<rparr>))"

definition free_str :: "jptr \<Rightarrow> jheap \<Rightarrow> jheap res" where
  "free_str p h = (case p of None \<Rightarrow> Inl Null_pointer
     | Some a \<Rightarrow> if strs h a = None then Inl Out_of_bounds else Inr (h\<lparr>strs := (strs h)(a := None)\<rparr>))"

text \<open>A step that may not end, then another.\<close>

definition then_do :: "'a res option \<Rightarrow> ('a \<Rightarrow> 'b res option) \<Rightarrow> 'b res option" where
  "then_do m k = Option.bind m (\<lambda>r. case r of Inl e \<Rightarrow> Some (Inl e) | Inr x \<Rightarrow> k x)"

lemma then_do_simps [simp]:
  "then_do None k = None" "then_do (Some (Inl e)) k = Some (Inl e)" "then_do (Some (Inr x)) k = k x"
  by (simp_all add: then_do_def)

lemma then_do_mono [partial_function_mono]:
  assumes "mono_option F" "\<And>y. mono_option (\<lambda>f. G y f)"
  shows "mono_option (\<lambda>f. then_do (F f) (\<lambda>y. G y f))"
  unfolding then_do_def
proof (rule bind_mono [OF assms(1)])
  show "mono_option (\<lambda>f. case r of Inl e \<Rightarrow> Some (Inl e) | Inr x \<Rightarrow> G x f)" for r
    using assms(2) by (cases r) (simp_all add: option.const_mono)
qed

subsection \<open>Items\<close>

definition cJSON_IsReference :: nat where "cJSON_IsReference = 256"

text \<open>\<open>type & cJSON_IsReference\<close>\<close>

definition is_reference :: "nat \<Rightarrow> bool" where
  "is_reference t = odd (t div cJSON_IsReference)"

definition zero_node :: jnode where
  "zero_node = \<lparr>n_next = None, n_prev = None, n_child = None, n_type = 0, n_valuestring = None, n_value = 0, n_string = None\<rparr>"

definition cJSON_strdup :: "jalloc \<Rightarrow> string \<Rightarrow> jheap \<Rightarrow> jheap \<times> jptr" where
  "cJSON_strdup A s h = (case str_at A h of None \<Rightarrow> (h, None) | Some a \<Rightarrow> (h\<lparr>strs := (strs h)(a \<mapsto> s)\<rparr>, Some a))"

definition cJSON_New_Item_mem :: "jalloc \<Rightarrow> jheap \<Rightarrow> jheap \<times> jptr" where
  "cJSON_New_Item_mem A h =
     (case node_at A h of None \<Rightarrow> (h, None) | Some a \<Rightarrow> (h\<lparr>nodes := (nodes h)(a \<mapsto> zero_node)\<rparr>, Some a))"

definition create_typed :: "jalloc \<Rightarrow> (jnode \<Rightarrow> jnode) \<Rightarrow> jheap \<Rightarrow> jheap \<times> jptr" where
  "create_typed A f h = (let (h1, item) = cJSON_New_Item_mem A h in
     (case item of None \<Rightarrow> h1 | Some a \<Rightarrow> set_at a f h1, item))"

definition cJSON_CreateNull_mem :: "jalloc \<Rightarrow> jheap \<Rightarrow> jheap \<times> jptr" where
  "cJSON_CreateNull_mem A = create_typed A (n_type_update (\<lambda>_. cJSON_NULL))"

definition cJSON_CreateTrue_mem :: "jalloc \<Rightarrow> jheap \<Rightarrow> jheap \<times> jptr" where
  "cJSON_CreateTrue_mem A = create_typed A (n_type_update (\<lambda>_. cJSON_True))"

definition cJSON_CreateFalse_mem :: "jalloc \<Rightarrow> jheap \<Rightarrow> jheap \<times> jptr" where
  "cJSON_CreateFalse_mem A = create_typed A (n_type_update (\<lambda>_. cJSON_False))"

definition cJSON_CreateBool_mem :: "jalloc \<Rightarrow> int \<Rightarrow> jheap \<Rightarrow> jheap \<times> jptr" where
  "cJSON_CreateBool_mem A b = create_typed A (n_type_update (\<lambda>_. if b \<noteq> 0 then cJSON_True else cJSON_False))"

definition cJSON_CreateNumber_mem :: "jalloc \<Rightarrow> int \<Rightarrow> jheap \<Rightarrow> jheap \<times> jptr" where
  "cJSON_CreateNumber_mem A num = create_typed A (\<lambda>n. n\<lparr>n_type := cJSON_Number, n_value := num\<rparr>)"

definition cJSON_CreateArray_mem :: "jalloc \<Rightarrow> jheap \<Rightarrow> jheap \<times> jptr" where
  "cJSON_CreateArray_mem A = create_typed A (n_type_update (\<lambda>_. cJSON_Array))"

definition cJSON_CreateObject_mem :: "jalloc \<Rightarrow> jheap \<Rightarrow> jheap \<times> jptr" where
  "cJSON_CreateObject_mem A = create_typed A (n_type_update (\<lambda>_. cJSON_Object))"

definition cJSON_CreateString_mem :: "jalloc \<Rightarrow> string \<Rightarrow> jheap \<Rightarrow> jheap \<times> jptr" where
  "cJSON_CreateString_mem A s h = (let (h1, item) = cJSON_New_Item_mem A h in
     case item of None \<Rightarrow> (h1, None)
     | Some a \<Rightarrow> (let (h2, v) = cJSON_strdup A s (set_at a (n_type_update (\<lambda>_. cJSON_String)) h1) in
         (set_at a (n_valuestring_update (\<lambda>_. v)) h2, item)))"

subsection \<open>Deleting\<close>

partial_function (option) cJSON_Delete :: "jptr \<Rightarrow> jheap \<Rightarrow> jheap res option" where
  "cJSON_Delete c h =
     (if c = None then Some (Inr h)
      else then_do (Some (node h c)) (\<lambda>n.
        then_do (if \<not> is_reference (n_type n) \<and> n_child n \<noteq> None then cJSON_Delete (n_child n) h else Some (Inr h)) (\<lambda>h1.
        then_do (Some (node h1 c)) (\<lambda>n1.
        then_do (Some (if \<not> is_reference (n_type n1) \<and> n_valuestring n1 \<noteq> None then free_str (n_valuestring n1) h1 else Inr h1)) (\<lambda>h2.
        then_do (Some (if n_string n1 \<noteq> None then free_str (n_string n1) h2 else Inr h2)) (\<lambda>h3.
        then_do (Some (free_node c h3)) (\<lambda>h4.
        cJSON_Delete (n_next n) h4)))))))"

subsection \<open>Walking the children\<close>

partial_function (option) size_loop :: "jheap \<Rightarrow> jptr \<Rightarrow> int \<Rightarrow> int res option" where
  "size_loop h c i = (if c = None then Some (Inr i)
     else then_do (Some (node h c)) (\<lambda>n. size_loop h (n_next n) (i + 1)))"

partial_function (option) item_loop :: "jheap \<Rightarrow> jptr \<Rightarrow> int \<Rightarrow> jptr res option" where
  "item_loop h c which = (if c = None \<or> which \<le> 0 then Some (Inr c)
     else then_do (Some (node h c)) (\<lambda>n. item_loop h (n_next n) (which - 1)))"

text \<open>The loop by name also counts, for the two functions that go on by index.\<close>

definition name_of :: "jheap \<Rightarrow> jnode \<Rightarrow> string option res" where
  "name_of h n = (case n_string n of None \<Rightarrow> Inr None
     | Some a \<Rightarrow> (case strs h a of None \<Rightarrow> Inl Out_of_bounds | Some s \<Rightarrow> Inr (Some s)))"

partial_function (option) name_loop :: "jheap \<Rightarrow> string \<Rightarrow> jptr \<Rightarrow> int \<Rightarrow> (jptr \<times> int) res option" where
  "name_loop h s c i = (if c = None then Some (Inr (None, i))
     else then_do (Some (node h c)) (\<lambda>n.
       then_do (Some (name_of h n)) (\<lambda>nm.
       if cJSON_strcasecmp nm s then Some (Inr (c, i)) else name_loop h s (n_next n) (i + 1))))"

partial_function (option) last_loop :: "jheap \<Rightarrow> jptr \<Rightarrow> jptr res option" where
  "last_loop h c = then_do (Some (node h c)) (\<lambda>n.
     if n_next n = None then Some (Inr c) else last_loop h (n_next n))"

definition cJSON_GetArraySize_mem :: "jptr \<Rightarrow> jheap \<Rightarrow> int res option" where
  "cJSON_GetArraySize_mem array h = then_do (Some (node h array)) (\<lambda>n. size_loop h (n_child n) 0)"

definition cJSON_GetArrayItem_mem :: "jptr \<Rightarrow> int \<Rightarrow> jheap \<Rightarrow> jptr res option" where
  "cJSON_GetArrayItem_mem array item h = then_do (Some (node h array)) (\<lambda>n. item_loop h (n_child n) item)"

definition cJSON_GetObjectItem_mem :: "jptr \<Rightarrow> string \<Rightarrow> jheap \<Rightarrow> jptr res option" where
  "cJSON_GetObjectItem_mem object s h = then_do (Some (node h object)) (\<lambda>n.
     then_do (name_loop h s (n_child n) 0) (\<lambda>(c, i). Some (Inr c)))"

subsection \<open>Adding\<close>

definition suffix_object :: "jptr \<Rightarrow> jptr \<Rightarrow> jheap \<Rightarrow> jheap res" where
  "suffix_object prev item h =
     res_bind (set_node prev (n_next_update (\<lambda>_. item)) h) (\<lambda>h1.
     set_node item (n_prev_update (\<lambda>_. prev)) h1)"

definition create_reference :: "jalloc \<Rightarrow> jptr \<Rightarrow> jheap \<Rightarrow> (jheap \<times> jptr) res" where
  "create_reference A item h = (let (h1, r) = cJSON_New_Item_mem A h in
     case r of None \<Rightarrow> Inr (h1, None)
     | Some a \<Rightarrow> res_bind (node h1 item) (\<lambda>n. Inr (set_at a (\<lambda>_. n\<lparr>n_string := None,
         n_type := (if is_reference (n_type n) then n_type n else n_type n + cJSON_IsReference),
         n_next := None, n_prev := None\<rparr>) h1, r)))"

definition cJSON_AddItemToArray_mem :: "jptr \<Rightarrow> jptr \<Rightarrow> jheap \<Rightarrow> jheap res option" where
  "cJSON_AddItemToArray_mem array item h = then_do (Some (node h array)) (\<lambda>n.
     if item = None then Some (Inr h)
     else if n_child n = None then Some (set_node array (n_child_update (\<lambda>_. item)) h)
     else then_do (last_loop h (n_child n)) (\<lambda>c. Some (suffix_object c item h)))"

definition cJSON_AddItemToObject_mem :: "jalloc \<Rightarrow> jptr \<Rightarrow> string \<Rightarrow> jptr \<Rightarrow> jheap \<Rightarrow> jheap res option" where
  "cJSON_AddItemToObject_mem A object s item h =
     (if item = None then Some (Inr h)
      else then_do (Some (node h item)) (\<lambda>n.
        then_do (Some (if n_string n \<noteq> None then free_str (n_string n) h else Inr h)) (\<lambda>h1.
        let (h2, p) = cJSON_strdup A s h1 in
        then_do (Some (set_node item (n_string_update (\<lambda>_. p)) h2)) (\<lambda>h3.
        cJSON_AddItemToArray_mem object item h3))))"

definition cJSON_AddItemReferenceToArray :: "jalloc \<Rightarrow> jptr \<Rightarrow> jptr \<Rightarrow> jheap \<Rightarrow> jheap res option" where
  "cJSON_AddItemReferenceToArray A array item h =
     then_do (Some (create_reference A item h)) (\<lambda>(h1, r). cJSON_AddItemToArray_mem array r h1)"

definition cJSON_AddItemReferenceToObject :: "jalloc \<Rightarrow> jptr \<Rightarrow> string \<Rightarrow> jptr \<Rightarrow> jheap \<Rightarrow> jheap res option" where
  "cJSON_AddItemReferenceToObject A object s item h =
     then_do (Some (create_reference A item h)) (\<lambda>(h1, r). cJSON_AddItemToObject_mem A object s r h1)"

subsection \<open>Detaching and replacing\<close>

definition cJSON_DetachItemFromArray_mem :: "jptr \<Rightarrow> int \<Rightarrow> jheap \<Rightarrow> (jheap \<times> jptr) res option" where
  "cJSON_DetachItemFromArray_mem array which h = then_do (Some (node h array)) (\<lambda>n.
     then_do (item_loop h (n_child n) which) (\<lambda>c.
     if c = None then Some (Inr (h, None))
     else then_do (Some (node h c)) (\<lambda>nc.
       then_do (Some (if n_prev nc \<noteq> None then set_node (n_prev nc) (n_next_update (\<lambda>_. n_next nc)) h else Inr h)) (\<lambda>h1.
       then_do (Some (if n_next nc \<noteq> None then set_node (n_next nc) (n_prev_update (\<lambda>_. n_prev nc)) h1 else Inr h1)) (\<lambda>h2.
       then_do (Some (if c = n_child n then set_node array (n_child_update (\<lambda>_. n_next nc)) h2 else Inr h2)) (\<lambda>h3.
       then_do (Some (set_node c (\<lambda>m. m\<lparr>n_prev := None, n_next := None\<rparr>) h3)) (\<lambda>h4. Some (Inr (h4, c)))))))))"

definition cJSON_DeleteItemFromArray_mem :: "jptr \<Rightarrow> int \<Rightarrow> jheap \<Rightarrow> jheap res option" where
  "cJSON_DeleteItemFromArray_mem array which h =
     then_do (cJSON_DetachItemFromArray_mem array which h) (\<lambda>(h1, c). cJSON_Delete c h1)"

definition cJSON_DetachItemFromObject_mem :: "jptr \<Rightarrow> string \<Rightarrow> jheap \<Rightarrow> (jheap \<times> jptr) res option" where
  "cJSON_DetachItemFromObject_mem object s h = then_do (Some (node h object)) (\<lambda>n.
     then_do (name_loop h s (n_child n) 0) (\<lambda>(c, i).
     if c \<noteq> None then cJSON_DetachItemFromArray_mem object i h else Some (Inr (h, None))))"

definition cJSON_DeleteItemFromObject_mem :: "jptr \<Rightarrow> string \<Rightarrow> jheap \<Rightarrow> jheap res option" where
  "cJSON_DeleteItemFromObject_mem object s h =
     then_do (cJSON_DetachItemFromObject_mem object s h) (\<lambda>(h1, c). cJSON_Delete c h1)"

definition cJSON_ReplaceItemInArray_mem :: "jptr \<Rightarrow> int \<Rightarrow> jptr \<Rightarrow> jheap \<Rightarrow> jheap res option" where
  "cJSON_ReplaceItemInArray_mem array which newitem h = then_do (Some (node h array)) (\<lambda>n.
     then_do (item_loop h (n_child n) which) (\<lambda>c.
     if c = None then Some (Inr h)
     else then_do (Some (node h c)) (\<lambda>nc.
       then_do (Some (set_node newitem (\<lambda>m. m\<lparr>n_next := n_next nc, n_prev := n_prev nc\<rparr>) h)) (\<lambda>h1.
       then_do (Some (res_bind (node h1 newitem) (\<lambda>m.
          if n_next m \<noteq> None then set_node (n_next m) (n_prev_update (\<lambda>_. newitem)) h1 else Inr h1))) (\<lambda>h2.
       then_do (Some (if c = n_child n then set_node array (n_child_update (\<lambda>_. newitem)) h2
          else res_bind (node h2 newitem) (\<lambda>m. set_node (n_prev m) (n_next_update (\<lambda>_. newitem)) h2))) (\<lambda>h3.
       then_do (Some (set_node c (\<lambda>m. m\<lparr>n_next := None, n_prev := None\<rparr>) h3)) (\<lambda>h4. cJSON_Delete c h4)))))))"

definition cJSON_ReplaceItemInObject_mem :: "jalloc \<Rightarrow> jptr \<Rightarrow> string \<Rightarrow> jptr \<Rightarrow> jheap \<Rightarrow> jheap res option" where
  "cJSON_ReplaceItemInObject_mem A object s newitem h = then_do (Some (node h object)) (\<lambda>n.
     then_do (name_loop h s (n_child n) 0) (\<lambda>(c, i).
     if c = None then Some (Inr h)
     else let (h1, p) = cJSON_strdup A s h in
       then_do (Some (set_node newitem (n_string_update (\<lambda>_. p)) h1)) (\<lambda>h2.
       cJSON_ReplaceItemInArray_mem object i newitem h2)))"

subsection \<open>Arrays of numbers and strings\<close>

text \<open>The loop of the functions that make an array: \<open>mk\<close> creates one item, \<open>p\<close> is the one before;
  when the array itself could not be allocated there is no loop.\<close>

fun array_loop :: "('a \<Rightarrow> jheap \<Rightarrow> jheap \<times> jptr) \<Rightarrow> nat \<Rightarrow> jptr \<Rightarrow> 'a list \<Rightarrow> bool \<Rightarrow> jheap \<Rightarrow> jheap res" where
  "array_loop mk a p [] begun h = Inr h"
| "array_loop mk a p (x # xs) begun h =
     (let (h1, n) = mk x h in
      res_bind (if \<not> begun then set_node (Some a) (n_child_update (\<lambda>_. n)) h1 else suffix_object p n h1) (\<lambda>h2.
      array_loop mk a n xs True h2))"

definition create_array_of :: "jalloc \<Rightarrow> ('a \<Rightarrow> jheap \<Rightarrow> jheap \<times> jptr) \<Rightarrow> 'a list \<Rightarrow> jheap \<Rightarrow> (jheap \<times> jptr) res" where
  "create_array_of A mk xs h = (let (h1, a) = cJSON_CreateArray_mem A h in
     case a of None \<Rightarrow> Inr (h1, None) | Some b \<Rightarrow> res_bind (array_loop mk b None xs False h1) (\<lambda>h2. Inr (h2, a)))"

definition cJSON_CreateIntArray_mem :: "jalloc \<Rightarrow> int list \<Rightarrow> jheap \<Rightarrow> (jheap \<times> jptr) res" where
  "cJSON_CreateIntArray_mem A = create_array_of A (cJSON_CreateNumber_mem A)"

definition cJSON_CreateShortArray_mem :: "jalloc \<Rightarrow> s16 list \<Rightarrow> jheap \<Rightarrow> (jheap \<times> jptr) res" where
  "cJSON_CreateShortArray_mem A = create_array_of A (\<lambda>x. cJSON_CreateNumber_mem A (sint x))"

definition cJSON_CreateStringArray_mem :: "jalloc \<Rightarrow> string list \<Rightarrow> jheap \<Rightarrow> (jheap \<times> jptr) res" where
  "cJSON_CreateStringArray_mem A = create_array_of A (cJSON_CreateString_mem A)"

text \<open>Doubles and floats with integral values, like the numbers of the trees.\<close>

definition cJSON_CreateDoubleArray_mem :: "jalloc \<Rightarrow> int list \<Rightarrow> jheap \<Rightarrow> (jheap \<times> jptr) res" where
  "cJSON_CreateDoubleArray_mem A = create_array_of A (cJSON_CreateNumber_mem A)"

definition cJSON_CreateFloatArray_mem :: "jalloc \<Rightarrow> int list \<Rightarrow> jheap \<Rightarrow> (jheap \<times> jptr) res" where
  "cJSON_CreateFloatArray_mem A = create_array_of A (cJSON_CreateNumber_mem A)"

subsection \<open>Trees with their addresses\<close>

text \<open>
  A tree as it lies in memory: the address of each node and of each string. The children of a
  reference belong to another item.
\<close>

datatype ltree =
    LT (l_addr: nat) (l_kids: "ltree list") nat "(nat \<times> string) option" int (l_name: "(nat \<times> string) option")
  | LRef (l_addr: nat) jnode (l_name: "(nat \<times> string) option")

definition head_or :: "jptr \<Rightarrow> ltree list \<Rightarrow> jptr" where
  "head_or e ts = (case ts of [] \<Rightarrow> e | t # _ \<Rightarrow> Some (l_addr t))"

definition last_or :: "jptr \<Rightarrow> ltree list \<Rightarrow> jptr" where
  "last_or p ts = (if ts = [] then p else Some (l_addr (last ts)))"

fun str_in :: "jheap \<Rightarrow> (nat \<times> string) option \<Rightarrow> bool" where
  "str_in h None \<longleftrightarrow> True"
| "str_in h (Some (a, s)) \<longleftrightarrow> strs h a = Some s"

fun tree_in :: "jheap \<Rightarrow> jptr \<Rightarrow> jptr \<Rightarrow> ltree \<Rightarrow> bool"
  and chain_in :: "jheap \<Rightarrow> jptr \<Rightarrow> jptr \<Rightarrow> ltree list \<Rightarrow> bool"
where
  "tree_in h nx pv (LT a ks ty vs v nm) \<longleftrightarrow>
     nodes h a = Some \<lparr>n_next = nx, n_prev = pv, n_child = head_or None ks, n_type = ty,
       n_valuestring = map_option fst vs, n_value = v, n_string = map_option fst nm\<rparr>
     \<and> str_in h vs \<and> str_in h nm \<and> \<not> is_reference ty \<and> chain_in h None None ks"
| "tree_in h nx pv (LRef a b nm) \<longleftrightarrow>
     nodes h a = Some (b\<lparr>n_next := nx, n_prev := pv, n_string := map_option fst nm\<rparr>)
     \<and> is_reference (n_type b) \<and> str_in h nm"
| "chain_in h e pv [] \<longleftrightarrow> True"
| "chain_in h e pv (t # ts) \<longleftrightarrow> tree_in h (head_or e ts) pv t \<and> chain_in h e (Some (l_addr t)) ts"

definition str_addr :: "(nat \<times> string) option \<Rightarrow> nat list" where
  "str_addr s = (case s of None \<Rightarrow> [] | Some (a, _) \<Rightarrow> [a])"

fun addrs :: "ltree \<Rightarrow> nat list" where
  "addrs (LT a ks ty vs v nm) = a # concat (map addrs ks)"
| "addrs (LRef a b nm) = [a]"

fun straddrs :: "ltree \<Rightarrow> nat list" where
  "straddrs (LT a ks ty vs v nm) = str_addr vs @ str_addr nm @ concat (map straddrs ks)"
| "straddrs (LRef a b nm) = str_addr nm"

abbreviation all_addrs :: "ltree list \<Rightarrow> nat list" where "all_addrs ts \<equiv> concat (map addrs ts)"
abbreviation all_straddrs :: "ltree list \<Rightarrow> nat list" where "all_straddrs ts \<equiv> concat (map straddrs ts)"

lemma head_or_simps [simp]: "head_or e [] = e" "head_or e (t # ts) = Some (l_addr t)"
  by (simp_all add: head_or_def)

lemma head_or_append: "head_or e (ts @ us) = head_or (head_or e us) ts"
  by (cases ts) simp_all

lemma last_or_simps [simp]: "last_or p [] = p" "last_or p (t # ts) = last_or (Some (l_addr t)) ts"
  "last_or p (ts @ [t]) = Some (l_addr t)"
  by (simp_all add: last_or_def)

lemma l_addr_in [simp]: "l_addr t \<in> set (addrs t)"
  by (cases t) simp_all

lemma str_addr_simps [simp]: "str_addr None = []" "str_addr (Some (a, s)) = [a]"
  by (simp_all add: str_addr_def)

lemma chain_in_append:
  "chain_in h e pv (ts @ us) \<longleftrightarrow> chain_in h (head_or e us) pv ts \<and> chain_in h e (last_or pv ts) us"
  by (induction ts arbitrary: pv) (auto simp: head_or_append)

text \<open>A tree depends on its own nodes and strings only.\<close>

definition same_on :: "nat set \<Rightarrow> nat set \<Rightarrow> jheap \<Rightarrow> jheap \<Rightarrow> bool" where
  "same_on N S h h' \<longleftrightarrow> (\<forall>a\<in>N. nodes h' a = nodes h a) \<and> (\<forall>a\<in>S. strs h' a = strs h a)"

lemma same_on_mono: "same_on N S h h' \<Longrightarrow> N' \<subseteq> N \<Longrightarrow> S' \<subseteq> S \<Longrightarrow> same_on N' S' h h'"
  by (auto simp: same_on_def)

lemma str_in_cong: "\<forall>a\<in>set (str_addr s). strs h' a = strs h a \<Longrightarrow> str_in h' s = str_in h s"
  by (cases s) auto

lemma in_cong:
  "same_on (set (addrs t)) (set (straddrs t)) h h' \<Longrightarrow> tree_in h nx pv t \<Longrightarrow> tree_in h' nx pv t"
  "same_on (set (all_addrs ts)) (set (all_straddrs ts)) h h' \<Longrightarrow> chain_in h e pv ts \<Longrightarrow> chain_in h' e pv ts"
proof (induction h nx pv t and h e pv ts rule: tree_in_chain_in.induct)
  case (1 h nx pv a ks ty vs v nm)
  then show ?case
    using str_in_cong [of vs h' h] str_in_cong [of nm h' h] by (auto simp: same_on_def)
next
  case (2 h nx pv a b nm)
  then show ?case using str_in_cong [of nm h' h] by (auto simp: same_on_def)
next
  case (4 h e pv t ts)
  then show ?case by (auto simp: same_on_def)
qed simp

lemma tree_in_node: "tree_in h nx pv t \<Longrightarrow> \<exists>n. nodes h (l_addr t) = Some n \<and> n_next n = nx \<and> n_prev n = pv
    \<and> n_string n = map_option fst (l_name t)"
  by (cases t) auto

text \<open>Changing the links of the root.\<close>

lemma set_at_simps [simp]: "nodes (set_at a f h) b = (if b = a then map_option f (nodes h a) else nodes h b)"
  "strs (set_at a f h) = strs h"
  by (simp_all add: set_at_def)

lemma set_at_other:
  "a \<notin> N \<Longrightarrow> same_on N S h (set_at a f h)"
  by (auto simp: same_on_def)

lemma distinct_root: "distinct (addrs t) \<Longrightarrow> l_addr t \<notin> set (all_addrs (case t of LT _ ks _ _ _ _ \<Rightarrow> ks | _ \<Rightarrow> []))"
  by (cases t) auto

lemma tree_relink:
  assumes "tree_in h nx pv t" "distinct (addrs t)" "\<And>n. f n = n\<lparr>n_next := fn (n_next n), n_prev := fp (n_prev n)\<rparr>"
  shows "tree_in (set_at (l_addr t) f h) (fn nx) (fp pv) t"
proof (cases t)
  case (LT a ks ty vs v nm)
  have "same_on (set (all_addrs ks)) (set (all_straddrs ks)) h (set_at a f h)"
    using assms(2) LT by (intro set_at_other) simp
  then have "chain_in (set_at a f h) None None ks" by (rule in_cong) (use assms(1) LT in simp)
  moreover have "str_in (set_at a f h) s = str_in h s" for s by (rule str_in_cong) simp
  ultimately show ?thesis using assms(1,3) LT by simp
next
  case (LRef a b nm)
  have "str_in (set_at a f h) s = str_in h s" for s by (rule str_in_cong) simp
  then show ?thesis using assms(1,3) LRef by simp
qed

lemma chain_set_last:
  assumes "chain_in h e pv us" "us \<noteq> []" "distinct (all_addrs us)"
  shows "chain_in (set_at (l_addr (last us)) (n_next_update (\<lambda>_. e')) h) e' pv us"
proof -
  obtain vs t where us: "us = vs @ [t]" using assms(2) by (cases us rule: rev_cases) simp
  let ?h = "set_at (l_addr t) (n_next_update (\<lambda>_. e')) h"
  have c: "chain_in h (Some (l_addr t)) pv vs" "tree_in h e (last_or pv vs) t"
    using assms(1) by (auto simp: us chain_in_append)
  have "l_addr t \<notin> set (all_addrs vs)" using assms(3) l_addr_in [of t] unfolding us by auto
  then have "chain_in ?h (Some (l_addr t)) pv vs" using in_cong(2) [OF set_at_other c(1)] by blast
  moreover have "tree_in ?h e' (last_or pv vs) t"
    using tree_relink [OF c(2), where fn = "\<lambda>_. e'" and fp = "\<lambda>p. p"] assms(3) by (simp add: us)
  ultimately show ?thesis by (simp add: us chain_in_append)
qed

lemma chain_set_first:
  assumes "chain_in h e pv (t # us)" "distinct (all_addrs (t # us))"
  shows "chain_in (set_at (l_addr t) (n_prev_update (\<lambda>_. pv')) h) e pv' (t # us)"
proof -
  let ?h = "set_at (l_addr t) (n_prev_update (\<lambda>_. pv')) h"
  have "l_addr t \<notin> set (all_addrs us)" using assms(2) l_addr_in [of t] by (auto simp del: l_addr_in)
  then have "chain_in ?h e (Some (l_addr t)) us" using in_cong(2) [OF set_at_other, of _ us] assms(1) by auto
  moreover have "tree_in ?h (head_or e us) pv' t"
    using tree_relink [of h "head_or e us" pv t, where fn = "\<lambda>p. p" and fp = "\<lambda>_. pv'"] assms by simp
  ultimately show ?thesis by simp
qed

subsection \<open>Deleting takes exactly the tree\<close>

definition without :: "jheap \<Rightarrow> nat list \<Rightarrow> nat list \<Rightarrow> jheap" where
  "without h N S = h\<lparr>nodes := nodes h |` (- set N), strs := strs h |` (- set S)\<rparr>"

lemma without_simps [simp]:
  "nodes (without h N S) = nodes h |` (- set N)" "strs (without h N S) = strs h |` (- set S)"
  "without (without h N S) N' S' = without h (N @ N') (S @ S')"
  by (simp_all add: without_def Int_commute)

lemma without_empty [simp]: "without h [] [] = h"
  by (simp add: without_def restrict_map_def)

lemma without_same_on: "N \<inter> set M = {} \<Longrightarrow> S \<inter> set T = {} \<Longrightarrow> same_on N S h (without h M T)"
  by (auto simp: same_on_def restrict_map_def)

lemma str_in_without: "str_in h s \<Longrightarrow> set (str_addr s) \<inter> set T = {} \<Longrightarrow> str_in (without h M T) s"
  by (cases s) (auto simp: restrict_map_def)

lemma without_cong: "set N = set N' \<Longrightarrow> set S = set S' \<Longrightarrow> without h N S = without h N' S'"
  by (simp add: without_def)

lemma free_node_in: "nodes h a = Some n \<Longrightarrow> free_node (Some a) h = Inr (without h [a] [])"
  by (simp add: free_node_def node_def without_def restrict_map_def fun_eq_iff)

lemma free_str_in: "str_in h s \<Longrightarrow>
    (if map_option fst s \<noteq> None then free_str (map_option fst s) h else Inr h) = Inr (without h [] (str_addr s))"
  by (cases s) (auto simp: free_str_def without_def restrict_map_def fun_eq_iff)

lemma node_in [simp]: "nodes h a = Some n \<Longrightarrow> node h (Some a) = Inr n"
  by (simp add: node_def)

lemma delete_None [simp]: "cJSON_Delete None h = Some (Inr h)"
  by (simp add: cJSON_Delete.simps)

lemma delete_guard: "(if p \<noteq> None then cJSON_Delete p h else Some (Inr h)) = cJSON_Delete p h"
  by simp

lemma delete_chain:
  "chain_in h None pv ts \<Longrightarrow> distinct (all_addrs ts) \<Longrightarrow> distinct (all_straddrs ts) \<Longrightarrow>
    cJSON_Delete (head_or None ts) h = Some (Inr (without h (all_addrs ts) (all_straddrs ts)))"
proof (induction "size_list size ts" arbitrary: ts h pv rule: less_induct)
  case less
  show ?case
  proof (cases ts)
    case (Cons t us)
    have rest: "cJSON_Delete (head_or None us) (without h (addrs t) (straddrs t))
        = Some (Inr (without h (all_addrs ts) (all_straddrs ts)))"
      using less.hyps [of us "without h (addrs t) (straddrs t)" "Some (l_addr t)"] less.prems
        in_cong(2) [OF without_same_on, of us "addrs t" "straddrs t" h None "Some (l_addr t)"]
      by (auto simp: Cons)
    show ?thesis
    proof (cases t)
      case (LT a ks ty vs v nm)
      define n where "n = \<lparr>n_next = head_or None us, n_prev = pv, n_child = head_or None ks, n_type = ty,
        n_valuestring = map_option fst vs, n_value = v, n_string = map_option fst nm\<rparr>"
      have n: "nodes h a = Some n" "str_in h vs" "str_in h nm" "\<not> is_reference ty" "chain_in h None None ks"
        using less.prems(1) by (simp_all add: Cons LT n_def)
      have d: "a \<notin> set (all_addrs ks)" "distinct (all_addrs ks)" "distinct (all_straddrs ks)"
        "set (str_addr vs) \<inter> set (all_straddrs ks) = {}" "set (str_addr nm) \<inter> set (all_straddrs ks) = {}"
        "set (str_addr vs) \<inter> set (str_addr nm) = {}"
        using less.prems(2,3) by (auto simp: Cons LT)
      define h1 where "h1 = without h (all_addrs ks) (all_straddrs ks)"
      have k: "cJSON_Delete (head_or None ks) h = Some (Inr h1)"
        unfolding h1_def by (rule less.hyps [OF _ n(5) d(2,3)]) (simp add: Cons LT)
      have n1: "nodes h1 a = Some n" "str_in h1 vs"
        using n(1) d(1) str_in_without [OF n(2) d(4)] by (auto simp: h1_def restrict_map_def)
      define h2 where "h2 = without h1 [] (str_addr vs)"
      have n2: "str_in h2 nm" "nodes h2 a = Some n"
        using str_in_without [OF n(3), of "all_straddrs ks @ str_addr vs" "all_addrs ks"] d(5,6) n1(1)
        by (auto simp: h2_def h1_def restrict_map_def)
      define h3 where "h3 = without h2 [] (str_addr nm)"
      have n3: "nodes h3 a = Some n" using n2(2) by (simp add: h3_def restrict_map_def)
      have f: "without h3 [a] [] = without h (addrs t) (straddrs t)"
        unfolding h3_def h2_def h1_def without_simps LT by (rule without_cong) auto
      have fields: "n_type n = ty" "n_valuestring n = map_option fst vs" "n_string n = map_option fst nm"
        "n_child n = head_or None ks" "n_next n = head_or None us" by (simp_all add: n_def)
      have "(if \<not> is_reference (n_type n) \<and> n_child n \<noteq> None then cJSON_Delete (n_child n) h else Some (Inr h)) = Some (Inr h1)"
        using k n(4) unfolding fields by (cases "head_or None ks") auto
      moreover have "(if \<not> is_reference (n_type n) \<and> n_valuestring n \<noteq> None then free_str (n_valuestring n) h1 else Inr h1) = Inr h2"
        using free_str_in [OF n1(2)] n(4) unfolding fields h2_def by simp
      moreover have "(if n_string n \<noteq> None then free_str (n_string n) h2 else Inr h2) = Inr h3"
        using free_str_in [OF n2(1)] unfolding fields h3_def .
      ultimately have "cJSON_Delete (Some a) h = cJSON_Delete (head_or None us) (without h3 [a] [])"
        by (subst cJSON_Delete.simps)
          (simp only: option.distinct if_False node_in [OF n(1)] node_in [OF n1(1)] then_do_simps free_node_in [OF n3] fields(5))
      then show ?thesis using rest by (simp add: Cons LT f)
    next
      case (LRef a b nm)
      define n where "n = b\<lparr>n_next := head_or None us, n_prev := pv, n_string := map_option fst nm\<rparr>"
      have n: "nodes h a = Some n" "str_in h nm" "is_reference (n_type b)"
        using less.prems(1) by (simp_all add: Cons LRef n_def)
      define h3 where "h3 = without h [] (str_addr nm)"
      have n3: "nodes h3 a = Some n" using n(1) by (simp add: h3_def restrict_map_def)
      have f: "without h3 [a] [] = without h (addrs t) (straddrs t)"
        unfolding h3_def without_simps LRef by (rule without_cong) auto
      have fields: "n_type n = n_type b" "n_string n = map_option fst nm" "n_next n = head_or None us"
        by (simp_all add: n_def)
      have "(if n_string n \<noteq> None then free_str (n_string n) h else Inr h) = Inr h3"
        using free_str_in [OF n(2)] unfolding fields h3_def .
      then have "cJSON_Delete (Some a) h = cJSON_Delete (head_or None us) (without h3 [a] [])"
        using n(3) fields(1) by (subst cJSON_Delete.simps)
          (simp only: option.distinct if_False node_in [OF n(1)] then_do_simps free_node_in [OF n3] fields(3) simp_thms)
      then show ?thesis using rest by (simp add: Cons LRef f)
    qed
  qed simp
qed

subsection \<open>Loose trees\<close>

text \<open>The memory is that of \<open>h0\<close> and, apart from it and from each other, the trees \<open>ts\<close>.\<close>

definition loose :: "jheap \<Rightarrow> jheap \<Rightarrow> ltree list \<Rightarrow> bool" where
  "loose h0 h ts \<longleftrightarrow> list_all (tree_in h None None) ts \<and> distinct (all_addrs ts) \<and> distinct (all_straddrs ts)
     \<and> without h (all_addrs ts) (all_straddrs ts) = h0"

lemma loose_Nil [simp]: "loose h0 h [] \<longleftrightarrow> h = h0"
  by (simp add: loose_def)

lemma loose_delete:
  assumes "loose h0 h (t # ts)"
  shows "\<exists>h'. cJSON_Delete (Some (l_addr t)) h = Some (Inr h') \<and> loose h0 h' ts"
proof -
  let ?h = "without h (addrs t) (straddrs t)"
  have d: "cJSON_Delete (Some (l_addr t)) h = Some (Inr ?h)"
    using delete_chain [of h None "[t]"] assms by (simp add: loose_def)
  have "tree_in ?h None None u" if "u \<in> set ts" for u
  proof (rule in_cong(1) [OF without_same_on])
    show "set (addrs u) \<inter> set (addrs t) = {}" "set (straddrs u) \<inter> set (straddrs t) = {}"
      using assms that by (auto simp: loose_def)
    show "tree_in h None None u" using assms that by (auto simp: loose_def list_all_iff)
  qed
  then show ?thesis using assms d by (auto simp: loose_def list_all_iff)
qed

lemma in_dom:
  "tree_in h nx pv t \<Longrightarrow> set (addrs t) \<subseteq> dom (nodes h) \<and> set (straddrs t) \<subseteq> dom (strs h)"
  "chain_in h e pv ts \<Longrightarrow> set (all_addrs ts) \<subseteq> dom (nodes h) \<and> set (all_straddrs ts) \<subseteq> dom (strs h)"
proof (induction h nx pv t and h e pv ts rule: tree_in_chain_in.induct)
  case (1 h nx pv a ks ty vs v nm)
  then show ?case by (cases vs; cases nm) auto
next
  case (2 h nx pv a b nm)
  then show ?case by (cases nm) auto
qed auto

lemma loose_dom:
  "loose h0 h ts \<Longrightarrow> set (all_addrs ts) \<subseteq> dom (nodes h) \<and> set (all_straddrs ts) \<subseteq> dom (strs h)"
  using in_dom(1) [of h None None] by (fastforce simp: loose_def list_all_iff)

lemma without_same_out:
  assumes "same_on (- set N) (- set S) h h'"
  shows "without h' N S = without h N S"
proof -
  have "nodes h' |` (- set N) = nodes h |` (- set N)" "strs h' |` (- set S) = strs h |` (- set S)"
    using assms by (auto simp: same_on_def restrict_map_def fun_eq_iff)
  then show ?thesis by (simp add: without_def)
qed

text \<open>Links change inside some of the trees: the others and the rest do not notice.\<close>

lemma loose_change:
  assumes "loose h0 h (us @ ts)" "same_on (- set (all_addrs us)) UNIV h h'" "list_all (tree_in h' None None) us'"
    and "distinct (all_addrs us')" "distinct (all_straddrs us')"
    and "set (all_addrs us') = set (all_addrs us)" "set (all_straddrs us') = set (all_straddrs us)"
  shows "loose h0 h' (us' @ ts)"
proof -
  have "tree_in h' None None t" if "t \<in> set ts" for t
  proof (rule in_cong(1))
    show "tree_in h None None t" using assms(1) that by (auto simp: loose_def list_all_iff)
    have "set (addrs t) \<inter> set (all_addrs us) = {}" using assms(1) that by (auto simp: loose_def)
    then show "same_on (set (addrs t)) (set (straddrs t)) h h'" by (intro same_on_mono [OF assms(2)]) auto
  qed
  moreover have "without h' (all_addrs (us' @ ts)) (all_straddrs (us' @ ts))
      = without h' (all_addrs (us @ ts)) (all_straddrs (us @ ts))"
    by (rule without_cong) (use assms(6,7) in simp_all)
  moreover have "without h' (all_addrs (us @ ts)) (all_straddrs (us @ ts)) = without h (all_addrs (us @ ts)) (all_straddrs (us @ ts))"
    by (rule without_same_out) (use assms(2) in \<open>auto simp: same_on_def\<close>)
  ultimately show ?thesis using assms(1,3-7) by (auto simp: loose_def list_all_iff)
qed

text \<open>A new tree of one node, with or without a string.\<close>

lemma loose_new:
  assumes "loose h0 h ts" "nodes h a = None" "\<not> is_reference ty"
    and "case vs of None \<Rightarrow> h1 = h | Some (b, s) \<Rightarrow> strs h b = None \<and> h1 = h\<lparr>strs := (strs h)(b \<mapsto> s)\<rparr>"
  shows "loose h0 (h1\<lparr>nodes := (nodes h)(a \<mapsto> zero_node\<lparr>n_type := ty, n_value := v, n_valuestring := map_option fst vs\<rparr>)\<rparr>)
    (LT a [] ty vs v None # ts)"
proof -
  let ?h = "h1\<lparr>nodes := (nodes h)(a \<mapsto> zero_node\<lparr>n_type := ty, n_value := v, n_valuestring := map_option fst vs\<rparr>)\<rparr>"
  have a: "a \<notin> set (all_addrs ts)" using loose_dom [OF assms(1)] assms(2) by auto
  have b: "set (str_addr vs) \<inter> set (all_straddrs ts) = {}"
    using loose_dom [OF assms(1)] assms(4) by (cases vs) auto
  have same: "same_on (set (all_addrs ts)) (set (all_straddrs ts)) h ?h"
    using a b assms(4) by (cases vs) (auto simp: same_on_def)
  have "tree_in ?h None None t" if "t \<in> set ts" for t
    using assms(1) that by (intro in_cong(1) [OF same_on_mono [OF same]]) (auto simp: loose_def list_all_iff)
  moreover have "tree_in ?h None None (LT a [] ty vs v None)"
    using assms(3,4) by (cases vs) (auto simp: zero_node_def)
  moreover have "without ?h (a # all_addrs ts) (str_addr vs @ all_straddrs ts) = h0"
  proof -
    have "nodes ?h |` (- set (a # all_addrs ts)) = nodes h |` (- set (all_addrs ts))"
      "strs ?h |` (- set (str_addr vs @ all_straddrs ts)) = strs h |` (- set (all_straddrs ts))"
      using assms(2,4) by (cases vs; auto simp: restrict_map_def fun_eq_iff)+
    then have "without ?h (a # all_addrs ts) (str_addr vs @ all_straddrs ts) = without h (all_addrs ts) (all_straddrs ts)"
      unfolding without_def by (intro jheap.equality) simp_all
    then show ?thesis using assms(1) by (simp add: loose_def)
  qed
  moreover have "distinct (str_addr vs)" by (cases vs) auto
  ultimately show ?thesis using a b assms(1) by (auto simp: loose_def list_all_iff)
qed

end
