(* ===== verification/Cjson_links.thy ===== *)
theory Cjson_links
  imports Cjson_heap
begin

section \<open>Adding, naming, detaching and replacing items in memory (\<open>cJSON.c\<close>)\<close>

text \<open>
  The surgery on the links of \<^theory_text>\<open>Cjson_heap\<close>: each operation takes a memory of loose trees to
  one of the trees it should leave, when the allocator has memory.
\<close>

subsection \<open>The tree that is represented, and the loops over its children\<close>

fun forget :: "ltree \<Rightarrow> cJSON" where
  "forget (LT a ks ty vs v nm) = CJSON ty (map forget ks) (map_option snd vs) v (map_option snd nm)"
| "forget (LRef a b nm) = CJSON (n_type b) [] None (n_value b) (map_option snd nm)"

lemma jstring_forget [simp]: "jstring (forget t) = map_option snd (l_name t)"
  by (cases t) simp_all

lemma chain_in_Cons:
  assumes "chain_in h e pv (t # ts)"
  obtains n where "nodes h (l_addr t) = Some n" "n_next n = head_or e ts" "n_prev n = pv"
    "n_string n = map_option fst (l_name t)" "chain_in h e (Some (l_addr t)) ts"
  using tree_in_node [of h "head_or e ts" pv t] assms by auto

lemma size_loop_ok: "chain_in h None pv ts \<Longrightarrow> size_loop h (head_or None ts) i = Some (Inr (i + int (length ts)))"
proof (induction ts arbitrary: pv i)
  case Nil
  then show ?case by (simp add: size_loop.simps)
next
  case (Cons t ts)
  obtain n where n: "nodes h (l_addr t) = Some n" "n_next n = head_or None ts" "chain_in h None (Some (l_addr t)) ts"
    by (rule chain_in_Cons [OF Cons.prems])
  show ?case using Cons.IH [OF n(3), of "i + 1"] by (subst size_loop.simps) (simp add: n)
qed

lemma item_loop_ok:
  "chain_in h None pv ts \<Longrightarrow> item_loop h (head_or None ts) w = Some (Inr (head_or None (drop (nat w) ts)))"
proof (induction ts arbitrary: pv w)
  case Nil
  then show ?case by (simp add: item_loop.simps)
next
  case (Cons t ts)
  obtain n where n: "nodes h (l_addr t) = Some n" "n_next n = head_or None ts" "chain_in h None (Some (l_addr t)) ts"
    by (rule chain_in_Cons [OF Cons.prems])
  show ?case
  proof (cases "w \<le> 0")
    case True
    then show ?thesis by (subst item_loop.simps) simp
  next
    case False
    then have "nat w = Suc (nat (w - 1))" by simp
    then show ?thesis using Cons.IH [OF n(3), of "w - 1"] False by (subst item_loop.simps) (simp add: n)
  qed
qed

lemma last_loop_ok:
  "chain_in h None pv ts \<Longrightarrow> ts \<noteq> [] \<Longrightarrow> last_loop h (head_or None ts) = Some (Inr (Some (l_addr (last ts))))"
proof (induction ts arbitrary: pv)
  case (Cons t ts)
  obtain n where n: "nodes h (l_addr t) = Some n" "n_next n = head_or None ts" "chain_in h None (Some (l_addr t)) ts"
    by (rule chain_in_Cons [OF Cons.prems(1)])
  show ?case using Cons.IH [OF n(3)] by (subst last_loop.simps) (cases ts; simp add: n)
qed simp

lemma tree_in_name: "tree_in h nx pv t \<Longrightarrow> str_in h (l_name t)"
  by (cases t) simp_all

lemma name_loop_ok:
  "chain_in h None pv ts \<Longrightarrow> name_loop h s (head_or None ts) i =
    Some (Inr (case name_index (map forget ts) s i of None \<Rightarrow> (None, i + int (length ts))
      | Some j \<Rightarrow> (head_or None (drop (nat (j - i)) ts), j)))"
proof (induction ts arbitrary: pv i)
  case Nil
  then show ?case by (simp add: name_loop.simps)
next
  case (Cons t ts)
  obtain n where n: "nodes h (l_addr t) = Some n" "n_next n = head_or None ts"
      "n_string n = map_option fst (l_name t)" "chain_in h None (Some (l_addr t)) ts"
    by (rule chain_in_Cons [OF Cons.prems])
  have nm: "name_of h n = Inr (map_option snd (l_name t))"
    using tree_in_name [of h "head_or None ts" pv t] Cons.prems n(3)
    by (cases "l_name t") (auto simp: name_of_def)
  have ge: "i + 1 \<le> j" if "name_index (map forget ts) s (i + 1) = Some j" for j
  proof -
    have "k \<le> m" if "name_index xs s k = Some m" for xs k m
      using that by (induction xs arbitrary: k) (fastforce split: if_splits)+
    then show ?thesis using that by blast
  qed
  show ?case
  proof (cases "cJSON_strcasecmp (map_option snd (l_name t)) s")
    case True
    then show ?thesis by (subst name_loop.simps) (simp add: n nm)
  next
    case False
    have "drop (nat (j - i)) (t # ts) = drop (nat (j - (i + 1))) ts" if "i + 1 \<le> j" for j
    proof -
      have "nat (j - i) = Suc (nat (j - (i + 1)))" using that by simp
      then show ?thesis by simp
    qed
    then show ?thesis using False Cons.IH [OF n(4), of "i + 1"] ge
      by (subst name_loop.simps) (simp add: n nm split: option.split)
  qed
qed

subsection \<open>Adding, renaming, detaching, replacing\<close>

lemma set_node_in [simp]: "nodes h a \<noteq> None \<Longrightarrow> set_node (Some a) f h = Inr (set_at a f h)"
  by (auto simp: set_node_def)

lemma root_alive: "tree_in h nx pv t \<Longrightarrow> nodes h (l_addr t) \<noteq> None"
  by (cases t) auto

lemma last_alive: "chain_in h e pv ts \<Longrightarrow> ts \<noteq> [] \<Longrightarrow> nodes h (l_addr (last ts)) \<noteq> None"
  by (induction ts arbitrary: pv) (auto dest: root_alive)

text \<open>The node of an array with its children exchanged.\<close>

lemma LT_kids:
  assumes "tree_in h nx pv (LT a ks ty vs v nm)"
    and "nodes h' a = map_option (n_child_update (\<lambda>_. head_or None ks')) (nodes h a)" "strs h' = strs h"
    and "chain_in h' None None ks'"
  shows "tree_in h' nx pv (LT a ks' ty vs v nm)"
proof -
  have "str_in h' s = str_in h s" for s by (rule str_in_cong) (simp add: assms(3))
  then show ?thesis using assms by simp
qed

lemma add_item_ok:
  assumes "loose h0 h (it # LT a ks ty vs v nm # ts)"
  shows "\<exists>h'. cJSON_AddItemToArray_mem (Some a) (Some (l_addr it)) h = Some (Inr h')
    \<and> loose h0 h' (LT a (ks @ [it]) ty vs v nm # ts)"
proof -
  let ?t = "LT a ks ty vs v nm" and ?i = "l_addr it"
  have t: "tree_in h None None ?t" "tree_in h None None it" "chain_in h None None ks"
    using assms by (auto simp: loose_def)
  have d: "a \<notin> set (all_addrs ks)" "a \<notin> set (addrs it)" "distinct (all_addrs ks)" "distinct (addrs it)"
    "set (addrs it) \<inter> set (all_addrs ks) = {}"
    using assms by (auto simp: loose_def)
  have i: "?i \<noteq> a" "?i \<notin> set (all_addrs ks)" using d(2,5) l_addr_in [of it] by fastforce+
  obtain n where n: "nodes h a = Some n" "n_child n = head_or None ks" using t(1) by auto
  have good: "loose h0 h' (LT a (ks @ [it]) ty vs v nm # ts)"
    if "same_on (- set (all_addrs [it, ?t])) UNIV h h'"
      "nodes h' a = map_option (n_child_update (\<lambda>_. head_or None (ks @ [it]))) (nodes h a)" "chain_in h' None None (ks @ [it])" for h'
  proof -
    have s: "strs h' = strs h" using that(1) by (auto simp: same_on_def fun_eq_iff)
    have "loose h0 h' ([LT a (ks @ [it]) ty vs v nm] @ ts)"
      by (rule loose_change [where us = "[it, ?t]", OF _ that(1)])
        (use assms LT_kids [OF t(1) that(2) s that(3)] in \<open>auto simp: loose_def\<close>)
    then show ?thesis by simp
  qed
  show ?thesis
  proof (cases "ks = []")
    case True
    let ?h = "set_at a (n_child_update (\<lambda>_. Some ?i)) h"
    have "chain_in ?h None None [it]" using in_cong(1) [OF set_at_other t(2)] d(2) by simp
    then have "loose h0 ?h (LT a (ks @ [it]) ty vs v nm # ts)" by (intro good) (auto simp: True same_on_def)
    then show ?thesis using n True by (auto simp: cJSON_AddItemToArray_mem_def)
  next
    case False
    let ?l = "l_addr (last ks)"
    let ?h1 = "set_at ?l (n_next_update (\<lambda>_. Some ?i)) h" let ?h = "set_at ?i (n_prev_update (\<lambda>_. Some ?l)) ?h1"
    have l: "?l \<in> set (all_addrs ks)" using False by (auto intro!: bexI [of _ "last ks"])
    then have lx: "?l \<notin> set (addrs it)" "?l \<noteq> a" "?l \<noteq> ?i" using d(1,5) i(2) by auto
    have "chain_in ?h1 (Some ?i) None ks" by (rule chain_set_last [OF t(3) False d(3)])
    then have "chain_in ?h (Some ?i) None ks" using in_cong(2) [OF set_at_other] i(2) by blast
    moreover have "tree_in ?h1 None None it" using in_cong(1) [OF set_at_other t(2)] lx(1) by blast
    then have "tree_in ?h None (Some ?l) it"
      using tree_relink [of ?h1 None None it, where fn = "\<lambda>p. p" and fp = "\<lambda>_. Some ?l"] d(4) by simp
    ultimately have c: "chain_in ?h None None (ks @ [it])" using False by (simp add: chain_in_append last_or_def)
    have "loose h0 ?h (LT a (ks @ [it]) ty vs v nm # ts)"
      by (rule good [OF _ _ c]) (use l lx i n False in \<open>auto simp: same_on_def head_or_append head_or_def split: list.split\<close>)
    moreover have "nodes ?h1 ?i \<noteq> None" using root_alive [OF t(2)] lx by simp
    moreover obtain y where "head_or None ks = Some y" using False by (cases ks) simp_all
    ultimately show ?thesis
      using n last_loop_ok [OF t(3) False] last_alive [OF t(3) False]
      by (auto simp: cJSON_AddItemToArray_mem_def suffix_object_def)
  qed
qed

text \<open>The two neighbours of an item get new links.\<close>

definition relink_last :: "ltree list \<Rightarrow> jptr \<Rightarrow> jheap \<Rightarrow> jheap" where
  "relink_last us p h = (if us = [] then h else set_at (l_addr (last us)) (n_next_update (\<lambda>_. p)) h)"

definition relink_head :: "ltree list \<Rightarrow> jptr \<Rightarrow> jheap \<Rightarrow> jheap" where
  "relink_head vs p h = (case vs of [] \<Rightarrow> h | t # _ \<Rightarrow> set_at (l_addr t) (n_prev_update (\<lambda>_. p)) h)"

lemma last_addr_in: "us \<noteq> [] \<Longrightarrow> l_addr (last us) \<in> set (all_addrs us)"
  by (auto intro!: bexI [of _ "last us"])

lemma relink_same:
  "same_on (- set (all_addrs us)) UNIV h (relink_last us p h)" "same_on (- set (all_addrs us)) UNIV h (relink_head us p h)"
  using last_addr_in [of us] by (auto simp: relink_last_def relink_head_def same_on_def split: list.split)

lemma relink_chain:
  "chain_in h e pv us \<Longrightarrow> distinct (all_addrs us) \<Longrightarrow> chain_in (relink_last us e' h) e' pv us"
  "chain_in h e pv us \<Longrightarrow> distinct (all_addrs us) \<Longrightarrow> chain_in (relink_head us pv' h) e pv' us"
  using chain_set_last [of h e pv us e'] chain_set_first [of h e pv "hd us" "tl us" pv']
  by (auto simp: relink_last_def relink_head_def split: list.split)

lemma relink_alive [simp]: "(nodes (relink_last us p h) b = None) = (nodes h b = None)"
  "(nodes (relink_head us p h) b = None) = (nodes h b = None)"
  by (auto simp: relink_last_def relink_head_def split: list.split)

lemma relink_code:
  "chain_in h e pv us \<Longrightarrow> (if last_or None us \<noteq> None then set_node (last_or None us) (n_next_update (\<lambda>_. p)) h else Inr h)
     = Inr (relink_last us p h)"
  "chain_in h e pv us \<Longrightarrow> (if head_or None us \<noteq> None then set_node (head_or None us) (n_prev_update (\<lambda>_. p)) h else Inr h)
     = Inr (relink_head us p h)"
  using last_alive [of h e pv us]
  by (cases us; auto simp: relink_last_def relink_head_def last_or_def dest: root_alive)+

lemma same_on_tree: "same_on (- N) UNIV h h' \<Longrightarrow> tree_in h nx pv t \<Longrightarrow> N \<inter> set (addrs t) = {} \<Longrightarrow> tree_in h' nx pv t"
  by (rule in_cong(1) [OF same_on_mono]) auto

lemma same_on_chain: "same_on (- N) UNIV h h' \<Longrightarrow> chain_in h e pv ts \<Longrightarrow> N \<inter> set (all_addrs ts) = {} \<Longrightarrow> chain_in h' e pv ts"
  by (rule in_cong(2) [OF same_on_mono]) auto

lemma same_on_set_at: "same_on (- {a}) UNIV h (set_at a f h)"
  by (simp add: same_on_def)

lemma same_on_trans: "same_on N S h h1 \<Longrightarrow> same_on N S h1 h2 \<Longrightarrow> same_on N S h h2"
  by (simp add: same_on_def)

lemma looseD:
  assumes "loose h0 h ts" "t \<in> set ts"
  shows "tree_in h None None t" "distinct (addrs t)" "distinct (straddrs t)"
  using assms split_list [OF assms(2)] by (auto simp: loose_def list_all_iff)

lemma loose_apart: "loose h0 h (x # ts) \<Longrightarrow> t \<in> set ts \<Longrightarrow> set (addrs x) \<inter> set (addrs t) = {}"
  by (auto simp: loose_def)

lemma kids_apart:
  assumes t: "tree_in h None None (LT a (us @ c # vs) ty w v nm)" and "distinct (addrs (LT a (us @ c # vs) ty w v nm))"
  obtains n nc where "nodes h a = Some n" "n_child n = head_or None (us @ c # vs)"
    "nodes h (l_addr c) = Some nc" "n_next nc = head_or None vs" "n_prev nc = last_or None us"
    "chain_in h (Some (l_addr c)) None us" "tree_in h (head_or None vs) (last_or None us) c"
    "chain_in h None (Some (l_addr c)) vs" "chain_in h None None (us @ c # vs)"
    "a \<notin> set (all_addrs us)" "a \<notin> set (addrs c)" "a \<notin> set (all_addrs vs)"
    "set (all_addrs us) \<inter> set (addrs c) = {}" "set (all_addrs us) \<inter> set (all_addrs vs) = {}"
    "set (addrs c) \<inter> set (all_addrs vs) = {}"
    "distinct (all_addrs us)" "distinct (addrs c)" "distinct (all_addrs vs)"
proof -
  have ch: "chain_in h (Some (l_addr c)) None us" "tree_in h (head_or None vs) (last_or None us) c"
    "chain_in h None (Some (l_addr c)) vs" "chain_in h None None (us @ c # vs)"
    using t by (auto simp: chain_in_append)
  obtain n where n: "nodes h a = Some n" "n_child n = head_or None (us @ c # vs)" using t by auto
  obtain nc where nc: "nodes h (l_addr c) = Some nc" "n_next nc = head_or None vs" "n_prev nc = last_or None us"
    using tree_in_node [OF ch(2)] by blast
  have d: "distinct (a # all_addrs us @ addrs c @ all_addrs vs)" using assms(2) by simp
  show ?thesis by (rule that [OF n nc ch]) (use d in auto)
qed

text \<open>An item \<open>c\<close> has left the children of an array, loose trees \<open>xs\<close> are in its place.\<close>

lemma splice_ok:
  assumes "loose h0 h (xs @ LT a (us @ c # vs) ty w v nm # ts)"
    and N: "same_on (- set (all_addrs (xs @ [LT a (us @ c # vs) ty w v nm]))) UNIV h h'"
    and a: "nodes h' a = map_option (n_child_update (\<lambda>_. head_or None (us @ xs @ vs))) (nodes h a)"
    and "chain_in h' None None (us @ xs @ vs)" "tree_in h' None None c"
  shows "loose h0 h' (c # LT a (us @ xs @ vs) ty w v nm # ts)"
proof -
  let ?t = "LT a (us @ c # vs) ty w v nm"
  have t: "tree_in h None None ?t" using assms(1) by (simp add: loose_def)
  have st: "strs h' = strs h" using N by (auto simp: same_on_def fun_eq_iff)
  have "distinct (all_addrs (xs @ [?t]) @ all_addrs ts)" "distinct (all_straddrs (xs @ [?t]) @ all_straddrs ts)"
    using assms(1) by (simp_all only: loose_def map_append concat_append list.map concat.simps append_assoc append_Cons append_Nil append_Nil2)
  then have d: "distinct (all_addrs (xs @ [?t]))" "distinct (all_straddrs (xs @ [?t]))" by (simp_all only: distinct_append)
  have "loose h0 h' ([c, LT a (us @ xs @ vs) ty w v nm] @ ts)"
  proof (rule loose_change [where us = "xs @ [?t]", OF _ N])
    show "loose h0 h ((xs @ [?t]) @ ts)" using assms(1) by simp
    show "list_all (tree_in h' None None) [c, LT a (us @ xs @ vs) ty w v nm]"
      using assms(5) LT_kids [OF t a st assms(4)] by simp
    show "distinct (all_addrs [c, LT a (us @ xs @ vs) ty w v nm])"
      using d(1) by (simp add: Int_commute Int_Un_distrib Int_Un_distrib2)
    show "distinct (all_straddrs [c, LT a (us @ xs @ vs) ty w v nm])"
      using d(2) by (simp add: Int_commute Int_Un_distrib Int_Un_distrib2)
  qed (auto simp: ac_simps)
  then show ?thesis by simp
qed

lemma detach_item_ok:
  assumes "loose h0 h (LT a (us @ c # vs) ty w v nm # ts)" "nat i = length us"
  shows "\<exists>h'. cJSON_DetachItemFromArray_mem (Some a) i h = Some (Inr (h', Some (l_addr c)))
    \<and> loose h0 h' (c # LT a (us @ vs) ty w v nm # ts)"
proof -
  obtain n nc where k: "nodes h a = Some n" "n_child n = head_or None (us @ c # vs)"
    "nodes h (l_addr c) = Some nc" "n_next nc = head_or None vs" "n_prev nc = last_or None us"
    "chain_in h (Some (l_addr c)) None us" "tree_in h (head_or None vs) (last_or None us) c"
    "chain_in h None (Some (l_addr c)) vs" "chain_in h None None (us @ c # vs)"
    and d: "a \<notin> set (all_addrs us)" "a \<notin> set (addrs c)" "a \<notin> set (all_addrs vs)"
    "set (all_addrs us) \<inter> set (addrs c) = {}" "set (all_addrs us) \<inter> set (all_addrs vs) = {}"
    "set (addrs c) \<inter> set (all_addrs vs) = {}"
    "distinct (all_addrs us)" "distinct (addrs c)" "distinct (all_addrs vs)"
    using looseD [OF assms(1) list.set_intros(1)] by (elim kids_apart)
  let ?c = "l_addr c" and ?N = "insert a (set (all_addrs (us @ c # vs)))"
  define h1 where "h1 = relink_last us (head_or None vs) h"
  define h2 where "h2 = relink_head vs (last_or None us) h1"
  define h3 where "h3 = (if us = [] then set_at a (n_child_update (\<lambda>_. head_or None vs)) h2 else h2)"
  define h4 where "h4 = set_at ?c (\<lambda>m. m\<lparr>n_prev := None, n_next := None\<rparr>) h3"
  have c: "?c \<noteq> a" "?c \<notin> set (all_addrs us)" "?c \<notin> set (all_addrs vs)" using d(2,4,6) l_addr_in [of c] by blast+
  have s1: "same_on (- set (all_addrs us)) UNIV h h1" and s2: "same_on (- set (all_addrs vs)) UNIV h1 h2"
    unfolding h1_def h2_def by (rule relink_same)+
  have s3: "same_on (- {a}) UNIV h2 h3" by (simp add: h3_def same_on_def)
  have s4: "same_on (- {?c}) UNIV h3 h4" unfolding h4_def by (rule same_on_set_at)
  note vs1 = same_on_chain [OF s1 k(8) d(5)]
  have us1: "chain_in h1 (head_or None vs) None us" unfolding h1_def by (rule relink_chain(1) [OF k(6) d(7)])
  have vs2: "chain_in h2 None (last_or None us) vs" unfolding h2_def by (rule relink_chain(2) [OF vs1 d(9)])
  have us4: "chain_in h4 (head_or None vs) None us"
    using same_on_chain [OF s4 same_on_chain [OF s3 same_on_chain [OF s2 us1]]] d c by blast
  have vs4: "chain_in h4 None (last_or None us) vs"
    using same_on_chain [OF s4 same_on_chain [OF s3 vs2]] d c by blast
  have c3: "tree_in h3 (head_or None vs) (last_or None us) c"
    using same_on_tree [OF s3 same_on_tree [OF s2 same_on_tree [OF s1 k(7)]]] d by blast
  have c4: "tree_in h4 None None c"
    unfolding h4_def using tree_relink [OF c3 d(8), where fn = "\<lambda>_. None" and fp = "\<lambda>_. None"] by simp
  have N: "same_on (- set (all_addrs [LT a (us @ c # vs) ty w v nm])) UNIV h h4"
    by (rule same_on_trans [OF same_on_mono [OF s1] same_on_trans [OF same_on_mono [OF s2] same_on_trans [OF same_on_mono [OF s3] same_on_mono [OF s4]]]])
      (use l_addr_in [of c] in auto)
  have a2: "nodes h2 a = nodes h a" using s1 s2 d(1,3) by (simp add: same_on_def)
  then have a4: "nodes h4 a = map_option (n_child_update (\<lambda>_. head_or None (us @ vs))) (nodes h a)"
    using c(1) k(1,2) by (cases us) (simp_all add: h4_def h3_def)
  have "chain_in h4 None None (us @ vs)" using us4 vs4 by (simp add: chain_in_append)
  then have "loose h0 h4 (c # LT a (us @ vs) ty w v nm # ts)"
    using splice_ok [where xs = "[]", OF _ _ _ _ c4] assms(1) N a4 by simp
  moreover have ch: "(Some ?c = n_child n) = (us = [])"
    using k(2) c(2) l_addr_in [of "hd us"] by (cases us) auto
  have i: "item_loop h (n_child n) i = Some (Inr (Some ?c))"
    using item_loop_ok [OF k(9), of i] assms(2) k(2) by simp
  have al: "nodes h2 a \<noteq> None" "nodes h3 ?c \<noteq> None" using a2 k(1) c3 root_alive by auto
  have e: "(if n_prev nc \<noteq> None then set_node (n_prev nc) (n_next_update (\<lambda>_. n_next nc)) h else Inr h) = Inr h1"
    "(if n_next nc \<noteq> None then set_node (n_next nc) (n_prev_update (\<lambda>_. n_prev nc)) h1 else Inr h1) = Inr h2"
    unfolding k(4,5) h1_def h2_def
    by (rule relink_code(1) [OF k(6)], rule relink_code(2) [OF vs1 [unfolded h1_def]])
  have e3: "(if Some ?c = n_child n then set_node (Some a) (n_child_update (\<lambda>_. n_next nc)) h2 else Inr h2) = Inr h3"
    using al(1) by (simp add: ch h3_def k(4))
  have e4: "set_node (Some ?c) (\<lambda>m. m\<lparr>n_prev := None, n_next := None\<rparr>) h3 = Inr h4"
    using al(2) by (simp add: h4_def)
  have "cJSON_DetachItemFromArray_mem (Some a) i h = Some (Inr (h4, Some ?c))"
    by (simp only: cJSON_DetachItemFromArray_mem_def node_in [OF k(1)] node_in [OF k(3)] then_do_simps i e e3 e4
        option.distinct if_False)
  ultimately show ?thesis by blast
qed

lemma replace_item_ok:
  assumes "loose h0 h (x # LT a (us @ c # vs) ty w v nm # ts)" "nat i = length us"
  shows "\<exists>h'. cJSON_ReplaceItemInArray_mem (Some a) i (Some (l_addr x)) h = Some (Inr h')
    \<and> loose h0 h' (LT a (us @ x # vs) ty w v nm # ts)"
proof -
  let ?t = "LT a (us @ c # vs) ty w v nm" and ?c = "l_addr c" and ?x = "l_addr x"
  have mem: "x \<in> set (x # ?t # ts)" "?t \<in> set (x # ?t # ts)" by simp_all
  note x = looseD(1,2) [OF assms(1) mem(1)] and t = looseD(1,2) [OF assms(1) mem(2)]
  obtain n nc where k: "nodes h a = Some n" "n_child n = head_or None (us @ c # vs)"
    "nodes h ?c = Some nc" "n_next nc = head_or None vs" "n_prev nc = last_or None us"
    "chain_in h (Some ?c) None us" "tree_in h (head_or None vs) (last_or None us) c"
    "chain_in h None (Some ?c) vs" "chain_in h None None (us @ c # vs)"
    and d: "a \<notin> set (all_addrs us)" "a \<notin> set (addrs c)" "a \<notin> set (all_addrs vs)"
    "set (all_addrs us) \<inter> set (addrs c) = {}" "set (all_addrs us) \<inter> set (all_addrs vs) = {}"
    "set (addrs c) \<inter> set (all_addrs vs) = {}"
    "distinct (all_addrs us)" "distinct (addrs c)" "distinct (all_addrs vs)"
    by (rule kids_apart [OF t])
  have "set (addrs x) \<inter> set (addrs ?t) = {}" using loose_apart [OF assms(1), of ?t] by simp
  then have xd: "a \<notin> set (addrs x)" "set (addrs x) \<inter> set (all_addrs us) = {}" "set (addrs x) \<inter> set (addrs c) = {}"
    "set (addrs x) \<inter> set (all_addrs vs) = {}" by auto
  have xa: "?x \<noteq> a" "?x \<notin> set (all_addrs us)" "?x \<notin> set (addrs c)" "?x \<notin> set (all_addrs vs)"
    using xd l_addr_in [of x] by (metis, (metis disjoint_iff)+)
  have c: "?c \<noteq> a" "?c \<notin> set (all_addrs us)" "?c \<notin> set (all_addrs vs)" "?c \<notin> set (addrs x)"
    using d(2,4,6) xd(3) l_addr_in [of c] by (metis, (metis disjoint_iff)+)
  define h1 where "h1 = set_at ?x (\<lambda>m. m\<lparr>n_next := head_or None vs, n_prev := last_or None us\<rparr>) h"
  define h2 where "h2 = relink_head vs (Some ?x) h1"
  define h3 where "h3 = (if us = [] then set_at a (n_child_update (\<lambda>_. Some ?x)) h2 else relink_last us (Some ?x) h2)"
  define h4 where "h4 = set_at ?c (\<lambda>m. m\<lparr>n_next := None, n_prev := None\<rparr>) h3"
  have s1: "same_on (- {?x}) UNIV h h1" unfolding h1_def by (rule same_on_set_at)
  have s2: "same_on (- set (all_addrs vs)) UNIV h1 h2" unfolding h2_def by (rule relink_same)
  have s3: "same_on (- insert a (set (all_addrs us))) UNIV h2 h3"
    using relink_same(1) [of us h2 "Some ?x"] by (auto simp: h3_def same_on_def)
  have s4: "same_on (- {?c}) UNIV h3 h4" unfolding h4_def by (rule same_on_set_at)
  have us2: "chain_in h2 (Some ?c) None us" using same_on_chain [OF s2 same_on_chain [OF s1 k(6)]] xa d by blast
  have us3: "chain_in h3 (Some ?x) None us"
    using relink_chain(1) [OF us2 d(7)] by (simp add: h3_def)
  have us4: "chain_in h4 (Some ?x) None us" using same_on_chain [OF s4 us3] c by blast
  have vs1: "chain_in h1 None (Some ?c) vs" using same_on_chain [OF s1 k(8)] xa by blast
  have vs2: "chain_in h2 None (Some ?x) vs" unfolding h2_def by (rule relink_chain(2) [OF vs1 d(9)])
  have vs4: "chain_in h4 None (Some ?x) vs" using same_on_chain [OF s4 same_on_chain [OF s3 vs2]] c d by blast
  have x1: "tree_in h1 (head_or None vs) (last_or None us) x"
    unfolding h1_def using tree_relink [OF x, where fn = "\<lambda>_. head_or None vs" and fp = "\<lambda>_. last_or None us"] by simp
  have x2: "tree_in h2 (head_or None vs) (last_or None us) x" using same_on_tree [OF s2 x1] xd by blast
  have x4: "tree_in h4 (head_or None vs) (last_or None us) x"
    using same_on_tree [OF s4 same_on_tree [OF s3 x2]] xd c by blast
  have c3: "tree_in h3 (head_or None vs) (last_or None us) c"
    using same_on_tree [OF s3 same_on_tree [OF s2 same_on_tree [OF s1 k(7)]]] d xa by blast
  have c4: "tree_in h4 None None c"
    unfolding h4_def using tree_relink [OF c3 d(8), where fn = "\<lambda>_. None" and fp = "\<lambda>_. None"] by simp
  have N: "same_on (- set (all_addrs [x, ?t])) UNIV h h4"
    by (rule same_on_trans [OF same_on_mono [OF s1] same_on_trans [OF same_on_mono [OF s2] same_on_trans [OF same_on_mono [OF s3] same_on_mono [OF s4]]]])
      auto
  have a2: "nodes h2 a = nodes h a" using s1 s2 d(3) xa(1) by (simp add: same_on_def)
  have a4: "nodes h4 a = map_option (n_child_update (\<lambda>_. head_or None (us @ x # vs))) (nodes h a)"
    using c(1) a2 k(1,2) relink_same(1) [of us h2 "Some ?x"] d(1)
    by (cases us) (auto simp: h4_def h3_def same_on_def)
  have "chain_in h4 None None (us @ [x] @ vs)" using us4 vs4 x4 by (simp add: chain_in_append)
  then have "loose h0 h4 (c # LT a (us @ x # vs) ty w v nm # ts)"
    using splice_ok [where xs = "[x]", OF _ _ _ _ c4] assms(1) N a4 by simp
  then obtain h5 where h5: "cJSON_Delete (Some ?c) h4 = Some (Inr h5)" "loose h0 h5 (LT a (us @ x # vs) ty w v nm # ts)"
    using loose_delete [of h0 h4 c] by auto
  have ch: "(Some ?c = n_child n) = (us = [])" using k(2) c(2) by (cases us) auto
  have i: "item_loop h (n_child n) i = Some (Inr (Some ?c))"
    using item_loop_ok [OF k(9), of i] assms(2) k(2) by simp
  have e1: "set_node (Some ?x) (\<lambda>m. m\<lparr>n_next := n_next nc, n_prev := n_prev nc\<rparr>) h = Inr h1"
    using root_alive [OF x(1)] by (simp add: h1_def k)
  obtain m1 where m1: "nodes h1 ?x = Some m1" "n_next m1 = head_or None vs" using tree_in_node [OF x1] by blast
  have e2: "res_bind (node h1 (Some ?x)) (\<lambda>m. if n_next m \<noteq> None then set_node (n_next m) (n_prev_update (\<lambda>_. Some ?x)) h1 else Inr h1) = Inr h2"
    using relink_code(2) [OF vs1, of "Some ?x"] by (simp only: node_in [OF m1(1)] res_bind_simps m1(2) h2_def)
  obtain m2 where m2: "nodes h2 ?x = Some m2" "n_prev m2 = last_or None us" using tree_in_node [OF x2] by blast
  have e3: "(if Some ?c = n_child n then set_node (Some a) (n_child_update (\<lambda>_. Some ?x)) h2
      else res_bind (node h2 (Some ?x)) (\<lambda>m. set_node (n_prev m) (n_next_update (\<lambda>_. Some ?x)) h2)) = Inr h3"
  proof (cases "us = []")
    case True
    then show ?thesis using ch a2 k(1) by (simp add: h3_def)
  next
    case False
    then show ?thesis using ch relink_code(1) [OF us2, of "Some ?x"] m2 by (simp add: h3_def last_or_def)
  qed
  have e4: "set_node (Some ?c) (\<lambda>m. m\<lparr>n_next := None, n_prev := None\<rparr>) h3 = Inr h4"
    using root_alive [OF c3] by (simp add: h4_def)
  have "cJSON_ReplaceItemInArray_mem (Some a) i (Some ?x) h = Some (Inr h5)"
    by (simp only: cJSON_ReplaceItemInArray_mem_def node_in [OF k(1)] node_in [OF k(3)] then_do_simps i e1 e2 e3 e4
        option.distinct if_False h5(1))
  then show ?thesis using h5(2) by blast
qed

subsection \<open>An allocator that has memory\<close>

definition small :: "jheap \<Rightarrow> bool" where
  "small h \<longleftrightarrow> finite (dom (nodes h)) \<and> finite (dom (strs h))"

text \<open>It answers with addresses that are free; \<open>jalloc_full\<close> says that it always answers.\<close>

definition jalloc_ok :: "jalloc \<Rightarrow> bool" where
  "jalloc_ok A \<longleftrightarrow> (\<forall>h a. small h \<longrightarrow> (node_at A h = Some a \<longrightarrow> nodes h a = None) \<and> (str_at A h = Some a \<longrightarrow> strs h a = None))"

definition jalloc_full :: "jalloc \<Rightarrow> bool" where
  "jalloc_full A \<longleftrightarrow> (\<forall>h. node_at A h \<noteq> None \<and> str_at A h \<noteq> None)"

lemma loose_small:
  assumes "loose h0 h ts" "small h0"
  shows "small h"
proof -
  have "dom (nodes h) \<subseteq> dom (nodes h0) \<union> set (all_addrs ts)" "dom (strs h) \<subseteq> dom (strs h0) \<union> set (all_straddrs ts)"
    using assms(1) by (auto simp: loose_def without_def restrict_map_def split: if_splits)
  then show ?thesis using assms(2) by (auto simp: small_def intro: finite_subset)
qed

lemma new_node:
  assumes "loose h0 h ts" "small h0" "jalloc_ok A" "jalloc_full A"
  obtains a where "node_at A h = Some a" "nodes h a = None"
  using assms loose_small [OF assms(1,2)] unfolding jalloc_ok_def jalloc_full_def by fastforce

lemma new_str:
  assumes "small h" "jalloc_ok A" "jalloc_full A"
  obtains a where "str_at A h = Some a" "strs h a = None"
  using assms unfolding jalloc_ok_def jalloc_full_def by fastforce

text \<open>What a function that creates an item promises: a new loose tree, or nothing but a null pointer.\<close>

definition creates :: "jheap \<Rightarrow> (jheap \<Rightarrow> jheap \<times> jptr) \<Rightarrow> cJSON \<Rightarrow> bool" where
  "creates h0 mk j \<longleftrightarrow> (\<forall>h ts. loose h0 h ts \<longrightarrow>
     (\<exists>h1 t. mk h = (h1, Some (l_addr t)) \<and> loose h0 h1 (t # ts) \<and> forget t = j))"

lemma set_at_new: "set_at a f (h\<lparr>nodes := (nodes h)(a \<mapsto> n)\<rparr>) = h\<lparr>nodes := (nodes h)(a \<mapsto> f n)\<rparr>"
  by (simp add: set_at_def)

lemma creates_typed:
  assumes "small h0" "jalloc_ok A" "jalloc_full A" "\<not> is_reference ty"
    and "f zero_node = zero_node\<lparr>n_type := ty, n_value := v\<rparr>"
  shows "creates h0 (create_typed A f) (CJSON ty [] None v None)"
  unfolding creates_def
proof (intro allI impI)
  fix h ts assume l: "loose h0 h ts"
  obtain a where a: "node_at A h = Some a" "nodes h a = None" by (rule new_node [OF l assms(1-3)])
  have z: "zero_node\<lparr>n_type := ty, n_value := v, n_valuestring := None\<rparr> = zero_node\<lparr>n_type := ty, n_value := v\<rparr>"
    by (simp add: zero_node_def)
  have "create_typed A f h = (h\<lparr>nodes := (nodes h)(a \<mapsto> zero_node\<lparr>n_type := ty, n_value := v\<rparr>)\<rparr>, Some a)"
    by (simp add: create_typed_def cJSON_New_Item_mem_def a(1) set_at_new assms(5))
  then show "\<exists>h1 t. create_typed A f h = (h1, Some (l_addr t)) \<and> loose h0 h1 (t # ts) \<and> forget t = CJSON ty [] None v None"
    using loose_new [OF l a(2) assms(4), where vs = None and ?h1.0 = h and v = v] z
    by (intro exI [of _ "h\<lparr>nodes := (nodes h)(a \<mapsto> zero_node\<lparr>n_type := ty, n_value := v\<rparr>)\<rparr>"] exI [of _ "LT a [] ty None v None"]) simp
qed

lemma no_reference [simp]: "t \<le> cJSON_Object \<Longrightarrow> \<not> is_reference t"
  by (simp add: is_reference_def cJSON_IsReference_def cJSON_Object_def)

lemma creates_number:
  assumes "small h0" "jalloc_ok A" "jalloc_full A"
  shows "creates h0 (cJSON_CreateNumber_mem A v) (cJSON_CreateNumber v)"
    "creates h0 (cJSON_CreateArray_mem A) cJSON_CreateArray" "creates h0 (cJSON_CreateObject_mem A) cJSON_CreateObject"
    "creates h0 (cJSON_CreateNull_mem A) cJSON_CreateNull" "creates h0 (cJSON_CreateTrue_mem A) cJSON_CreateTrue"
    "creates h0 (cJSON_CreateFalse_mem A) cJSON_CreateFalse" "creates h0 (cJSON_CreateBool_mem A b) (cJSON_CreateBool b)"
  unfolding cJSON_CreateNumber_mem_def cJSON_CreateNumber_def cJSON_CreateArray_mem_def cJSON_CreateArray_def
    cJSON_CreateObject_mem_def cJSON_CreateObject_def cJSON_CreateNull_mem_def cJSON_CreateNull_def cJSON_CreateTrue_mem_def
    cJSON_CreateTrue_def cJSON_CreateFalse_mem_def cJSON_CreateFalse_def cJSON_CreateBool_mem_def cJSON_CreateBool_def
  by (intro creates_typed [OF assms] no_reference; simp add: cJSON_types zero_node_def)+

lemma creates_string:
  assumes "small h0" "jalloc_ok A" "jalloc_full A"
  shows "creates h0 (cJSON_CreateString_mem A s) (cJSON_CreateString s)"
  unfolding creates_def
proof (intro allI impI)
  fix h ts assume l: "loose h0 h ts"
  obtain a where a: "node_at A h = Some a" "nodes h a = None" by (rule new_node [OF l assms])
  define h1 where "h1 = h\<lparr>nodes := (nodes h)(a \<mapsto> zero_node\<lparr>n_type := cJSON_String\<rparr>)\<rparr>"
  have "small h1" using loose_small [OF l assms(1)] by (simp add: h1_def small_def)
  then obtain b where b: "str_at A h1 = Some b" "strs h1 b = None" by (rule new_str [OF _ assms(2,3)])
  define h2 where "h2 = h\<lparr>strs := (strs h)(b \<mapsto> s)\<rparr>"
  define h3 where "h3 = h2\<lparr>nodes := (nodes h)(a \<mapsto> zero_node\<lparr>n_type := cJSON_String, n_value := 0, n_valuestring := map_option fst (Some (b, s))\<rparr>)\<rparr>"
  have m: "cJSON_CreateString_mem A s h = (h3, Some a)"
    using b by (simp add: cJSON_CreateString_mem_def cJSON_New_Item_mem_def a(1) set_at_new h1_def [symmetric] cJSON_strdup_def)
      (simp add: h1_def h2_def h3_def set_at_def zero_node_def)
  have "loose h0 h3 (LT a [] cJSON_String (Some (b, s)) 0 None # ts)"
    unfolding h3_def by (rule loose_new [OF l a(2)]) (use b(2) in \<open>simp_all add: cJSON_types h1_def h2_def\<close>)
  then show "\<exists>h1 t. cJSON_CreateString_mem A s h = (h1, Some (l_addr t)) \<and> loose h0 h1 (t # ts) \<and> forget t = cJSON_CreateString s"
    using m by (intro exI [of _ h3] exI [of _ "LT a [] cJSON_String (Some (b, s)) 0 None"]) (simp add: cJSON_CreateString_def)
qed

text \<open>One turn of the loop that fills an array hangs the new item behind the last.\<close>

lemma hang_item:
  assumes "loose h0 h (it # LT a ks ty vs v nm # ts)"
  shows "\<exists>h'. (if \<not> (ks \<noteq> []) then set_node (Some a) (n_child_update (\<lambda>_. Some (l_addr it))) h
      else suffix_object (last_or None ks) (Some (l_addr it)) h) = Inr h'
    \<and> loose h0 h' (LT a (ks @ [it]) ty vs v nm # ts)"
proof -
  obtain h' where h': "cJSON_AddItemToArray_mem (Some a) (Some (l_addr it)) h = Some (Inr h')"
    "loose h0 h' (LT a (ks @ [it]) ty vs v nm # ts)"
    using add_item_ok [OF assms] by blast
  have t: "tree_in h None None (LT a ks ty vs v nm)" using assms by (simp add: loose_def)
  then obtain n where n: "nodes h a = Some n" "n_child n = head_or None ks" "chain_in h None None ks" by auto
  show ?thesis
  proof (cases "ks = []")
    case True
    then show ?thesis using h' n by (auto simp: cJSON_AddItemToArray_mem_def)
  next
    case False
    then have "suffix_object (last_or None ks) (Some (l_addr it)) h = Inr h'"
      using h'(1) last_loop_ok [OF n(3) False] n(2)
      by (cases ks) (auto simp: cJSON_AddItemToArray_mem_def node_in [OF n(1)] last_or_def)
    then show ?thesis using False h'(2) by auto
  qed
qed

lemma array_loop_ok:
  assumes "\<And>x. creates h0 (mk x) (g x)"
  shows "loose h0 h (LT a ks ty vs v nm # ts) \<Longrightarrow>
    \<exists>h' us. array_loop mk a (last_or None ks) xs (ks \<noteq> []) h = Inr h'
      \<and> loose h0 h' (LT a (ks @ us) ty vs v nm # ts) \<and> map forget us = map g xs"
proof (induction xs arbitrary: h ks)
  case (Cons x xs)
  obtain h1 t where t: "mk x h = (h1, Some (l_addr t))" "loose h0 h1 (t # LT a ks ty vs v nm # ts)" "forget t = g x"
    using assms [of x] Cons.prems unfolding creates_def by blast
  obtain h2 where h2: "(if \<not> (ks \<noteq> []) then set_node (Some a) (n_child_update (\<lambda>_. Some (l_addr t))) h1
      else suffix_object (last_or None ks) (Some (l_addr t)) h1) = Inr h2" "loose h0 h2 (LT a (ks @ [t]) ty vs v nm # ts)"
    using hang_item [OF t(2)] by blast
  obtain h' us where u: "array_loop mk a (last_or None (ks @ [t])) xs (ks @ [t] \<noteq> []) h2 = Inr h'"
    "loose h0 h' (LT a ((ks @ [t]) @ us) ty vs v nm # ts)" "map forget us = map g xs"
    using Cons.IH [OF h2(2)] by blast
  have "array_loop mk a (last_or None ks) (x # xs) (ks \<noteq> []) h = Inr h'"
    using u(1) by (simp only: array_loop.simps t(1) Let_def case_prod_conv h2(1) res_bind_simps) simp
  then show ?case using u(2,3) t(3) by (intro exI [of _ h'] exI [of _ "t # us"]) simp
qed auto

lemma create_array_ok:
  assumes "small h0" "jalloc_ok A" "jalloc_full A" "\<And>x. creates h0 (mk x) (g x)" "loose h0 h ts"
  shows "\<exists>h1 t. create_array_of A mk xs h = Inr (h1, Some (l_addr t)) \<and> loose h0 h1 (t # ts)
    \<and> forget t = CJSON cJSON_Array (map g xs) None 0 None"
proof -
  obtain h1 t where t: "cJSON_CreateArray_mem A h = (h1, Some (l_addr t))" "loose h0 h1 (t # ts)" "forget t = cJSON_CreateArray"
    using creates_number(2) [OF assms(1-3)] assms(5) unfolding creates_def by blast
  obtain a where a: "t = LT a [] cJSON_Array None 0 None"
  proof (cases t)
    case (LT a ks ty vs v nm)
    then show ?thesis using t(3) that by (auto simp: cJSON_CreateArray_def)
  next
    case (LRef a b nm)
    then show ?thesis using t(2,3) by (simp add: loose_def cJSON_CreateArray_def cJSON_types)
  qed
  obtain h2 us where u: "array_loop mk a (last_or None []) xs ([] \<noteq> ([] :: ltree list)) h1 = Inr h2"
    "loose h0 h2 (LT a ([] @ us) cJSON_Array None 0 None # ts)" "map forget us = map g xs"
    using array_loop_ok [of h0 mk g, OF assms(4) t(2) [unfolded a], of xs] by blast
  then show ?thesis
    by (intro exI [of _ h2] exI [of _ "LT a us cJSON_Array None 0 None"]) (simp add: create_array_of_def t(1) a)
qed

text \<open>Naming an item: its old name is given back, a copy of the new one takes its place.\<close>

fun with_lname :: "ltree \<Rightarrow> (nat \<times> string) option \<Rightarrow> ltree" where
  "with_lname (LT a ks ty vs v nm) nm' = LT a ks ty vs v nm'"
| "with_lname (LRef a b nm) nm' = LRef a b nm'"

lemma with_lname_simps [simp]:
  "l_addr (with_lname t nm) = l_addr t" "addrs (with_lname t nm) = addrs t" "forget (with_lname t (Some (b, s))) = with_name (forget t) s"
  by (cases t; simp)+

lemma straddrs_name: "set (straddrs t) = set (str_addr (l_name t)) \<union> set (straddrs (with_lname t None))"
  "set (straddrs (with_lname t (Some (b, s)))) = insert b (set (straddrs (with_lname t None)))"
  "distinct (straddrs t) \<Longrightarrow> b \<notin> set (straddrs (with_lname t None)) \<Longrightarrow> distinct (straddrs (with_lname t (Some (b, s))))"
  "distinct (straddrs t) \<Longrightarrow> set (str_addr (l_name t)) \<inter> set (straddrs (with_lname t None)) = {}"
  by (cases t; auto)+

lemma tree_rename:
  assumes "tree_in h nx pv t" "distinct (addrs t)" "same_on (set (addrs t)) (set (straddrs (with_lname t None))) h h'" "strs h' b = Some s"
  shows "tree_in (set_at (l_addr t) (n_string_update (\<lambda>_. Some b)) h') nx pv (with_lname t (Some (b, s)))"
proof (cases t)
  case (LT a ks ty vs v nm)
  have "chain_in h' None None ks"
    by (rule in_cong(2) [OF same_on_mono [OF assms(3)]]) (use assms(1) LT in auto)
  then have "chain_in (set_at a (n_string_update (\<lambda>_. Some b)) h') None None ks"
    using in_cong(2) [OF set_at_other] assms(2) LT by auto
  moreover have "str_in (set_at a (n_string_update (\<lambda>_. Some b)) h') vs"
    using assms(1,3) LT by (cases vs) (auto simp: same_on_def)
  ultimately show ?thesis using assms LT by (auto simp: same_on_def)
next
  case (LRef a b' nm)
  then show ?thesis using assms by (auto simp: same_on_def)
qed

lemma rename_ok:
  assumes "loose h0 h (t # ts)" "small h0" "jalloc_ok A" "jalloc_full A"
  shows "\<exists>n h1 h2 b h3. node h (Some (l_addr t)) = Inr n
    \<and> (if n_string n \<noteq> None then free_str (n_string n) h else Inr h) = Inr h1 \<and> cJSON_strdup A s h1 = (h2, Some b)
    \<and> set_node (Some (l_addr t)) (n_string_update (\<lambda>_. Some b)) h2 = Inr h3
    \<and> loose h0 h3 (with_lname t (Some (b, s)) # ts)"
proof -
  let ?a = "l_addr t" and ?S = "set (straddrs (with_lname t None))"
  have mem: "t \<in> set (t # ts)" by simp
  note t = looseD [OF assms(1) mem]
  obtain n where n: "nodes h ?a = Some n" "n_string n = map_option fst (l_name t)" using tree_in_node [OF t(1)] by blast
  define h1 where "h1 = without h [] (str_addr (l_name t))"
  have h1: "(if n_string n \<noteq> None then free_str (n_string n) h else Inr h) = Inr h1"
    using free_str_in [OF tree_in_name [OF t(1)]] unfolding n(2) h1_def .
  have "small h1" using loose_small [OF assms(1,2)] by (simp add: h1_def small_def)
  then obtain b where b: "str_at A h1 = Some b" "strs h1 b = None" by (rule new_str [OF _ assms(3,4)])
  define h2 where "h2 = h1\<lparr>strs := (strs h1)(b \<mapsto> s)\<rparr>"
  define h3 where "h3 = set_at ?a (n_string_update (\<lambda>_. Some b)) h2"
  have dup: "cJSON_strdup A s h1 = (h2, Some b)" by (simp add: cJSON_strdup_def b(1) h2_def)
  have set3: "set_node (Some ?a) (n_string_update (\<lambda>_. Some b)) h2 = Inr h3"
    using n(1) by (simp add: h3_def h2_def h1_def)
  have dom: "?S \<subseteq> dom (strs h)" "set (all_straddrs ts) \<subseteq> dom (strs h)"
    using loose_dom [OF assms(1)] straddrs_name(1) [of t] by auto
  have old: "set (str_addr (l_name t)) \<inter> ?S = {}" "set (str_addr (l_name t)) \<inter> set (all_straddrs ts) = {}"
    "?S \<inter> set (all_straddrs ts) = {}"
    using straddrs_name(4) [OF t(3)] assms(1) straddrs_name(1) [of t] by (auto simp: loose_def)
  have b_new: "b \<notin> ?S" "b \<notin> set (all_straddrs ts)"
    using b(2) dom old(1,2) by (auto simp: h1_def restrict_map_def split: if_splits)
  have same: "same_on UNIV (?S \<union> set (all_straddrs ts)) h h2"
    using b_new old(1,2) by (auto simp: same_on_def h2_def h1_def restrict_map_def)
  have "tree_in h3 None None (with_lname t (Some (b, s)))"
    unfolding h3_def by (rule tree_rename [OF t(1,2) same_on_mono [OF same]]) (simp_all add: h2_def)
  moreover have "tree_in h3 None None u" if u: "u \<in> set ts" for u
  proof -
    have "tree_in h None None u" "set (addrs t) \<inter> set (addrs u) = {}"
      using assms(1) u by (auto simp: loose_def list_all_iff)
    moreover have "?a \<notin> set (addrs u)" using calculation(2) l_addr_in [of t] by blast
    ultimately show ?thesis
      unfolding h3_def using u by (intro in_cong(1) [OF set_at_other] in_cong(1) [OF same_on_mono [OF same]]) auto
  qed
  moreover have "without h3 (all_addrs (with_lname t (Some (b, s)) # ts)) (all_straddrs (with_lname t (Some (b, s)) # ts)) = h0"
  proof -
    have "b \<notin> set (straddrs t) \<Longrightarrow> strs h b = None" using b(2) straddrs_name(1) [of t]
      by (auto simp: h1_def restrict_map_def split: if_splits)
    then have "strs h3 |` (- set (all_straddrs (with_lname t (Some (b, s)) # ts))) = strs h |` (- set (all_straddrs (t # ts)))"
      using straddrs_name(1,2) [of t] b_new
      by (auto simp: h3_def h2_def h1_def restrict_map_def fun_eq_iff)
    moreover have "nodes h3 |` (- set (all_addrs (t # ts))) = nodes h |` (- set (all_addrs (t # ts)))"
      using l_addr_in [of t] by (auto simp: h3_def h2_def h1_def restrict_map_def fun_eq_iff)
    ultimately have "without h3 (all_addrs (t # ts)) (all_straddrs (with_lname t (Some (b, s)) # ts)) = without h (all_addrs (t # ts)) (all_straddrs (t # ts))"
      by (simp add: without_def)
    then show ?thesis using assms(1) by (simp add: loose_def)
  qed
  moreover have "distinct (all_straddrs (with_lname t (Some (b, s)) # ts))"
    using straddrs_name(2) [of t b s] straddrs_name(3) [OF t(3) b_new(1)] b_new(2) old(3) assms(1) by (auto simp: loose_def)
  ultimately have "loose h0 h3 (with_lname t (Some (b, s)) # ts)"
    using assms(1) by (auto simp: loose_def list_all_iff)
  then show ?thesis using node_in [OF n(1)] h1 dup set3 by blast
qed

lemma add_object_ok:
  assumes "loose h0 h (it # LT a ks ty vs v nm # ts)" "small h0" "jalloc_ok A" "jalloc_full A"
  shows "\<exists>h' b. cJSON_AddItemToObject_mem A (Some a) s (Some (l_addr it)) h = Some (Inr h')
    \<and> loose h0 h' (LT a (ks @ [with_lname it (Some (b, s))]) ty vs v nm # ts)"
proof -
  obtain n h1 h2 b h3 where r: "node h (Some (l_addr it)) = Inr n"
    "(if n_string n \<noteq> None then free_str (n_string n) h else Inr h) = Inr h1" "cJSON_strdup A s h1 = (h2, Some b)"
    "set_node (Some (l_addr it)) (n_string_update (\<lambda>_. Some b)) h2 = Inr h3"
    "loose h0 h3 (with_lname it (Some (b, s)) # LT a ks ty vs v nm # ts)"
    using rename_ok [OF assms, of s] by blast
  have "cJSON_AddItemToObject_mem A (Some a) s (Some (l_addr it)) h = cJSON_AddItemToArray_mem (Some a) (Some (l_addr it)) h3"
    by (simp only: cJSON_AddItemToObject_mem_def option.distinct if_False r(1-4) then_do_simps Let_def case_prod_conv)
  then show ?thesis using add_item_ok [OF r(5)] by auto
qed

end
