(* ===== verification/Cjson_edit.thy ===== *)
theory Cjson_edit
  imports Cjson_links
begin

section \<open>Building and editing JSON trees in memory\<close>

text \<open>
  The operations of \<^theory_text>\<open>Cjson_links\<close> put together: a sequence of edits of an object, as the
  program and its neighbours write them, does in memory what it does to the tree, and deleting
  the object gives back exactly what was taken. And what happens when memory runs out.
\<close>

subsection \<open>Edits\<close>

datatype jedit =
    Add_null string | Add_number string int | Add_string string string | Add_shorts string "s16 list"
  | Add_ints string "int list" | Add_strings string "string list"
  | Append_number int | Append_string string | Delete_at int | Delete_named string
  | Replace_at int string | Replace_named string int

text \<open>Each edit as calls of the library on the object at \<open>p\<close>. A replacement is made only when there
  is something to replace: the library would neither take nor free the new item otherwise.\<close>

fun edit_mem :: "jalloc \<Rightarrow> jptr \<Rightarrow> jedit \<Rightarrow> jheap \<Rightarrow> jheap res option" where
  "edit_mem A p (Add_null s) h = (let (h1, x) = cJSON_CreateNull_mem A h in cJSON_AddItemToObject_mem A p s x h1)"
| "edit_mem A p (Add_number s v) h = (let (h1, x) = cJSON_CreateNumber_mem A v h in cJSON_AddItemToObject_mem A p s x h1)"
| "edit_mem A p (Add_string s v) h = (let (h1, x) = cJSON_CreateString_mem A v h in cJSON_AddItemToObject_mem A p s x h1)"
| "edit_mem A p (Add_shorts s v) h =
     then_do (Some (cJSON_CreateShortArray_mem A v h)) (\<lambda>(h1, x). cJSON_AddItemToObject_mem A p s x h1)"
| "edit_mem A p (Add_ints s v) h =
     then_do (Some (cJSON_CreateIntArray_mem A v h)) (\<lambda>(h1, x). cJSON_AddItemToObject_mem A p s x h1)"
| "edit_mem A p (Add_strings s v) h =
     then_do (Some (cJSON_CreateStringArray_mem A v h)) (\<lambda>(h1, x). cJSON_AddItemToObject_mem A p s x h1)"
| "edit_mem A p (Append_number v) h = (let (h1, x) = cJSON_CreateNumber_mem A v h in cJSON_AddItemToArray_mem p x h1)"
| "edit_mem A p (Append_string v) h = (let (h1, x) = cJSON_CreateString_mem A v h in cJSON_AddItemToArray_mem p x h1)"
| "edit_mem A p (Delete_at i) h = cJSON_DeleteItemFromArray_mem p i h"
| "edit_mem A p (Delete_named s) h = cJSON_DeleteItemFromObject_mem p s h"
| "edit_mem A p (Replace_at i v) h = then_do (cJSON_GetArrayItem_mem p i h) (\<lambda>c.
     if c = None then Some (Inr h)
     else let (h1, x) = cJSON_CreateString_mem A v h in cJSON_ReplaceItemInArray_mem p i x h1)"
| "edit_mem A p (Replace_named s v) h = then_do (cJSON_GetObjectItem_mem p s h) (\<lambda>c.
     if c = None then Some (Inr h)
     else let (h1, x) = cJSON_CreateNumber_mem A v h in cJSON_ReplaceItemInObject_mem A p s x h1)"

text \<open>The same on trees.\<close>

fun edit :: "cJSON \<Rightarrow> jedit \<Rightarrow> cJSON" where
  "edit j (Add_null s) = cJSON_AddItemToObject j s cJSON_CreateNull"
| "edit j (Add_number s v) = cJSON_AddNumberToObject j s v"
| "edit j (Add_string s v) = cJSON_AddStringToObject j s v"
| "edit j (Add_shorts s v) = cJSON_AddItemToObject j s (cJSON_CreateShortArray v)"
| "edit j (Add_ints s v) = cJSON_AddItemToObject j s (cJSON_CreateIntArray v)"
| "edit j (Add_strings s v) = cJSON_AddItemToObject j s (cJSON_CreateStringArray v)"
| "edit j (Append_number v) = cJSON_AddItemToArray j (cJSON_CreateNumber v)"
| "edit j (Append_string v) = cJSON_AddItemToArray j (cJSON_CreateString v)"
| "edit j (Delete_at i) = cJSON_DeleteItemFromArray j i"
| "edit j (Delete_named s) = cJSON_DeleteItemFromObject j s"
| "edit j (Replace_at i v) = cJSON_ReplaceItemInArray j i (cJSON_CreateString v)"
| "edit j (Replace_named s v) = cJSON_ReplaceItemInObject j s (cJSON_CreateNumber v)"

fun edits_mem :: "jalloc \<Rightarrow> jptr \<Rightarrow> jedit list \<Rightarrow> jheap \<Rightarrow> jheap res option" where
  "edits_mem A p [] h = Some (Inr h)"
| "edits_mem A p (e # es) h = then_do (edit_mem A p e h) (edits_mem A p es)"

text \<open>The object at \<open>a\<close> is the tree \<open>j\<close>, and nothing else was taken.\<close>

definition holds :: "jheap \<Rightarrow> nat \<Rightarrow> cJSON \<Rightarrow> jheap \<Rightarrow> bool" where
  "holds h0 a j h \<longleftrightarrow> (\<exists>ks ty vs v nm. loose h0 h [LT a ks ty vs v nm] \<and> forget (LT a ks ty vs v nm) = j)"

lemma holdsI: "loose h0 h [LT a ks ty vs v nm] \<Longrightarrow> forget (LT a ks ty vs v nm) = j \<Longrightarrow> holds h0 a j h"
  unfolding holds_def by blast

lemma add_created:
  assumes "holds h0 a j h" "small h0" "jalloc_ok A" "jalloc_full A" "creates h0 mk x"
  shows "\<exists>h1 p h'. mk h = (h1, Some p) \<and> cJSON_AddItemToObject_mem A (Some a) s (Some p) h1 = Some (Inr h')
      \<and> holds h0 a (cJSON_AddItemToObject j s x) h'"
    "\<exists>h1 p h'. mk h = (h1, Some p) \<and> cJSON_AddItemToArray_mem (Some a) (Some p) h1 = Some (Inr h')
      \<and> holds h0 a (cJSON_AddItemToArray j x) h'"
proof -
  obtain ks ty vs v nm where l: "loose h0 h [LT a ks ty vs v nm]" and j: "forget (LT a ks ty vs v nm) = j"
    using assms(1) unfolding holds_def by blast
  obtain h1 t where t: "mk h = (h1, Some (l_addr t))" "loose h0 h1 (t # [LT a ks ty vs v nm])" "forget t = x"
    using assms(5) l unfolding creates_def by blast
  show "\<exists>h1 p h'. mk h = (h1, Some p) \<and> cJSON_AddItemToObject_mem A (Some a) s (Some p) h1 = Some (Inr h')
      \<and> holds h0 a (cJSON_AddItemToObject j s x) h'"
    using add_object_ok [OF t(2) assms(2-4), of s] t(1,3) j
    by (auto simp: cJSON_AddItemToObject_def intro!: holdsI)
  show "\<exists>h1 p h'. mk h = (h1, Some p) \<and> cJSON_AddItemToArray_mem (Some a) (Some p) h1 = Some (Inr h')
      \<and> holds h0 a (cJSON_AddItemToArray j x) h'"
    using add_item_ok [OF t(2)] t(1,3) j by (auto intro!: holdsI)
qed

lemma array_created:
  assumes "holds h0 a j h" "small h0" "jalloc_ok A" "jalloc_full A" "\<And>x. creates h0 (mk x) (g x)"
  shows "\<exists>h1 p h'. create_array_of A mk xs h = Inr (h1, Some p)
    \<and> cJSON_AddItemToObject_mem A (Some a) s (Some p) h1 = Some (Inr h')
    \<and> holds h0 a (cJSON_AddItemToObject j s (CJSON cJSON_Array (map g xs) None 0 None)) h'"
proof -
  obtain ks ty vs v nm where l: "loose h0 h [LT a ks ty vs v nm]" and j: "forget (LT a ks ty vs v nm) = j"
    using assms(1) unfolding holds_def by blast
  obtain h1 t where t: "create_array_of A mk xs h = Inr (h1, Some (l_addr t))"
    "loose h0 h1 (t # [LT a ks ty vs v nm])" "forget t = CJSON cJSON_Array (map g xs) None 0 None"
    using create_array_ok [of h0 A mk g, OF assms(2-5) l, of xs] by blast
  show ?thesis
    using add_object_ok [OF t(2) assms(2-4), of s] t(1,3) j
    by (auto simp: cJSON_AddItemToObject_def intro!: holdsI)
qed

text \<open>The arrays as trees, made by a loop that appends.\<close>

lemma add_items:
  "foldl (\<lambda>a n. cJSON_AddItemToArray a (g n)) (CJSON t cs vs v nm) ns = CJSON t (cs @ map g ns) vs v nm"
  by (induction ns arbitrary: cs) simp_all

lemma arrays_eq:
  "cJSON_CreateIntArray is = CJSON cJSON_Array (map cJSON_CreateNumber is) None 0 None"
  "cJSON_CreateStringArray ss = CJSON cJSON_Array (map cJSON_CreateString ss) None 0 None"
  by (simp_all add: cJSON_CreateIntArray_def cJSON_CreateStringArray_def cJSON_CreateArray_def add_items)

lemma nth_sibling_eq: "nth_sibling cs i = (if nat i < length cs then Some (cs ! nat i) else None)"
proof (induction cs i rule: nth_sibling.induct)
  case (2 c cs i)
  show ?case
  proof (cases "0 < i")
    case True
    then have "nat i = Suc (nat (i - 1))" by simp
    then show ?thesis using 2 True by simp
  qed simp
qed simp

lemma name_index_bound: "name_index cs s i = Some j \<Longrightarrow> i \<le> j \<and> nat (j - i) < length cs"
  by (induction cs arbitrary: i) (fastforce split: if_splits)+

text \<open>The children, cut at an index that exists.\<close>

lemma cut_at:
  assumes "nat i < length ks"
  obtains us c vs where "ks = us @ c # vs" "nat i = length us" "c = ks ! nat i"
  by (rule that [OF id_take_nth_drop [OF assms]]) (use assms in simp_all)

lemma loose_chain: "loose h0 h ts \<Longrightarrow> LT a ks ty vs v nm \<in> set ts \<Longrightarrow>
    \<exists>n. nodes h a = Some n \<and> n_child n = head_or None ks \<and> chain_in h None None ks"
  by (auto dest!: looseD(1))

lemma delete_at_ok:
  assumes "holds h0 a j h"
  shows "\<exists>h'. cJSON_DeleteItemFromArray_mem (Some a) i h = Some (Inr h') \<and> holds h0 a (cJSON_DeleteItemFromArray j i) h'"
proof -
  obtain ks ty vs v nm where l: "loose h0 h [LT a ks ty vs v nm]" and j: "forget (LT a ks ty vs v nm) = j"
    using assms unfolding holds_def by blast
  show ?thesis
  proof (cases "nat i < length ks")
    case True
    then obtain us c ws where k: "ks = us @ c # ws" "nat i = length us" by (rule cut_at)
    obtain h1 where h1: "cJSON_DetachItemFromArray_mem (Some a) i h = Some (Inr (h1, Some (l_addr c)))"
      "loose h0 h1 (c # [LT a (us @ ws) ty vs v nm])"
      using detach_item_ok [OF l [unfolded k(1)] k(2)] by blast
    obtain h2 where h2: "cJSON_Delete (Some (l_addr c)) h1 = Some (Inr h2)" "loose h0 h2 [LT a (us @ ws) ty vs v nm]"
      using loose_delete [OF h1(2)] by blast
    have "cJSON_DeleteItemFromArray j i = forget (LT a (us @ ws) ty vs v nm)"
      using j by (auto simp: cJSON_DeleteItemFromArray_def nth_sibling_eq k)
    then show ?thesis using h1(1) h2 by (auto simp: cJSON_DeleteItemFromArray_mem_def intro!: holdsI)
  next
    case False
    obtain n where n: "nodes h a = Some n" "n_child n = head_or None ks" "chain_in h None None ks"
      using loose_chain [OF l] by auto
    have "cJSON_DeleteItemFromArray j i = j"
      using j False by (auto simp: cJSON_DeleteItemFromArray_def nth_sibling_eq)
    moreover have "cJSON_DeleteItemFromArray_mem (Some a) i h = Some (Inr h)"
      using n item_loop_ok [OF n(3), of i] False
      by (simp add: cJSON_DeleteItemFromArray_mem_def cJSON_DetachItemFromArray_mem_def)
    ultimately show ?thesis using assms by simp
  qed
qed

text \<open>Finding by name finds what \<open>name_index\<close> finds.\<close>

lemma by_name:
  assumes "loose h0 h ts" "LT a ks ty vs v nm \<in> set ts"
  shows "\<exists>n k. node h (Some a) = Inr n \<and> name_loop h s (n_child n) 0 =
    Some (Inr (case name_index (map forget ks) s 0 of None \<Rightarrow> (None, k) | Some j \<Rightarrow> (Some (l_addr (ks ! nat j)), j)))"
proof -
  obtain n where n: "nodes h a = Some n" "n_child n = head_or None ks" "chain_in h None None ks"
    using loose_chain [OF assms] by blast
  have "head_or None (drop (nat j) ks) = Some (l_addr (ks ! nat j))" if "name_index (map forget ks) s 0 = Some j" for j
    using name_index_bound [OF that] by (simp add: Cons_nth_drop_Suc [symmetric])
  then show ?thesis using n name_loop_ok [OF n(3), of s 0]
    by (intro exI [of _ n] exI [of _ "int (length ks)"]) (simp split: option.split)
qed

lemma delete_named_ok:
  assumes "holds h0 a j h"
  shows "\<exists>h'. cJSON_DeleteItemFromObject_mem (Some a) s h = Some (Inr h') \<and> holds h0 a (cJSON_DeleteItemFromObject j s) h'"
proof -
  obtain ks ty vs v nm where l: "loose h0 h [LT a ks ty vs v nm]" and j: "forget (LT a ks ty vs v nm) = j"
    using assms unfolding holds_def by blast
  obtain n k where n: "node h (Some a) = Inr n" "name_loop h s (n_child n) 0 =
    Some (Inr (case name_index (map forget ks) s 0 of None \<Rightarrow> (None, k) | Some j \<Rightarrow> (Some (l_addr (ks ! nat j)), j)))"
    using by_name [OF l, of a ks ty vs v nm s] by auto
  have c: "jchild j = map forget ks" using j by auto
  show ?thesis
  proof (cases "name_index (map forget ks) s 0")
    case None
    then have "cJSON_DeleteItemFromObject j s = j" "cJSON_DeleteItemFromObject_mem (Some a) s h = Some (Inr h)"
      using c n by (simp_all add: cJSON_DeleteItemFromObject_def cJSON_DetachItemFromObject_def
        cJSON_DeleteItemFromObject_mem_def cJSON_DetachItemFromObject_mem_def)
    then show ?thesis using assms by simp
  next
    case (Some i)
    then have "cJSON_DeleteItemFromObject_mem (Some a) s h = cJSON_DeleteItemFromArray_mem (Some a) i h"
      "cJSON_DeleteItemFromObject j s = cJSON_DeleteItemFromArray j i"
      using c n by (simp_all add: cJSON_DeleteItemFromObject_def cJSON_DetachItemFromObject_def cJSON_DeleteItemFromArray_def
        cJSON_DeleteItemFromObject_mem_def cJSON_DetachItemFromObject_mem_def cJSON_DeleteItemFromArray_mem_def)
    then show ?thesis using delete_at_ok [OF assms, of i] by simp
  qed
qed

lemma replace_at_ok:
  assumes "loose h0 h (x # [LT a ks ty vs v nm])" "nat i < length ks"
  shows "\<exists>h'. cJSON_ReplaceItemInArray_mem (Some a) i (Some (l_addr x)) h = Some (Inr h')
    \<and> holds h0 a (cJSON_ReplaceItemInArray (forget (LT a ks ty vs v nm)) i (forget x)) h'"
proof -
  obtain us c ws where k: "ks = us @ c # ws" "nat i = length us" using assms(2) by (rule cut_at)
  obtain h' where h': "cJSON_ReplaceItemInArray_mem (Some a) i (Some (l_addr x)) h = Some (Inr h')"
    "loose h0 h' [LT a (us @ x # ws) ty vs v nm]"
    using replace_item_ok [OF assms(1) [unfolded k(1)] k(2)] by blast
  have "cJSON_ReplaceItemInArray (forget (LT a ks ty vs v nm)) i (forget x) = forget (LT a (us @ x # ws) ty vs v nm)"
    by (simp add: nth_sibling_eq k list_update_append)
  then show ?thesis using h' by (auto intro: holdsI)
qed

lemma replace_missing: "\<not> nat i < length (jchild j) \<Longrightarrow> cJSON_ReplaceItemInArray j i x = j"
  by (cases j) (simp add: nth_sibling_eq)

lemma edit_replace_at:
  assumes "holds h0 a j h" "small h0" "jalloc_ok A" "jalloc_full A"
  shows "\<exists>h'. edit_mem A (Some a) (Replace_at i s) h = Some (Inr h') \<and> holds h0 a (edit j (Replace_at i s)) h'"
proof -
  obtain ks ty vs v nm where l: "loose h0 h [LT a ks ty vs v nm]" and j: "forget (LT a ks ty vs v nm) = j"
    using assms(1) unfolding holds_def by blast
  obtain n where n: "nodes h a = Some n" "n_child n = head_or None ks" "chain_in h None None ks"
    using loose_chain [OF l] by auto
  have g: "cJSON_GetArrayItem_mem (Some a) i h = Some (Inr (head_or None (drop (nat i) ks)))"
    using n item_loop_ok [OF n(3), of i] by (simp add: cJSON_GetArrayItem_mem_def)
  show ?thesis
  proof (cases "nat i < length ks")
    case True
    obtain h1 x where x: "cJSON_CreateString_mem A s h = (h1, Some (l_addr x))" "loose h0 h1 (x # [LT a ks ty vs v nm])"
      "forget x = cJSON_CreateString s"
      using creates_string [OF assms(2-4), of s] l unfolding creates_def by blast
    have "head_or None (drop (nat i) ks) \<noteq> None" using True by (simp add: Cons_nth_drop_Suc [symmetric])
    then show ?thesis using replace_at_ok [OF x(2) True] x(1,3) g j by auto
  next
    case False
    have "length (jchild j) = length ks" using j by auto
    then have "edit j (Replace_at i s) = j" using False replace_missing by simp
    then show ?thesis using assms(1) g False by simp
  qed
qed

lemma edit_replace_named:
  assumes "holds h0 a j h" "small h0" "jalloc_ok A" "jalloc_full A"
  shows "\<exists>h'. edit_mem A (Some a) (Replace_named s w) h = Some (Inr h') \<and> holds h0 a (edit j (Replace_named s w)) h'"
proof -
  obtain ks ty vs v nm where l: "loose h0 h [LT a ks ty vs v nm]" and j: "forget (LT a ks ty vs v nm) = j"
    using assms(1) unfolding holds_def by blast
  have c: "jchild j = map forget ks" using j by auto
  obtain n k where n: "node h (Some a) = Inr n" "name_loop h s (n_child n) 0 =
    Some (Inr (case name_index (map forget ks) s 0 of None \<Rightarrow> (None, k) | Some j \<Rightarrow> (Some (l_addr (ks ! nat j)), j)))"
    using by_name [OF l, of a ks ty vs v nm s] by auto
  show ?thesis
  proof (cases "name_index (map forget ks) s 0")
    case None
    then show ?thesis using c n assms(1)
      by (simp add: cJSON_GetObjectItem_mem_def cJSON_ReplaceItemInObject_def)
  next
    case (Some i)
    have i: "nat i < length ks" using name_index_bound [OF Some] by simp
    obtain h1 x where x: "cJSON_CreateNumber_mem A w h = (h1, Some (l_addr x))" "loose h0 h1 (x # [LT a ks ty vs v nm])"
      "forget x = cJSON_CreateNumber w"
      using creates_number(1) [OF assms(2-4), of w] l unfolding creates_def by blast
    have xn: "l_name x = None" using x(3) jstring_forget [of x] by (simp add: cJSON_CreateNumber_def del: jstring_forget)
    obtain m h2 b h3 h4 where r: "node h1 (Some (l_addr x)) = Inr m"
      "(if n_string m \<noteq> None then free_str (n_string m) h1 else Inr h1) = Inr h2" "cJSON_strdup A s h2 = (h3, Some b)"
      "set_node (Some (l_addr x)) (n_string_update (\<lambda>_. Some b)) h3 = Inr h4"
      "loose h0 h4 (with_lname x (Some (b, s)) # [LT a ks ty vs v nm])"
      using rename_ok [OF x(2) assms(2-4), of s] by blast
    have mem: "x \<in> set (x # [LT a ks ty vs v nm])" by simp
    have "n_string m = None" using tree_in_node [OF looseD(1) [OF x(2) mem]] r(1) xn by (auto simp: node_def)
    then have h2: "h2 = h1" using r(2) by simp
    obtain n1 k1 where n1: "node h1 (Some a) = Inr n1" "name_loop h1 s (n_child n1) 0 =
        Some (Inr (case name_index (map forget ks) s 0 of None \<Rightarrow> (None, k1) | Some j \<Rightarrow> (Some (l_addr (ks ! nat j)), j)))"
      using by_name [OF x(2), of a ks ty vs v nm s] by auto
    obtain h5 where h5: "cJSON_ReplaceItemInArray_mem (Some a) i (Some (l_addr x)) h4 = Some (Inr h5)"
      "holds h0 a (cJSON_ReplaceItemInArray (forget (LT a ks ty vs v nm)) i (with_name (cJSON_CreateNumber w) s)) h5"
      using replace_at_ok [OF r(5) i] x(3) by auto
    have "cJSON_ReplaceItemInObject_mem A (Some a) s (Some (l_addr x)) h1 = Some (Inr h5)"
      using n1 Some r(3,4) h5(1) by (simp add: cJSON_ReplaceItemInObject_mem_def h2)
    moreover have "edit j (Replace_named s w) = cJSON_ReplaceItemInArray j i (with_name (cJSON_CreateNumber w) s)"
      using Some c by (simp add: cJSON_ReplaceItemInObject_def)
    ultimately show ?thesis using n Some x(1) h5(2) j
      by (auto simp: cJSON_GetObjectItem_mem_def)
  qed
qed

lemma edit_ok:
  assumes "holds h0 a j h" "small h0" "jalloc_ok A" "jalloc_full A"
  shows "\<exists>h'. edit_mem A (Some a) e h = Some (Inr h') \<and> holds h0 a (edit j e) h'"
proof (cases e)
  case (Add_null s)
  then show ?thesis using add_created(1) [OF assms creates_number(4) [OF assms(2-4)], of s] by auto
next
  case (Add_number s v)
  then show ?thesis using add_created(1) [OF assms creates_number(1) [OF assms(2-4)], of v s]
    by (auto simp: cJSON_AddNumberToObject_def)
next
  case (Add_string s v)
  then show ?thesis using add_created(1) [OF assms creates_string [OF assms(2-4)], of v s]
    by (auto simp: cJSON_AddStringToObject_def)
next
  case (Add_shorts s v)
  then show ?thesis
    using array_created [OF assms, where mk = "\<lambda>x :: s16. cJSON_CreateNumber_mem A (sint x)", OF creates_number(1) [OF assms(2-4)], of v s]
    by (auto simp: cJSON_CreateShortArray_mem_def short_array_eq)
next
  case (Add_ints s v)
  then show ?thesis
    using array_created [OF assms, where mk = "cJSON_CreateNumber_mem A", OF creates_number(1) [OF assms(2-4)], of v s]
    by (auto simp: cJSON_CreateIntArray_mem_def arrays_eq)
next
  case (Add_strings s v)
  then show ?thesis
    using array_created [OF assms, where mk = "cJSON_CreateString_mem A", OF creates_string [OF assms(2-4)], of v s]
    by (auto simp: cJSON_CreateStringArray_mem_def arrays_eq)
next
  case (Append_number v)
  then show ?thesis using add_created(2) [OF assms creates_number(1) [OF assms(2-4)], of v] by auto
next
  case (Append_string v)
  then show ?thesis using add_created(2) [OF assms creates_string [OF assms(2-4)], of v] by auto
next
  case (Delete_at i)
  then show ?thesis using delete_at_ok [OF assms(1), of i] by simp
next
  case (Delete_named s)
  then show ?thesis using delete_named_ok [OF assms(1), of s] by simp
next
  case (Replace_at i s)
  then show ?thesis using edit_replace_at [OF assms, of i s] by blast
next
  case (Replace_named s v)
  then show ?thesis using edit_replace_named [OF assms, of s v] by blast
qed

lemma edits_ok:
  assumes "small h0" "jalloc_ok A" "jalloc_full A"
  shows "holds h0 a j h \<Longrightarrow> \<exists>h'. edits_mem A (Some a) es h = Some (Inr h') \<and> holds h0 a (foldl edit j es) h'"
proof (induction es arbitrary: j h)
  case (Cons e es)
  obtain h1 where "edit_mem A (Some a) e h = Some (Inr h1)" "holds h0 a (edit j e) h1"
    using edit_ok [OF Cons.prems assms] by blast
  then show ?case using Cons.IH by fastforce
qed auto

lemma holds_delete: "holds h0 a j h \<Longrightarrow> cJSON_Delete (Some a) h = Some (Inr h0)"
  using loose_delete by (fastforce simp: holds_def)

lemma create_object_holds:
  assumes "small h0" "jalloc_ok A" "jalloc_full A"
  obtains h1 a where "cJSON_CreateObject_mem A h0 = (h1, Some a)" "holds h0 a cJSON_CreateObject h1"
proof -
  obtain h1 t where t: "cJSON_CreateObject_mem A h0 = (h1, Some (l_addr t))" "loose h0 h1 [t]" "forget t = cJSON_CreateObject"
    using creates_number(3) [OF assms] unfolding creates_def by (metis loose_Nil)
  show ?thesis
  proof (cases t)
    case (LT a ks ty vs v nm)
    then show ?thesis using t holdsI [of h0 h1 a ks ty vs v nm] by (intro that [of h1 a]) auto
  next
    case (LRef a b nm)
    then show ?thesis using t(2,3) by (simp add: loose_def cJSON_CreateObject_def cJSON_types)
  qed
qed

subsection \<open>References\<close>

lemma reference_type: "\<not> is_reference ty \<Longrightarrow> is_reference (ty + cJSON_IsReference)"
  using div_add_self2 [of 256 ty] by (simp add: is_reference_def cJSON_IsReference_def)

lemma create_reference_ok:
  assumes "loose h0 h ts" "t \<in> set ts" "small h0" "jalloc_ok A" "jalloc_full A"
  shows "\<exists>h1 r. create_reference A (Some (l_addr t)) h = Inr (h1, Some (l_addr r)) \<and> loose h0 h1 (r # ts) \<and> straddrs r = []
    \<and> (\<exists>a b. r = LRef a b None)"
proof -
  obtain a where a: "node_at A h = Some a" "nodes h a = None" by (rule new_node [OF assms(1,3-5)])
  obtain n where n: "nodes h (l_addr t) = Some n" using tree_in_node [OF looseD(1) [OF assms(1,2)]] by blast
  define b where "b = n\<lparr>n_string := None, n_type := (if is_reference (n_type n) then n_type n else n_type n + cJSON_IsReference),
    n_next := None, n_prev := None\<rparr>"
  define h1 where "h1 = h\<lparr>nodes := (nodes h)(a \<mapsto> b)\<rparr>"
  have x: "l_addr t \<noteq> a" using n a(2) by auto
  then have "create_reference A (Some (l_addr t)) h = Inr (h1, Some a)"
    using a(1) n by (simp add: create_reference_def cJSON_New_Item_mem_def node_def set_at_new h1_def b_def)
  moreover have new: "a \<notin> set (all_addrs ts)" using loose_dom [OF assms(1)] a(2) by auto
  have same: "same_on (- {a}) UNIV h h1" by (simp add: same_on_def h1_def)
  have "tree_in h1 None None u" if "u \<in> set ts" for u
    using same_on_tree [OF same looseD(1) [OF assms(1) that]] new that by auto
  moreover have "tree_in h1 None None (LRef a b None)"
    using reference_type [of "n_type n"] by (simp add: h1_def b_def)
  moreover have "without h1 (a # all_addrs ts) (all_straddrs ts) = h0"
  proof -
    have "nodes h1 |` (- set (a # all_addrs ts)) = nodes h |` (- set (all_addrs ts))"
      using a(2) by (auto simp: h1_def restrict_map_def fun_eq_iff)
    then have "without h1 (a # all_addrs ts) (all_straddrs ts) = without h (all_addrs ts) (all_straddrs ts)"
      by (simp add: without_def h1_def)
    then show ?thesis using assms(1) by (simp add: loose_def)
  qed
  ultimately show ?thesis using new assms(1)
    by (intro exI [of _ h1] exI [of _ "LRef a b None"]) (auto simp: loose_def list_all_iff)
qed

text \<open>An item referred to from an object survives the object, unchanged.\<close>

lemma reference_shared:
  assumes "loose h0 h [LT a ks ty vs v nm, t]" "small h0" "jalloc_ok A" "jalloc_full A"
  shows "\<exists>h1 h2. cJSON_AddItemReferenceToObject A (Some a) s (Some (l_addr t)) h = Some (Inr h1)
    \<and> cJSON_Delete (Some a) h1 = Some (Inr h2) \<and> loose h0 h2 [t]"
    "\<exists>h1 h2. cJSON_AddItemReferenceToArray A (Some a) (Some (l_addr t)) h = Some (Inr h1)
    \<and> cJSON_Delete (Some a) h1 = Some (Inr h2) \<and> loose h0 h2 [t]"
proof -
  have mem: "t \<in> set [LT a ks ty vs v nm, t]" by simp
  obtain h1 r where r: "create_reference A (Some (l_addr t)) h = Inr (h1, Some (l_addr r))" "loose h0 h1 (r # LT a ks ty vs v nm # [t])"
    using create_reference_ok [OF assms(1) mem assms(2-4)] by blast
  show "\<exists>h1 h2. cJSON_AddItemReferenceToObject A (Some a) s (Some (l_addr t)) h = Some (Inr h1)
    \<and> cJSON_Delete (Some a) h1 = Some (Inr h2) \<and> loose h0 h2 [t]"
    using add_object_ok [OF r(2) assms(2-4), of s] loose_delete r(1)
    by (fastforce simp: cJSON_AddItemReferenceToObject_def)
  show "\<exists>h1 h2. cJSON_AddItemReferenceToArray A (Some a) (Some (l_addr t)) h = Some (Inr h1)
    \<and> cJSON_Delete (Some a) h1 = Some (Inr h2) \<and> loose h0 h2 [t]"
    using add_item_ok [OF r(2)] loose_delete r(1)
    by (fastforce simp: cJSON_AddItemReferenceToArray_def)
qed

subsection \<open>Memory that runs out\<close>

text \<open>An allocator with room for so many nodes in all.\<close>

definition limited :: "nat \<Rightarrow> jalloc \<Rightarrow> bool" where
  "limited k A \<longleftrightarrow> jalloc_ok A \<and> (\<forall>h. small h \<longrightarrow> (node_at A h = None \<longleftrightarrow> k \<le> card (dom (nodes h))))"

lemma number_limited:
  assumes "limited k A" "small h"
  shows "card (dom (nodes h)) < k \<Longrightarrow> \<exists>a h1. cJSON_CreateNumber_mem A v h = (h1, Some a) \<and> small h1
      \<and> card (dom (nodes h1)) = Suc (card (dom (nodes h))) \<and> nodes h a = None \<and> dom (nodes h1) = insert a (dom (nodes h))"
    "k \<le> card (dom (nodes h)) \<Longrightarrow> cJSON_CreateNumber_mem A v h = (h, None)"
proof -
  assume c: "card (dom (nodes h)) < k"
  then obtain a where a: "node_at A h = Some a" using assms unfolding limited_def by fastforce
  then have f: "nodes h a = None" using assms unfolding limited_def jalloc_ok_def by blast
  have "finite (dom (nodes h))" "a \<notin> dom (nodes h)" using assms(2) f by (auto simp: small_def)
  then show "\<exists>a h1. cJSON_CreateNumber_mem A v h = (h1, Some a) \<and> small h1
      \<and> card (dom (nodes h1)) = Suc (card (dom (nodes h))) \<and> nodes h a = None \<and> dom (nodes h1) = insert a (dom (nodes h))"
    using a f assms(2) by (simp add: cJSON_CreateNumber_mem_def create_typed_def cJSON_New_Item_mem_def set_at_new small_def)
next
  assume "k \<le> card (dom (nodes h))"
  then have "node_at A h = None" using assms unfolding limited_def by blast
  then show "cJSON_CreateNumber_mem A v h = (h, None)"
    by (simp add: cJSON_CreateNumber_mem_def create_typed_def cJSON_New_Item_mem_def)
qed

lemma loop_without_memory:
  assumes "limited k A"
  shows "small h \<Longrightarrow> nodes h b \<noteq> None \<Longrightarrow> card (dom (nodes h)) \<le> k \<Longrightarrow> k < card (dom (nodes h)) + length xs \<Longrightarrow>
    array_loop (\<lambda>x. cJSON_CreateNumber_mem A (g x)) a (Some b) xs True h = Inl Null_pointer"
proof (induction xs arbitrary: h b)
  case (Cons x xs)
  have alive: "\<And>f. set_node (Some b) f h' = Inr (set_at b f h')" if "nodes h' b \<noteq> None" for h'
    using that by simp
  show ?case
  proof (cases "card (dom (nodes h)) < k")
    case True
    obtain c h1 where n: "cJSON_CreateNumber_mem A (g x) h = (h1, Some c)" "small h1"
      "card (dom (nodes h1)) = Suc (card (dom (nodes h)))" "nodes h c = None" "dom (nodes h1) = insert c (dom (nodes h))"
      using number_limited(1) [OF assms Cons.prems(1) True] by blast
    have b: "nodes h1 b \<noteq> None" "nodes h1 c \<noteq> None" using n(5) Cons.prems(2) by auto
    define h2 where "h2 = set_at c (n_prev_update (\<lambda>_. Some b)) (set_at b (n_next_update (\<lambda>_. Some c)) h1)"
    have h2: "suffix_object (Some b) (Some c) h1 = Inr h2"
      using b by (simp add: suffix_object_def h2_def)
    have d: "dom (nodes h2) = dom (nodes h1)" using b by (auto simp: h2_def split: if_splits)
    have "small h2" "nodes h2 c \<noteq> None" "card (dom (nodes h2)) = Suc (card (dom (nodes h)))"
      using n(2,3) d b by (simp_all add: small_def) (auto simp: h2_def)
    then have "array_loop (\<lambda>x. cJSON_CreateNumber_mem A (g x)) a (Some c) xs True h2 = Inl Null_pointer"
      using Cons.prems(4) True by (intro Cons.IH) simp_all
    then show ?thesis by (simp add: n(1) h2)
  next
    case False
    then have "cJSON_CreateNumber_mem A (g x) h = (h, None)"
      using number_limited(2) [OF assms Cons.prems(1)] Cons.prems(3) by simp
    then show ?thesis using alive [OF Cons.prems(2)] by (simp add: suffix_object_def set_node_def node_def)
  qed
qed simp

section \<open>Properties\<close>

text \<open>Allocators for examples: the first free address, and the same with room for \<open>k\<close> nodes.\<close>

definition free_addr :: "(nat \<rightharpoonup> 'a) \<Rightarrow> nat" where
  "free_addr m = (LEAST a. m a = None)"

definition first_fit :: jalloc where
  "first_fit = \<lparr>node_at = (\<lambda>h. Some (free_addr (nodes h))), str_at = (\<lambda>h. Some (free_addr (strs h)))\<rparr>"

definition room_for :: "nat \<Rightarrow> jalloc" where
  "room_for k = first_fit\<lparr>node_at := (\<lambda>h. if card (dom (nodes h)) < k then Some (free_addr (nodes h)) else None)\<rparr>"

definition no_heap :: jheap where
  "no_heap = \<lparr>nodes = Map.empty, strs = Map.empty\<rparr>"

lemma free_addr_ok: "finite (dom m) \<Longrightarrow> m (free_addr m) = None"
proof -
  assume "finite (dom m)"
  then obtain a where "a \<notin> dom m" using ex_new_if_finite [of "dom m"] by auto
  then have "m a = None" by auto
  then show ?thesis unfolding free_addr_def by (rule LeastI)
qed

lemma allocs_ok: "jalloc_ok first_fit" "jalloc_full first_fit" "limited k (room_for k)" "small no_heap"
  by (auto simp: jalloc_ok_def jalloc_full_def limited_def first_fit_def room_for_def small_def no_heap_def free_addr_ok)



text \<open>C34. No function that makes an array looks at whether its items could be allocated: when memory
  runs out among them (with room for the array but not for all of its items, of which there are
  at least two), \<open>cJSON_CreateShortArray\<close> follows a null pointer.\<close>

theorem array_runs_out:
  assumes "limited k A" "small h" "card (dom (nodes h)) < k" "k < card (dom (nodes h)) + 1 + length xs" "2 \<le> length xs"
  shows "cJSON_CreateShortArray_mem A xs h = Inl Null_pointer"
proof -
  obtain x y ys where xs: "xs = x # y # ys" using assms(5) by (cases xs; cases "tl xs") auto
  obtain a where a: "node_at A h = Some a" using assms(1-3) unfolding limited_def by fastforce
  have f: "nodes h a = None" using assms(1,2) a unfolding limited_def jalloc_ok_def by blast
  define h1 where "h1 = h\<lparr>nodes := (nodes h)(a \<mapsto> zero_node\<lparr>n_type := cJSON_Array\<rparr>)\<rparr>"
  have c: "cJSON_CreateArray_mem A h = (h1, Some a)"
    by (simp add: cJSON_CreateArray_mem_def create_typed_def cJSON_New_Item_mem_def a set_at_new h1_def)
  have s1: "small h1" "card (dom (nodes h1)) = Suc (card (dom (nodes h)))"
    using assms(2) f by (auto simp: h1_def small_def card_insert_if)
  let ?mk = "\<lambda>x :: s16. cJSON_CreateNumber_mem A (sint x)"
  have "array_loop ?mk a None xs False h1 = Inl Null_pointer"
  proof (cases "card (dom (nodes h1)) < k")
    case True
    obtain b h2 where n: "?mk x h1 = (h2, Some b)" "small h2" "card (dom (nodes h2)) = Suc (card (dom (nodes h1)))"
      "dom (nodes h2) = insert b (dom (nodes h1))"
      using number_limited(1) [OF assms(1) s1(1) True] by blast
    define h3 where "h3 = set_at a (n_child_update (\<lambda>_. Some b)) h2"
    have al: "nodes h2 a \<noteq> None" "nodes h2 b \<noteq> None" using n(4) by (auto simp: h1_def)
    have d: "dom (nodes h3) = dom (nodes h2)" using al by (auto simp: h3_def split: if_splits)
    have "small h3" "nodes h3 b \<noteq> None" "card (dom (nodes h3)) = Suc (Suc (card (dom (nodes h))))"
      using n(2,3) d al s1(2) by (simp_all add: small_def) (auto simp: h3_def)
    then have "array_loop ?mk a (Some b) (y # ys) True h3 = Inl Null_pointer"
      using True s1(2) assms(4) xs by (intro loop_without_memory [OF assms(1)]) simp_all
    then show ?thesis using al by (simp add: xs n(1) h3_def del: array_loop.simps(2)) (simp add: n(1))
  next
    case False
    then have "?mk z h = (h, None)" if "dom (nodes h) = dom (nodes h1)" "small h" for z h
      using number_limited(2) [OF assms(1) that(2)] that(1) by simp
    then show ?thesis using s1(1) by (simp add: xs set_node_def node_def suffix_object_def h1_def small_def set_at_new)
  qed
  then show ?thesis by (simp add: cJSON_CreateShortArray_mem_def create_array_of_def c)
qed

theorem array_runs_out_witness: "cJSON_CreateShortArray_mem (room_for 2) [1, 2] no_heap = Inl Null_pointer"
  by (rule array_runs_out [OF allocs_ok(3,4)]) (simp_all add: no_heap_def)

end
