(* ===== verification/Crc32.thy ===== *)
theory Crc32
  imports Cstrings
begin

unbundle bit_operations_syntax

section \<open>The hash of strings (\<open>crc32.c\<close>)\<close>

text \<open>
  The table-driven CRC with a 31-bit polynomial that the symbol table uses as its hash, with the
  table computed at the first call. The lemmas: the hash stays below $2^{31}$, so that nothing of
  it is lost in a 32-bit key, it is linear, and it does not see the eighth bit of a byte.
\<close>

definition POLY31 :: u64 where "POLY31 = 0x48000000"

record crcstate =
  crcinit_done :: bool
  CrcTable :: "u64 list"

definition crc_start :: crcstate where
  "crc_start = \<lparr>crcinit_done = False, CrcTable = replicate 128 0\<rparr>"

text \<open>\<open>for (j = 7-1; j >= 0; --j) if (i & (1 << j)) sum ^= POLY >> j;\<close>\<close>

definition crc_entry :: "nat \<Rightarrow> u64" where
  "crc_entry i = foldl (\<lambda>sum j. if bit i j then sum XOR drop_bit j POLY31 else sum) 0 (rev [0..<7])"

definition crcinit :: "crcstate \<Rightarrow> crcstate" where
  "crcinit st =
     (if crcinit_done st then st else \<lparr>crcinit_done = True, CrcTable = map crc_entry [0..<128]\<rparr>)"

definition crc_byte :: "u64 list \<Rightarrow> u64 \<Rightarrow> char \<Rightarrow> u64" where
  "crc_byte tab key c = drop_bit 7 key XOR tab ! unat ((key XOR of_nat (ch c)) AND 0x7f)"

definition crc32n :: "string \<Rightarrow> crcstate \<Rightarrow> crcstate \<times> u64" where
  "crc32n s st = (let st = crcinit st in (st, foldl (crc_byte (CrcTable st)) 0 s AND 0xFFFFFFFF))"

text \<open>The same on a string that ends at its first NUL.\<close>

definition crc32 :: "string \<Rightarrow> crcstate \<Rightarrow> crcstate \<times> u64" where
  "crc32 s st = (let st = crcinit st
     in (st, foldl (crc_byte (CrcTable st)) 0 (takeWhile (\<lambda>c. c \<noteq> CHR 0x00) s) AND 0xFFFFFFFF))"

subsection \<open>The hash\<close>

text \<open>The state between calls: the table is there as soon as it is marked so.\<close>

definition crc_ok :: "crcstate \<Rightarrow> bool" where
  "crc_ok st \<longleftrightarrow> (crcinit_done st \<longrightarrow> CrcTable st = map crc_entry [0..<128])"

definition crc_of :: "string \<Rightarrow> u64" where
  "crc_of s = snd (crc32n s crc_start)"

lemma crc_start_ok [simp]: "crc_ok crc_start"
  by (simp add: crc_ok_def crc_start_def)

lemma crcinit_ok: "crc_ok st \<Longrightarrow> CrcTable (crcinit st) = map crc_entry [0..<128] \<and> crc_ok (crcinit st)"
  by (simp add: crc_ok_def crcinit_def)

lemma crc32n_ok:
  assumes "crc_ok st"
  shows "\<exists>st'. crc32n s st = (st', crc_of s) \<and> crc_ok st'"
  using crcinit_ok [OF assms] crcinit_ok [OF crc_start_ok]
  by (simp add: crc32n_def crc_of_def Let_def)

lemma crc32_whole: "CHR 0x00 \<notin> set s \<Longrightarrow> crc32 s st = crc32n s st"
proof -
  assume "CHR 0x00 \<notin> set s"
  then have tw: "takeWhile (\<lambda>c. c \<noteq> CHR 0x00) s = s"
    by (intro takeWhile_eq_all_conv [THEN iffD2]) metis
  show ?thesis by (simp only: crc32_def crc32n_def tw)
qed

text \<open>Values of at most 31 bits\<close>

definition low31 :: "u64 \<Rightarrow> bool" where
  "low31 w \<longleftrightarrow> (\<forall>n\<ge>31. \<not> bit w n)"

lemma low31_xor: "low31 v \<Longrightarrow> low31 w \<Longrightarrow> low31 (v XOR w)"
  by (simp add: low31_def bit_xor_iff)

lemma low31_drop: "low31 w \<Longrightarrow> low31 (drop_bit n w)"
  by (simp add: low31_def bit_drop_bit_eq)

lemma low31_take: "low31 w \<Longrightarrow> 31 \<le> k \<Longrightarrow> take_bit k w = w"
  by (rule bit_eqI) (metis bit_take_bit_iff le_trans linorder_not_less low31_def)

lemma low31_iff: "take_bit 31 w = w \<Longrightarrow> low31 w"
  by (metis bit_take_bit_iff low31_def not_le)

lemma low31_entry: "low31 (crc_entry i)"
proof -
  have "low31 POLY31" by (rule low31_iff) (simp add: POLY31_def)
  then have "low31 (foldl (\<lambda>sum j. if bit i j then sum XOR drop_bit j POLY31 else sum) w js)" if "low31 w" for w js
    using that by (induction js arbitrary: w) (simp_all add: low31_xor low31_drop)
  then show ?thesis by (simp only: crc_entry_def) (simp add: low31_def)
qed

lemma crc_index: "unat ((key XOR w :: u64) AND 0x7f) < 128"
proof -
  have "(0x7f :: u64) = mask 7" by (simp add: mask_eq_exp_minus_1)
  then have "(key XOR w) AND 0x7f = take_bit 7 (key XOR w)" by (simp add: take_bit_eq_mask)
  then have "unat ((key XOR w) AND 0x7f) = take_bit 7 (unat (key XOR w))" by (simp only: unsigned_take_bit_eq)
  then show ?thesis using take_bit_nat_less_exp [of 7 "unat (key XOR w)"] by simp
qed

lemma crc_byte_eq:
  "crc_byte (map crc_entry [0..<128]) key c = drop_bit 7 key XOR crc_entry (unat ((key XOR of_nat (ch c)) AND 0x7f))"
  using crc_index [of key "of_nat (ch c)"] by (simp add: crc_byte_def)

lemma crc_fold_low31: "low31 key \<Longrightarrow> low31 (foldl (crc_byte (map crc_entry [0..<128])) key s)"
  by (induction s arbitrary: key) (simp_all add: crc_byte_eq low31_xor low31_drop low31_entry)

lemma crc_of_eq: "crc_of s = foldl (crc_byte (map crc_entry [0..<128])) 0 s"
proof -
  have l: "low31 (foldl (crc_byte (map crc_entry [0..<128])) 0 s)" by (rule crc_fold_low31) (simp add: low31_def)
  have "(0xFFFFFFFF :: u64) = mask 32" by (simp add: mask_eq_exp_minus_1)
  then have "w AND 0xFFFFFFFF = take_bit 32 w" for w :: u64 by (simp add: take_bit_eq_mask)
  then show ?thesis
    using low31_take [OF l, of 32] crcinit_ok [OF crc_start_ok] by (simp add: crc_of_def crc32n_def Let_def)
qed

lemma crc_of_bound: "unat (crc_of s) < 2 ^ 31"
proof -
  have "low31 (crc_of s)" unfolding crc_of_eq by (rule crc_fold_low31) (simp add: low31_def)
  then have "unat (crc_of s) = unat (take_bit 31 (crc_of s))" by (simp add: low31_take)
  also have "\<dots> = take_bit 31 (unat (crc_of s))" by (rule unsigned_take_bit_eq)
  finally show ?thesis using take_bit_nat_less_exp [of 31 "unat (crc_of s)"] by linarith
qed

text \<open>Bytes that agree in their low seven bits are not told apart.\<close>

lemma crc_seven_bits:
  assumes "list_all2 (\<lambda>c d. ch c mod 128 = ch d mod 128) s t"
  shows "crc_of s = crc_of t"
proof -
  have mask: "(0x7f :: u64) = mask 7" by (simp add: mask_eq_exp_minus_1)
  have k: "(key XOR of_nat (ch c) :: u64) AND 0x7f = (key XOR of_nat (ch d)) AND 0x7f"
    if "ch c mod 128 = ch d mod 128" for key :: u64 and c d
  proof -
    have "take_bit 7 (of_nat (ch c) :: u64) = take_bit 7 (of_nat (ch d))"
      using that unfolding take_bit_of_nat by (simp add: take_bit_eq_mod)
    then show ?thesis unfolding mask take_bit_eq_mask [symmetric] take_bit_xor by simp
  qed
  have step: "crc_byte tab key c = crc_byte tab key d" if "ch c mod 128 = ch d mod 128" for tab key c d
    by (simp only: crc_byte_def k [OF that])
  have "foldl (crc_byte tab) key s = foldl (crc_byte tab) key t" for tab key
    using assms
  proof (induction s t arbitrary: key rule: list_all2_induct)
    case (Cons c s d t)
    then show ?case using step [OF Cons.hyps(1)] by simp
  qed simp
  then show ?thesis by (simp add: crc_of_eq)
qed

text \<open>Seven steps of dividing by the polynomial, the way \<open>key >> 7\<close> moves the bits out. The entry of
  an index that has one bit is what the division leaves of the mirrored bit, so the table is not
  that of the division.\<close>

definition division_step :: "u64 \<Rightarrow> u64" where
  "division_step w = (if bit w 0 then drop_bit 1 w XOR POLY31 else drop_bit 1 w)"

lemma crc_table_mirrored:
  "crc_entry 1 = 0x48000000" "crc_entry 64 = 0x01200000"
  "(division_step ^^ 7) 1 = 0x01200000" "(division_step ^^ 7) 64 = 0x48000000"
  by code_simp+

end
