(* ===== verification/Spsymbol.thy ===== *)
theory Spsymbol
  imports Spstore Crc32
begin

section \<open>The symbol table (\<open>spsymbol.c\<close>)\<close>

text \<open>
  The symbol table gives every string a key of its own: entries hang in chains, one for each hash
  value, at the blocks of a splay tree, and the key of a string is the address of its entry, cut
  down to 32 bits. Entries live in memory of their own; where the allocator places them is the
  parameter \<open>place\<close>. The lemmas: whatever is entered and removed, the table holds one entry for
  each string that is in it, and none is leaked. The table is a client of \<open>block_store\<close>.
\<close>

subsection \<open>State and operations\<close>

record syment =
  se_next :: ptr
  se_namelen :: nat
  se_name :: string

type_synonym syms = "nat \<Rightarrow> syment option"

text \<open>A table: its splay tree with the memory of the blocks, the entries, and the state of the
  hash function.\<close>

record symdb =
  db_store :: spstore
  db_syms :: syms
  db_crc :: crcstate

definition symdb_start :: symdb where
  "symdb_start = \<lparr>db_store = sp_start, db_syms = Map.empty, db_crc = crc_start\<rparr>"

text \<open>\<open>(spkey_t)se\<close>\<close>

definition spkey :: "nat \<Rightarrow> u32" where
  "spkey a = of_nat a"

text \<open>The loop through a chain from \<open>se\<close>: the entry of the name, or \<open>NULL\<close>, and the entry before
  it.\<close>

partial_function (option) sym_search :: "syms \<Rightarrow> string \<Rightarrow> ptr \<Rightarrow> ptr \<Rightarrow> (ptr \<times> ptr) res option" where
  "sym_search h s se pe =
     (case se of None \<Rightarrow> Some (Inl Null_pointer)
      | Some a \<Rightarrow> (case h a of None \<Rightarrow> Some (Inl Out_of_bounds)
          | Some e \<Rightarrow>
              if se_namelen e = length s \<and> take (length s) (se_name e) = s then Some (Inr (Some a, pe))
              else if se_next e = None then Some (Inr (None, Some a))
              else sym_search h s (se_next e) (Some a)))"

text \<open>What the three functions begin with: hash, look up, walk the chain. The result is the key,
  the block, the entry found and the one before it.\<close>

definition symbol_search ::
  "string \<Rightarrow> symdb \<Rightarrow> (symdb \<times> u32 \<times> ptr \<times> ptr \<times> ptr) res option"
where
  "symbol_search s db =
     (let (st, w) = crc32n s (db_crc db); k = ucast w
      in case sps_lookup k (db_store db) of
           None \<Rightarrow> None
         | Some (Inl e) \<Rightarrow> Some (Inl e)
         | Some (Inr (sto, spl)) \<Rightarrow>
             (let db1 = db\<lparr>db_store := sto, db_crc := st\<rparr>
              in case spl of None \<Rightarrow> Some (Inr (db1, k, None, None, None))
                 | Some a \<Rightarrow>
                     map_option (map_sum id (\<lambda>(se, pe). (db1, k, Some a, se, pe)))
                       (sym_search (db_syms db) s (sps_datum sto a) None)))"

definition symbol_lookup_db_mem :: "string option \<Rightarrow> symdb \<Rightarrow> (symdb \<times> u32) res option" where
  "symbol_lookup_db_mem s db =
     (case s of None \<Rightarrow> Some (Inr (db, 0))
      | Some s \<Rightarrow> map_option (map_sum id (\<lambda>(db1, k, spl, se, pe).
          (db1, case se of None \<Rightarrow> 0 | Some a \<Rightarrow> spkey a))) (symbol_search s db))"

text \<open>A new entry is hung behind the last one of its chain, or a block is installed for it.\<close>

definition symbol_enter ::
  "(syms \<Rightarrow> nat) \<Rightarrow> (nat \<Rightarrow> spblk) \<Rightarrow> string \<Rightarrow> u32 \<Rightarrow> ptr \<Rightarrow> symdb \<Rightarrow> (symdb \<times> u32) res option"
where
  "symbol_enter place junk s k pe db =
     (let n = place (db_syms db);
          h = (db_syms db)(n \<mapsto> \<lparr>se_next = None, se_namelen = length s, se_name = s\<rparr>)
      in case pe of
           Some p \<Rightarrow> (case h p of None \<Rightarrow> Some (Inl Out_of_bounds)
             | Some e \<Rightarrow> Some (Inr (db\<lparr>db_syms := h(p \<mapsto> e\<lparr>se_next := Some n\<rparr>)\<rparr>, spkey n)))
         | None \<Rightarrow>
             (case sps_install junk k (db_store db) of
                None \<Rightarrow> None
              | Some (Inl e) \<Rightarrow> Some (Inl e)
              | Some (Inr (sto, None)) \<Rightarrow> Some (Inl Null_pointer)
              | Some (Inr (sto, Some a)) \<Rightarrow>
                  Some (map_sum id (\<lambda>sto. (db\<lparr>db_store := sto, db_syms := h\<rparr>, spkey n)) (sps_put a (Some n) sto))))"

definition symbol_db_mem ::
  "(syms \<Rightarrow> nat) \<Rightarrow> (nat \<Rightarrow> spblk) \<Rightarrow> string option \<Rightarrow> symdb \<Rightarrow> (symdb \<times> u32) res option"
where
  "symbol_db_mem place junk s db =
     (case s of None \<Rightarrow> Some (Inr (db, 0))
      | Some s \<Rightarrow>
          (case symbol_search s db of
             None \<Rightarrow> None
           | Some (Inl e) \<Rightarrow> Some (Inl e)
           | Some (Inr (db1, k, spl, Some a, pe)) \<Rightarrow> Some (Inr (db1, spkey a))
           | Some (Inr (db1, k, spl, None, pe)) \<Rightarrow> symbol_enter place junk s k pe db1))"

text \<open>Taking the entry \<open>a\<close> out of its chain\<close>

definition symbol_unlink :: "nat \<Rightarrow> ptr \<Rightarrow> nat \<Rightarrow> symdb \<Rightarrow> symdb res" where
  "symbol_unlink spl pe a db =
     (case db_syms db a of None \<Rightarrow> Inl Out_of_bounds
      | Some e \<Rightarrow>
          (case pe of
             Some p \<Rightarrow> (case db_syms db p of None \<Rightarrow> Inl Out_of_bounds
               | Some b \<Rightarrow> Inr (db\<lparr>db_syms := ((db_syms db)(p \<mapsto> b\<lparr>se_next := se_next e\<rparr>))(a := None)\<rparr>))
           | None \<Rightarrow> map_sum id (\<lambda>sto. db\<lparr>db_store := sto, db_syms := (db_syms db)(a := None)\<rparr>)
               (sps_put spl (se_next e) (db_store db))))"

definition symbol_free_db_mem :: "string option \<Rightarrow> symdb \<Rightarrow> symdb res option" where
  "symbol_free_db_mem s db =
     (case s of None \<Rightarrow> Some (Inr db)
      | Some s \<Rightarrow>
          (case symbol_search s db of
             None \<Rightarrow> None
           | Some (Inl e) \<Rightarrow> Some (Inl e)
           | Some (Inr (db1, k, None, se, pe)) \<Rightarrow> Some (Inr db1)
           | Some (Inr (db1, k, Some spl, se, pe)) \<Rightarrow>
               (case (case se of None \<Rightarrow> Inr db1 | Some a \<Rightarrow> symbol_unlink spl pe a db1) of
                  Inl e \<Rightarrow> Some (Inl e)
                | Inr db2 \<Rightarrow>
                    if sps_datum (db_store db2) spl \<noteq> None then Some (Inr db2)
                    else map_option (map_sum id (\<lambda>sto. db2\<lparr>db_store := sto\<rparr>)) (sps_delete spl (db_store db2)))))"

text \<open>\<open>symbol_null\<close> frees the chain of a block, \<open>symbol_null_db\<close> all of them and the blocks.\<close>

partial_function (option) symbol_null :: "ptr \<Rightarrow> syms \<Rightarrow> syms res option" where
  "symbol_null se h =
     (case se of None \<Rightarrow> Some (Inr h)
      | Some a \<Rightarrow> (case h a of None \<Rightarrow> Some (Inl Out_of_bounds)
          | Some e \<Rightarrow> symbol_null (se_next e) (h(a := None))))"

definition symbol_null_db :: "symdb \<Rightarrow> symdb res option" where
  "symbol_null_db db =
     (let (m, q) = db_store db;
          f = (\<lambda>a r. case r of Some (Inr h) \<Rightarrow> symbol_null (data_at (blks m) a) h | _ \<Rightarrow> r)
      in case sp_scan (blks m) f None q (Some (Inr (db_syms db))) of
           None \<Rightarrow> None
         | Some (Inl e) \<Rightarrow> Some (Inl e)
         | Some (Inr None) \<Rightarrow> None
         | Some (Inr (Some (Inl e))) \<Rightarrow> Some (Inl e)
         | Some (Inr (Some (Inr h))) \<Rightarrow>
             map_option (map_sum id (\<lambda>(m, q). db\<lparr>db_store := (m, q), db_syms := h\<rparr>)) (sp_null m q))"

text \<open>The functions for strings that end at a NUL and for the table \<open>spt_symtab\<close>, which the first
  call makes, pass on to these.\<close>

definition symbol_db :: "(syms \<Rightarrow> nat) \<Rightarrow> (nat \<Rightarrow> spblk) \<Rightarrow> string option \<Rightarrow> symdb \<Rightarrow> (symdb \<times> u32) res option" where
  "symbol_db place junk s db =
     (if s = None then Some (Inr (db, 0))
      else symbol_db_mem place junk (map_option (takeWhile (\<lambda>c. c \<noteq> CHR 0x00)) s) db)"

definition symbol_lookup_db :: "string option \<Rightarrow> symdb \<Rightarrow> (symdb \<times> u32) res option" where
  "symbol_lookup_db s db =
     (if s = None then Some (Inr (db, 0))
      else symbol_lookup_db_mem (map_option (takeWhile (\<lambda>c. c \<noteq> CHR 0x00)) s) db)"

definition symbol_free_db :: "string option \<Rightarrow> symdb \<Rightarrow> symdb res option" where
  "symbol_free_db s db =
     (if s = None then Some (Inr db)
      else symbol_free_db_mem (map_option (takeWhile (\<lambda>c. c \<noteq> CHR 0x00)) s) db)"

definition symbol ::
  "(syms \<Rightarrow> nat) \<Rightarrow> (nat \<Rightarrow> spblk) \<Rightarrow> string option \<Rightarrow> symdb option \<Rightarrow> (symdb \<times> u32) res option"
where
  "symbol place junk s spt_symtab =
     symbol_db place junk s (case spt_symtab of None \<Rightarrow> symdb_start | Some db \<Rightarrow> db)"

definition symbol_lookup :: "string option \<Rightarrow> symdb option \<Rightarrow> (symdb \<times> u32) res option" where
  "symbol_lookup s spt_symtab =
     symbol_lookup_db s (case spt_symtab of None \<Rightarrow> symdb_start | Some db \<Rightarrow> db)"

text \<open>\<open>pname\<close> follows the key as an address.\<close>

definition pname :: "u32 \<Rightarrow> symdb \<Rightarrow> string res" where
  "pname sid db = (case db_syms db (unat sid) of None \<Rightarrow> Inl Out_of_bounds | Some e \<Rightarrow> Inr (se_name e))"

subsection \<open>Chains\<close>

fun chain :: "syms \<Rightarrow> ptr \<Rightarrow> nat list \<Rightarrow> bool" where
  "chain h p [] \<longleftrightarrow> p = None"
| "chain h p (x # xs) \<longleftrightarrow> p = Some x \<and> (\<exists>e. h x = Some e \<and> chain h (se_next e) xs)"

lemma chain_None [simp]: "chain h None xs \<longleftrightarrow> xs = []"
  by (cases xs) auto

lemma sym_chain_unique: "chain h p xs \<Longrightarrow> chain h p ys \<Longrightarrow> xs = ys"
proof (induction xs arbitrary: p ys)
  case (Cons x xs)
  then show ?case by (cases ys) auto
qed auto

lemma sym_chain_frame: "(\<And>x. x \<in> set xs \<Longrightarrow> h' x = h x) \<Longrightarrow> chain h' p xs = chain h p xs"
  by (induction xs arbitrary: p) auto

lemma chain_dom: "chain h p xs \<Longrightarrow> x \<in> set xs \<Longrightarrow> \<exists>e. h x = Some e"
  by (induction xs arbitrary: p) auto

text \<open>The name an entry holds\<close>

definition names :: "syms \<Rightarrow> nat \<Rightarrow> string option" where
  "names h a = map_option se_name (h a)"

definition lens_ok :: "syms \<Rightarrow> bool" where
  "lens_ok h \<longleftrightarrow> (\<forall>a e. h a = Some e \<longrightarrow> se_namelen e = length (se_name e))"

text \<open>The search ends at the entry of the name, after those before it.\<close>

lemma search_hit:
  assumes "lens_ok h" "chain h p (us @ x # vs)" "names h x = Some s" "\<forall>u\<in>set us. names h u \<noteq> Some s"
  shows "sym_search h s p pe = Some (Inr (Some x, if us = [] then pe else Some (last us)))"
  using assms(2,4)
proof (induction us arbitrary: p pe)
  case Nil
  then show ?case
    using assms(1,3) by (subst sym_search.simps) (auto simp: names_def lens_ok_def)
next
  case (Cons u us)
  then obtain e where e: "p = Some u" "h u = Some e" "chain h (se_next e) (us @ x # vs)" by auto
  have "se_name e \<noteq> s" using Cons.prems(2) e(2) by (simp add: names_def)
  then have no: "\<not> (se_namelen e = length s \<and> take (length s) (se_name e) = s)"
    using assms(1) e(2) by (auto simp: lens_ok_def)
  have "se_next e \<noteq> None" using e(3) by (cases us) auto
  moreover have "sym_search h s (se_next e) (Some u) = Some (Inr (Some x, if us = [] then Some u else Some (last us)))"
    using Cons.IH [OF e(3)] Cons.prems(2) by simp
  ultimately show ?case using e(1,2) no by (subst sym_search.simps) auto
qed

lemma search_miss:
  assumes "lens_ok h" "chain h p xs" "xs \<noteq> []" "\<forall>u\<in>set xs. names h u \<noteq> Some s"
  shows "sym_search h s p pe = Some (Inr (None, Some (last xs)))"
  using assms(3,2,4)
proof (induction xs arbitrary: p pe rule: list_nonempty_induct)
  case (single u)
  then obtain e where e: "p = Some u" "h u = Some e" "se_next e = None" by auto
  have "\<not> (se_namelen e = length s \<and> take (length s) (se_name e) = s)"
    using assms(1) e(2) single.prems(2) by (auto simp: lens_ok_def names_def)
  then show ?case using e by (subst sym_search.simps) auto
next
  case (cons u us)
  then obtain e where e: "p = Some u" "h u = Some e" "chain h (se_next e) us" by auto
  have no: "\<not> (se_namelen e = length s \<and> take (length s) (se_name e) = s)"
    using assms(1) e(2) cons.prems(2) by (auto simp: lens_ok_def names_def)
  have "se_next e \<noteq> None" using e(3) cons.hyps by (cases us) auto
  moreover have "sym_search h s (se_next e) (Some u) = Some (Inr (None, Some (last us)))"
    using cons.IH [OF e(3)] cons.prems(2) by simp
  ultimately show ?case using e(1,2) no cons.hyps by (subst sym_search.simps) auto
qed

text \<open>A new entry behind the last one\<close>

lemma chain_append:
  assumes "chain h p xs" "xs \<noteq> []" "distinct xs" "h (last xs) = Some e"
    and h': "h' n = Some new" "se_next new = None" "h' (last xs) = Some (e\<lparr>se_next := Some n\<rparr>)"
    "\<And>x. x \<in> set (butlast xs) \<Longrightarrow> h' x = h x"
  shows "chain h' p (xs @ [n])"
  using assms(2,1,3,4) h'(3,4)
proof (induction xs arbitrary: p rule: list_nonempty_induct)
  case (single x)
  then show ?case using h'(1,2) by auto
next
  case (cons x xs)
  then obtain b where b: "p = Some x" "h x = Some b" "chain h (se_next b) xs" by auto
  have "chain h' (se_next b) (xs @ [n])"
    using cons.prems cons.hyps b(3) by (intro cons.IH) auto
  moreover have "h' x = h x" using cons.prems(5) [of x] cons.hyps by simp
  ultimately show ?case using b by simp
qed

text \<open>Taking out an entry\<close>

lemma chain_remove_first:
  assumes "chain h p (x # vs)" "distinct (x # vs)" "h x = Some e" "\<And>y. y \<noteq> x \<Longrightarrow> h' y = h y"
  shows "chain h' (se_next e) vs"
proof -
  have "chain h (se_next e) vs" using assms(1,3) by simp
  moreover have "chain h' (se_next e) vs = chain h (se_next e) vs"
  proof (rule sym_chain_frame)
    fix y assume "y \<in> set vs"
    then have "y \<noteq> x" using assms(2) by auto
    then show "h' y = h y" by (rule assms(4))
  qed
  ultimately show ?thesis by blast
qed

lemma chain_remove:
  assumes "us \<noteq> []" "chain h p (us @ x # vs)" "distinct (us @ x # vs)" "h x = Some e" "h (last us) = Some b"
    and h': "h' (last us) = Some (b\<lparr>se_next := se_next e\<rparr>)" "\<And>y. y \<noteq> x \<Longrightarrow> y \<noteq> last us \<Longrightarrow> h' y = h y"
  shows "chain h' p (us @ vs)"
  using assms(1-3,5) h'
proof (induction us arbitrary: p rule: list_nonempty_induct)
  case (single u)
  have "chain h (se_next e) vs" using single.prems(1) assms(4) by auto
  moreover have "chain h' (se_next e) vs = chain h (se_next e) vs"
  proof (rule sym_chain_frame)
    fix y assume "y \<in> set vs"
    then have "y \<noteq> x" "y \<noteq> last [u]" using single.prems(2) by auto
    then show "h' y = h y" by (rule single.prems(5))
  qed
  ultimately show ?case using single.prems by auto
next
  case (cons u us)
  then obtain c where c: "p = Some u" "h u = Some c" "chain h (se_next c) (us @ x # vs)" by auto
  have "chain h' (se_next c) (us @ vs)"
    using cons.prems cons.hyps c(3) by (intro cons.IH) auto
  moreover have "u \<noteq> x" "u \<noteq> last (u # us)" using cons.prems(2) cons.hyps by auto
  then have "h' u = h u" by (rule cons.prems(5))
  ultimately show ?case using c by simp
qed

lemma symbol_null_ok:
  "chain h p xs \<Longrightarrow> distinct xs \<Longrightarrow> symbol_null p h = Some (Inr (\<lambda>a. if a \<in> set xs then None else h a))"
proof (induction xs arbitrary: p h)
  case Nil
  then show ?case by (subst symbol_null.simps) simp
next
  case (Cons x xs)
  then obtain e where e: "p = Some x" "h x = Some e" by auto
  have ch: "chain (h(x := None)) (se_next e) xs" by (rule chain_remove_first [OF Cons.prems e(2)]) simp
  have "distinct xs" using Cons.prems(2) by simp
  then have "symbol_null (se_next e) (h(x := None)) = Some (Inr (\<lambda>a. if a \<in> set xs then None else (h(x := None)) a))"
    by (rule Cons.IH [OF ch])
  moreover have "(\<lambda>a. if a \<in> set xs then None else (h(x := None)) a) = (\<lambda>a. if a \<in> set (x # xs) then None else h a)"
    by (rule ext) simp
  moreover have "symbol_null p h = symbol_null (se_next e) (h(x := None))"
    unfolding e(1) by (subst symbol_null.simps) (simp only: option.case e(2))
  ultimately show ?case by simp
qed

subsection \<open>The table\<close>

definition hash :: "string \<Rightarrow> u32" where
  "hash s = ucast (crc_of s)"

definition table_ptr :: "ptr option \<Rightarrow> ptr" where
  "table_ptr d = (case d of None \<Rightarrow> None | Some p \<Rightarrow> p)"

lemma table_ptr_simps [simp]: "table_ptr None = None" "table_ptr (Some p) = p"
  by (simp_all add: table_ptr_def)

text \<open>\<open>C k\<close> is the chain of the hash \<open>k\<close>: it holds the entries whose names have that hash, and no
  two entries have the same name. An empty chain has no block.\<close>

definition syms_ok :: "(u32 \<Rightarrow> ptr option) \<Rightarrow> syms \<Rightarrow> (u32 \<Rightarrow> nat list) \<Rightarrow> bool" where
  "syms_ok T h C \<longleftrightarrow>
     (\<forall>k. chain h (table_ptr (T k)) (C k)) \<and> (\<forall>k. T k \<noteq> Some None) \<and> (\<forall>k. distinct (C k))
     \<and> (\<forall>k x. x \<in> set (C k) \<longleftrightarrow> (\<exists>s. names h x = Some s \<and> hash s = k))
     \<and> lens_ok h \<and> finite (dom h)
     \<and> (\<forall>x y s. names h x = Some s \<longrightarrow> names h y = Some s \<longrightarrow> x = y)"

lemma syms_okD:
  assumes "syms_ok T h C"
  shows "chain h (table_ptr (T k)) (C k)" "T k \<noteq> Some None" "distinct (C k)"
    "x \<in> set (C k) \<longleftrightarrow> (\<exists>s. names h x = Some s \<and> hash s = k)" "lens_ok h" "finite (dom h)"
    "names h x = Some s \<Longrightarrow> names h y = Some s \<Longrightarrow> x = y"
  using assms unfolding syms_ok_def by blast+

lemma syms_ok_change:
  assumes ok: "syms_ok T h C"
    and T': "\<And>j. j \<noteq> k \<Longrightarrow> T' j = T j" "T' k \<noteq> Some None"
    and h': "\<And>j x. j \<noteq> k \<Longrightarrow> x \<in> set (C j) \<Longrightarrow> h' x = h x" "lens_ok h'" "finite (dom h')"
    and chain: "chain h' (table_ptr (T' k)) xs" "distinct xs"
    and names: "\<And>x. x \<in> set xs \<longleftrightarrow> (\<exists>s. names h' x = Some s \<and> hash s = k)"
      "\<And>x s. hash s \<noteq> k \<Longrightarrow> names h' x = Some s \<longleftrightarrow> names h x = Some s"
      "\<And>x y s. names h' x = Some s \<Longrightarrow> names h' y = Some s \<Longrightarrow> x = y"
  shows "syms_ok T' h' (C(k := xs))"
proof -
  have "chain h' (table_ptr (T' j)) ((C(k := xs)) j)" for j
  proof (cases "j = k")
    case False
    then have "chain h' (table_ptr (T j)) (C j) = chain h (table_ptr (T j)) (C j)"
      by (intro sym_chain_frame h'(1))
    then show ?thesis using False syms_okD(1) [OF ok] T'(1) by simp
  qed (use chain in simp)
  moreover have "T' j \<noteq> Some None" for j
    using T' syms_okD(2) [OF ok] by (cases "j = k") auto
  moreover have "distinct ((C(k := xs)) j)" for j
    using chain(2) syms_okD(3) [OF ok] by simp
  moreover have "x \<in> set ((C(k := xs)) j) \<longleftrightarrow> (\<exists>s. names h' x = Some s \<and> hash s = j)" for j x
    using names(1) [of x] names(2) [of _ x] syms_okD(4) [OF ok, of x j] by (cases "j = k") auto
  ultimately show ?thesis using h'(2,3) names(3) unfolding syms_ok_def by blast
qed

lemma names_upd: "names (h(a \<mapsto> e)) = (names h)(a \<mapsto> se_name e)" "names (h(a := None)) = (names h)(a := None)"
  by (auto simp: names_def fun_eq_iff)

text \<open>A name that is not there gets the entry \<open>n\<close> at the end of its chain.\<close>

lemma syms_ok_enter:
  assumes ok: "syms_ok T h C" and new: "\<And>x. names h x \<noteq> Some s" "h n = None"
    and T': "\<And>j. j \<noteq> hash s \<Longrightarrow> T' j = T j" "T' (hash s) \<noteq> Some None"
    and h': "\<And>j x. j \<noteq> hash s \<Longrightarrow> x \<in> set (C j) \<Longrightarrow> h' x = h x" "lens_ok h'"
      "names h' = (names h)(n \<mapsto> s)"
    and chain: "chain h' (table_ptr (T' (hash s))) (C (hash s) @ [n])"
  shows "syms_ok T' h' (C(hash s := C (hash s) @ [n]))"
proof (rule syms_ok_change [OF ok T' h'(1,2) _ chain])
  have "dom (names g) = dom g" for g by (auto simp: names_def dom_def)
  then have "dom h' = insert n (dom h)" using arg_cong [OF h'(3), of dom] by simp
  then show "finite (dom h')" using syms_okD(6) [OF ok] by simp
  have n: "names h n = None" using new(2) by (simp add: names_def)
  have "n \<notin> set (C (hash s))"
    unfolding syms_okD(4) [OF ok] using n by simp
  then show "distinct (C (hash s) @ [n])" using syms_okD(3) [OF ok] by simp
  show "x \<in> set (C (hash s) @ [n]) \<longleftrightarrow> (\<exists>s'. names h' x = Some s' \<and> hash s' = hash s)" for x
    using syms_okD(4) [OF ok, of x "hash s"] n by (auto simp: h'(3))
  show "names h' x = Some s' \<longleftrightarrow> names h x = Some s'" if "hash s' \<noteq> hash s" for x s'
    using that n by (auto simp: h'(3))
  show "x = y" if "names h' x = Some s'" "names h' y = Some s'" for x y s'
    using that new(1) syms_okD(7) [OF ok] by (auto simp: h'(3) split: if_splits)
qed

text \<open>A name that is there loses its entry.\<close>

lemma syms_ok_leave:
  assumes ok: "syms_ok T h C" and C: "C (hash s) = us @ a # vs" and a: "names h a = Some s"
    and T': "\<And>j. j \<noteq> hash s \<Longrightarrow> T' j = T j" "T' (hash s) \<noteq> Some None"
    and h': "\<And>j x. j \<noteq> hash s \<Longrightarrow> x \<in> set (C j) \<Longrightarrow> h' x = h x" "lens_ok h'"
      "names h' = (names h)(a := None)"
    and chain: "chain h' (table_ptr (T' (hash s))) (us @ vs)"
  shows "syms_ok T' h' (C(hash s := us @ vs))"
proof (rule syms_ok_change [OF ok T' h'(1,2) _ chain])
  have "dom (names g) = dom g" for g by (auto simp: names_def dom_def)
  then have "dom h' = dom h - {a}" using arg_cong [OF h'(3), of dom] by simp
  then show "finite (dom h')" using syms_okD(6) [OF ok] by simp
  have d: "distinct (us @ a # vs)" using syms_okD(3) [OF ok, of "hash s"] C by simp
  then show "distinct (us @ vs)" by auto
  show "x \<in> set (us @ vs) \<longleftrightarrow> (\<exists>s'. names h' x = Some s' \<and> hash s' = hash s)" for x
    using syms_okD(4) [OF ok, of x "hash s"] d C by (auto simp: h'(3))
  show "names h' x = Some s' \<longleftrightarrow> names h x = Some s'" if "hash s' \<noteq> hash s" for x s'
    using that a by (auto simp: h'(3))
  show "x = y" if "names h' x = Some s'" "names h' y = Some s'" for x y s'
    using that syms_okD(7) [OF ok] by (auto simp: h'(3) split: if_splits)
qed

definition sym_ok :: "symdb \<Rightarrow> bool" where
  "sym_ok db \<longleftrightarrow> sps_inv (db_store db) \<and> crc_ok (db_crc db)
     \<and> (\<exists>C. syms_ok (sps_table (db_store db)) (db_syms db) C)"

subsection \<open>The operations\<close>

lemma names_in_chain: "syms_ok T h C \<Longrightarrow> names h a = Some s \<Longrightarrow> a \<in> set (C (hash s))"
  by (simp add: syms_okD(4))

lemma symbol_search_ok:
  assumes inv: "sps_inv (db_store db)" "crc_ok (db_crc db)" and ok: "syms_ok (sps_table (db_store db)) (db_syms db) C"
  shows "\<exists>st1 c1 se pe. symbol_search s db =
      Some (Inr (db\<lparr>db_store := st1, db_crc := c1\<rparr>, hash s, sps_find (db_store db) (hash s), se, pe))
    \<and> sps_inv st1 \<and> crc_ok c1 \<and> sps_find st1 = sps_find (db_store db) \<and> sps_table st1 = sps_table (db_store db)
    \<and> sps_datum st1 = sps_datum (db_store db)
    \<and> (case se of
         Some a \<Rightarrow> names (db_syms db) a = Some s
           \<and> (\<exists>us vs. C (hash s) = us @ a # vs \<and> pe = (if us = [] then None else Some (last us)))
       | None \<Rightarrow> (\<forall>a. names (db_syms db) a \<noteq> Some s)
           \<and> pe = (if C (hash s) = [] then None else Some (last (C (hash s)))))"
proof -
  let ?h = "db_syms db" and ?k = "hash s" and ?T = "sps_table (db_store db)"
  obtain c1 where c1: "crc32n s (db_crc db) = (c1, crc_of s)" "crc_ok c1"
    using crc32n_ok [OF inv(2)] by blast
  obtain st1 where st1: "sps_lookup ?k (db_store db) = Some (Inr (st1, sps_find (db_store db) ?k))" "sps_inv st1"
      "sps_find st1 = sps_find (db_store db)" "sps_datum st1 = sps_datum (db_store db)" "sps_table st1 = ?T"
    using sps.table_lookup [OF inv(1), of ?k] unfolding sps_table_eq by blast
  have k: "ucast (crc_of s) = ?k" by (simp add: hash_def)
  have ch: "chain ?h (table_ptr (?T ?k)) (C ?k)" by (rule syms_okD(1) [OF ok])
  show ?thesis
  proof (cases "sps_find (db_store db) ?k")
    case None
    then have "?T ?k = None" by (simp add: sps_table_def)
    then have "C ?k = []" using ch by simp
    then have "\<forall>a. names ?h a \<noteq> Some s" using names_in_chain [OF ok] by fastforce
    then show ?thesis
      using c1 st1 k None \<open>C ?k = []\<close>
      by (intro exI [of _ st1] exI [of _ c1] exI [of _ None]) (simp add: symbol_search_def)
  next
    case (Some b)
    then have T: "?T ?k = Some (sps_datum (db_store db) b)" by (simp add: sps_table_def)
    then have ch': "chain ?h (sps_datum st1 b) (C ?k)" using ch st1(4) by simp
    have ne: "C ?k \<noteq> []" using ch' T syms_okD(2) [OF ok, of ?k] st1(4) by auto
    have search: "symbol_search s db = map_option (map_sum id (\<lambda>(se, pe).
        (db\<lparr>db_store := st1, db_crc := c1\<rparr>, ?k, Some b, se, pe))) (sym_search ?h s (sps_datum st1 b) None)"
      using c1(1) st1(1) k Some by (simp add: symbol_search_def)
    show ?thesis
    proof (cases "\<exists>a. names ?h a = Some s")
      case True
      then obtain a where a: "names ?h a = Some s" by blast
      then obtain us vs where C: "C ?k = us @ a # vs" using names_in_chain [OF ok] by (meson split_list)
      have "a \<notin> set us" using syms_okD(3) [OF ok, of ?k] C by simp
      then have "\<forall>u\<in>set us. names ?h u \<noteq> Some s" using syms_okD(7) [OF ok a] by blast
      then have "sym_search ?h s (sps_datum st1 b) None = Some (Inr (Some a, if us = [] then None else Some (last us)))"
        using search_hit [OF syms_okD(5) [OF ok] ch' [unfolded C] a] by blast
      then have "symbol_search s db = Some (Inr (db\<lparr>db_store := st1, db_crc := c1\<rparr>, ?k, sps_find (db_store db) ?k,
          Some a, if us = [] then None else Some (last us)))"
        using search Some by simp
      moreover have "case Some a of
          Some a \<Rightarrow> names ?h a = Some s
            \<and> (\<exists>us' vs. C ?k = us' @ a # vs
                \<and> (if us = [] then None else Some (last us)) = (if us' = [] then None else Some (last us')))
        | None \<Rightarrow> (\<forall>a. names ?h a \<noteq> Some s)
            \<and> (if us = [] then None else Some (last us)) = (if C ?k = [] then None else Some (last (C ?k)))"
        using a C by (simp only: option.case) blast
      ultimately show ?thesis using st1(2-5) c1(2) by blast
    next
      case False
      then have "sym_search ?h s (sps_datum st1 b) None = Some (Inr (None, Some (last (C ?k))))"
        using search_miss [OF syms_okD(5) [OF ok] ch' ne] by blast
      then show ?thesis using search False ne c1(2) st1 Some
        by (intro exI [of _ st1] exI [of _ c1] exI [of _ None] exI [of _ "Some (last (C ?k))"]) simp
    qed
  qed
qed

text \<open>The key of a string in a table of names: that of its entry, 0 when it has none.\<close>

definition key_for :: "(nat \<Rightarrow> string option) \<Rightarrow> string \<Rightarrow> u32 \<Rightarrow> bool" where
  "key_for N s k \<longleftrightarrow> (if \<forall>a. N a \<noteq> Some s then k = 0 else \<exists>a. N a = Some s \<and> k = spkey a)"

lemma symbol_lookup_ok:
  assumes "sym_ok db"
  shows "\<exists>db' k. symbol_lookup_db_mem (Some s) db = Some (Inr (db', k)) \<and> key_for (names (db_syms db)) s k
    \<and> sym_ok db' \<and> db_syms db' = db_syms db"
proof -
  obtain C where inv: "sps_inv (db_store db)" "crc_ok (db_crc db)"
      and ok: "syms_ok (sps_table (db_store db)) (db_syms db) C"
    using assms by (auto simp: sym_ok_def)
  obtain st1 c1 se pe where s: "symbol_search s db =
      Some (Inr (db\<lparr>db_store := st1, db_crc := c1\<rparr>, hash s, sps_find (db_store db) (hash s), se, pe))"
      "sps_inv st1" "crc_ok c1" "sps_table st1 = sps_table (db_store db)"
      and se: "case se of
         Some a \<Rightarrow> names (db_syms db) a = Some s
           \<and> (\<exists>us vs. C (hash s) = us @ a # vs \<and> pe = (if us = [] then None else Some (last us)))
       | None \<Rightarrow> (\<forall>a. names (db_syms db) a \<noteq> Some s)
           \<and> pe = (if C (hash s) = [] then None else Some (last (C (hash s))))"
    using symbol_search_ok [OF inv ok, of s] by blast
  have "key_for (names (db_syms db)) s (case se of None \<Rightarrow> 0 | Some a \<Rightarrow> spkey a)"
    using se by (cases se) (auto simp: key_for_def)
  moreover have "sym_ok (db\<lparr>db_store := st1, db_crc := c1\<rparr>)"
    using s(2-4) ok by (auto simp: sym_ok_def)
  ultimately show ?thesis using s(1) by (simp add: symbol_lookup_db_mem_def)
qed

text \<open>Where the allocator puts a new entry: at an address that is free.\<close>

definition place_ok :: "(syms \<Rightarrow> nat) \<Rightarrow> bool" where
  "place_ok place \<longleftrightarrow> (\<forall>h. finite (dom h) \<longrightarrow> h (place h) = None)"

lemma symbol_enter_ok:
  assumes inv: "sps_inv (db_store db)" "crc_ok (db_crc db)"
    and ok: "syms_ok (sps_table (db_store db)) (db_syms db) C"
    and new: "\<And>x. names (db_syms db) x \<noteq> Some s" and place: "place_ok place"
    and pe: "pe = (if C (hash s) = [] then None else Some (last (C (hash s))))"
  shows "\<exists>db' n. symbol_enter place junk s (hash s) pe db = Some (Inr (db', spkey n)) \<and> sym_ok db'
    \<and> db_syms db n = None \<and> names (db_syms db') = (names (db_syms db))(n \<mapsto> s)"
proof -
  let ?h = "db_syms db" and ?k = "hash s" and ?T = "sps_table (db_store db)"
  define n where "n = place ?h"
  define new_ent where "new_ent = \<lparr>se_next = None, se_namelen = length s, se_name = s\<rparr>"
  have n: "?h n = None" using place syms_okD(6) [OF ok] by (simp add: place_ok_def n_def)
  have lens: "lens_ok ?h" by (rule syms_okD(5) [OF ok])
  show ?thesis
  proof (cases "C ?k = []")
    case True
    obtain st2 a st3 where st: "sps_install junk ?k (db_store db) = Some (Inr (st2, Some a))"
        "sps_put a (Some n) st2 = Inr st3" "sps_inv st3" "sps_table st3 = ?T(?k \<mapsto> Some n)"
      using sps.table_enter [OF inv(1), of junk ?k "Some n"] unfolding sps_table_eq by blast
    let ?h' = "?h(n \<mapsto> new_ent)"
    have names': "names ?h' = (names ?h)(n \<mapsto> s)" by (simp add: names_upd new_ent_def)
    have "syms_ok (?T(?k \<mapsto> Some n)) ?h' (C(?k := C ?k @ [n]))"
    proof (rule syms_ok_enter [OF ok new n])
      show "?h' x = ?h x" if "x \<in> set (C j)" for j x
        using chain_dom [OF syms_okD(1) [OF ok] that] n by auto
      show "lens_ok ?h'" using lens by (auto simp: lens_ok_def new_ent_def)
      show "chain ?h' (table_ptr ((?T(?k \<mapsto> Some n)) ?k)) (C ?k @ [n])"
        using True by (simp add: new_ent_def)
    qed (use names' in auto)
    moreover have "symbol_enter place junk s ?k pe db = Some (Inr (db\<lparr>db_store := st3, db_syms := ?h'\<rparr>, spkey n))"
      using st(1,2) True pe by (simp add: symbol_enter_def n_def [symmetric] new_ent_def Let_def)
    ultimately show ?thesis
      using st(3,4) inv(2) n names'
      by (intro exI [of _ "db\<lparr>db_store := st3, db_syms := ?h'\<rparr>"] exI [of _ n]) (auto simp: sym_ok_def)
  next
    case False
    let ?l = "last (C ?k)"
    have l: "?l \<in> set (C ?k)" using False by simp
    then obtain e where e: "?h ?l = Some e" using chain_dom [OF syms_okD(1) [OF ok]] by blast
    then have ne: "?l \<noteq> n" using n by auto
    let ?h' = "(?h(n \<mapsto> new_ent))(?l \<mapsto> e\<lparr>se_next := Some n\<rparr>)"
    have nl: "names ?h ?l = Some (se_name e)" using e by (simp add: names_def)
    have names': "names ?h' = (names ?h)(n \<mapsto> s)"
      using nl ne by (simp add: names_upd new_ent_def fun_eq_iff)
    have "syms_ok ?T ?h' (C(?k := C ?k @ [n]))"
    proof (rule syms_ok_enter [OF ok new n])
      show "?T ?k \<noteq> Some None" by (rule syms_okD(2) [OF ok])
      show "?h' x = ?h x" if j: "j \<noteq> ?k" and x: "x \<in> set (C j)" for j x
      proof -
        have "x \<noteq> n" using chain_dom [OF syms_okD(1) [OF ok] x] n by auto
        moreover have "x \<noteq> ?l" using x l j unfolding syms_okD(4) [OF ok] by auto
        ultimately show ?thesis by simp
      qed
      show "lens_ok ?h'" using lens e by (auto simp: lens_ok_def new_ent_def)
      show "names ?h' = (names ?h)(n \<mapsto> s)" by (rule names')
      have "x \<noteq> n \<and> x \<noteq> ?l" if "x \<in> set (butlast (C ?k))" for x
      proof -
        have "distinct (butlast (C ?k) @ [?l])" using syms_okD(3) [OF ok, of ?k] False by simp
        then have "x \<noteq> ?l" using that by auto
        moreover have "x \<noteq> n" using chain_dom [OF syms_okD(1) [OF ok] in_set_butlastD [OF that]] n by auto
        ultimately show ?thesis by blast
      qed
      then show "chain ?h' (table_ptr (?T ?k)) (C ?k @ [n])"
        using ne by (intro chain_append [OF syms_okD(1) [OF ok] False syms_okD(3) [OF ok] e, where new = new_ent])
          (simp_all add: new_ent_def)
    qed simp
    moreover have "symbol_enter place junk s ?k pe db = Some (Inr (db\<lparr>db_syms := ?h'\<rparr>, spkey n))"
      using e False pe ne by (simp add: symbol_enter_def n_def [symmetric] new_ent_def Let_def)
    ultimately show ?thesis
      using inv n names' by (intro exI [of _ "db\<lparr>db_syms := ?h'\<rparr>"] exI [of _ n]) (auto simp: sym_ok_def)
  qed
qed

lemma symbol_enter_or_find:
  assumes "sym_ok db" "place_ok place"
  shows "\<exists>db' n. symbol_db_mem place junk (Some s) db = Some (Inr (db', spkey n)) \<and> sym_ok db'
    \<and> (if \<forall>a. names (db_syms db) a \<noteq> Some s
        then db_syms db n = None \<and> names (db_syms db') = (names (db_syms db))(n \<mapsto> s)
        else names (db_syms db) n = Some s \<and> db_syms db' = db_syms db)"
proof -
  obtain C where inv: "sps_inv (db_store db)" "crc_ok (db_crc db)"
      and ok: "syms_ok (sps_table (db_store db)) (db_syms db) C"
    using assms(1) by (auto simp: sym_ok_def)
  obtain st1 c1 se pe where s: "symbol_search s db =
      Some (Inr (db\<lparr>db_store := st1, db_crc := c1\<rparr>, hash s, sps_find (db_store db) (hash s), se, pe))"
      "sps_inv st1" "crc_ok c1" "sps_table st1 = sps_table (db_store db)"
      and se: "case se of
         Some a \<Rightarrow> names (db_syms db) a = Some s
           \<and> (\<exists>us vs. C (hash s) = us @ a # vs \<and> pe = (if us = [] then None else Some (last us)))
       | None \<Rightarrow> (\<forall>a. names (db_syms db) a \<noteq> Some s)
           \<and> pe = (if C (hash s) = [] then None else Some (last (C (hash s))))"
    using symbol_search_ok [OF inv ok, of s] by blast
  let ?db = "db\<lparr>db_store := st1, db_crc := c1\<rparr>"
  show ?thesis
  proof (cases se)
    case None
    have "\<exists>db' n. symbol_enter place junk s (hash s) pe ?db = Some (Inr (db', spkey n)) \<and> sym_ok db'
        \<and> db_syms ?db n = None \<and> names (db_syms db') = (names (db_syms ?db))(n \<mapsto> s)"
      using s(2-4) ok se None by (intro symbol_enter_ok [OF _ _ _ _ assms(2), where C = C]) simp_all
    then show ?thesis using s(1) se None by (simp add: symbol_db_mem_def)
  next
    case (Some a)
    have "sym_ok ?db" using s(2-4) ok by (auto simp: sym_ok_def)
    then show ?thesis using s(1) se Some
      by (intro exI [of _ ?db] exI [of _ a]) (auto simp: symbol_db_mem_def)
  qed
qed

lemma symbol_unlink_ok:
  assumes inv: "sps_inv (db_store db)" "crc_ok (db_crc db)"
    and ok: "syms_ok (sps_table (db_store db)) (db_syms db) C"
    and a: "names (db_syms db) a = Some s" and C: "C (hash s) = us @ a # vs"
    and b: "sps_find (db_store db) (hash s) = Some b"
  shows "\<exists>db2 C'. symbol_unlink b (if us = [] then None else Some (last us)) a db = Inr db2
    \<and> sps_inv (db_store db2) \<and> db_crc db2 = db_crc db \<and> sps_find (db_store db2) = sps_find (db_store db)
    \<and> names (db_syms db2) = (names (db_syms db))(a := None)
    \<and> (if us @ vs = [] then sps_datum (db_store db2) b = None
          \<and> syms_ok ((sps_table (db_store db2))(hash s := None)) (db_syms db2) C'
        else sps_datum (db_store db2) b \<noteq> None \<and> syms_ok (sps_table (db_store db2)) (db_syms db2) C')"
proof -
  let ?h = "db_syms db" and ?k = "hash s" and ?T = "sps_table (db_store db)"
  have ch: "chain ?h (table_ptr (?T ?k)) (us @ a # vs)" "distinct (us @ a # vs)"
    using syms_okD(1,3) [OF ok, of ?k] C by simp_all
  obtain e where e: "?h a = Some e" using a by (auto simp: names_def)
  have lens: "lens_ok ?h" by (rule syms_okD(5) [OF ok])
  have T: "?T ?k = Some (sps_datum (db_store db) b)" using b by (simp add: sps_table_def)
  have ne: "x \<noteq> y" if "j \<noteq> ?k" "x \<in> set (C j)" "y \<in> set (C ?k)" for j x y
    using that unfolding syms_okD(4) [OF ok] by auto
  show ?thesis
  proof (cases "us = []")
    case False
    let ?l = "last us"
    have l: "?l \<in> set us" using False by simp
    then obtain c where c: "?h ?l = Some c" using chain_dom [OF ch(1), of ?l] by auto
    have la: "?l \<noteq> a" using l ch(2) by auto
    let ?h' = "(?h(?l \<mapsto> c\<lparr>se_next := se_next e\<rparr>))(a := None)"
    have "names ?h ?l = Some (se_name c)" using c by (simp add: names_def)
    then have names': "names ?h' = (names ?h)(a := None)" by (simp add: names_upd fun_eq_iff)
    have "syms_ok ?T ?h' (C(?k := us @ vs))"
    proof (rule syms_ok_leave [OF ok C a])
      show "?T ?k \<noteq> Some None" by (rule syms_okD(2) [OF ok])
      show "?h' x = ?h x" if "j \<noteq> ?k" "x \<in> set (C j)" for j x
      proof -
        have "x \<noteq> a" "x \<noteq> ?l" using ne [OF that] C l by auto
        then show ?thesis by simp
      qed
      show "lens_ok ?h'" using lens c by (auto simp: lens_ok_def)
      show "names ?h' = (names ?h)(a := None)" by (rule names')
      show "chain ?h' (table_ptr (?T ?k)) (us @ vs)"
        using la by (intro chain_remove [OF False ch e c]) simp_all
    qed simp
    moreover have "sps_datum (db_store db) b \<noteq> None" using T syms_okD(2) [OF ok, of ?k] by simp
    moreover have "symbol_unlink b (Some ?l) a db = Inr (db\<lparr>db_syms := ?h'\<rparr>)"
      using e c by (simp add: symbol_unlink_def)
    ultimately show ?thesis using False inv names'
      by (intro exI [of _ "db\<lparr>db_syms := ?h'\<rparr>"] exI [of _ "C(?k := us @ vs)"]) simp
  next
    case True
    obtain st2 where st2: "sps_put b (se_next e) (db_store db) = Inr st2" "sps_inv st2" "sps_find st2 = sps_find (db_store db)"
        "sps_datum st2 = (sps_datum (db_store db))(b := se_next e)" "sps_table st2 = ?T(?k \<mapsto> se_next e)"
      using sps.table_put [OF inv(1) b, of "se_next e"] unfolding sps_table_eq by blast
    let ?h' = "?h(a := None)"
    let ?T' = "if vs = [] then ?T(?k := None) else ?T(?k \<mapsto> se_next e)"
    have names': "names ?h' = (names ?h)(a := None)" by (simp add: names_upd)
    have chv: "chain ?h (se_next e) vs" using ch(1) e True by simp
    have nx: "se_next e = None \<longleftrightarrow> vs = []" using chv by (cases vs) auto
    have "syms_ok ?T' ?h' (C(?k := us @ vs))"
    proof (rule syms_ok_leave [OF ok C a])
      show "?T' ?k \<noteq> Some None" using nx by simp
      show "?h' x = ?h x" if "j \<noteq> ?k" "x \<in> set (C j)" for j x using ne [OF that, of a] C by simp
      show "lens_ok ?h'" using lens by (auto simp: lens_ok_def)
      show "names ?h' = (names ?h)(a := None)" by (rule names')
      have "chain ?h' (se_next e) vs"
        using ch True by (intro chain_remove_first [of ?h _ a vs e, OF _ _ e]) simp_all
      then show "chain ?h' (table_ptr (?T' ?k)) (us @ vs)" using True nx by simp
    qed simp
    moreover have "symbol_unlink b None a db = Inr (db\<lparr>db_store := st2, db_syms := ?h'\<rparr>)"
      using e st2(1) by (simp add: symbol_unlink_def)
    ultimately show ?thesis using True st2 names' nx
      by (intro exI [of _ "db\<lparr>db_store := st2, db_syms := ?h'\<rparr>"] exI [of _ "C(?k := us @ vs)"])
        (cases "vs = []", simp_all)
  qed
qed

lemma symbol_free_ok:
  assumes "sym_ok db"
  shows "\<exists>db'. symbol_free_db_mem (Some s) db = Some (Inr db') \<and> sym_ok db'
    \<and> names (db_syms db') = (\<lambda>a. if names (db_syms db) a = Some s then None else names (db_syms db) a)"
proof -
  obtain C where inv: "sps_inv (db_store db)" "crc_ok (db_crc db)"
      and ok: "syms_ok (sps_table (db_store db)) (db_syms db) C"
    using assms(1) by (auto simp: sym_ok_def)
  obtain st1 c1 se pe where s: "symbol_search s db =
      Some (Inr (db\<lparr>db_store := st1, db_crc := c1\<rparr>, hash s, sps_find (db_store db) (hash s), se, pe))"
      "sps_inv st1" "crc_ok c1" "sps_find st1 = sps_find (db_store db)" "sps_table st1 = sps_table (db_store db)"
      "sps_datum st1 = sps_datum (db_store db)"
      and se: "case se of
         Some a \<Rightarrow> names (db_syms db) a = Some s
           \<and> (\<exists>us vs. C (hash s) = us @ a # vs \<and> pe = (if us = [] then None else Some (last us)))
       | None \<Rightarrow> (\<forall>a. names (db_syms db) a \<noteq> Some s)
           \<and> pe = (if C (hash s) = [] then None else Some (last (C (hash s))))"
    using symbol_search_ok [OF inv ok, of s] by blast
  let ?db = "db\<lparr>db_store := st1, db_crc := c1\<rparr>"
  have ok1: "syms_ok (sps_table (db_store ?db)) (db_syms ?db) C" using ok s(5) by simp
  have sok: "sym_ok ?db" using s(2,3) ok1 by (auto simp: sym_ok_def)
  show ?thesis
  proof (cases se)
    case None
    then have none: "names (db_syms db) a \<noteq> Some s" for a using se by simp
    have "symbol_free_db_mem (Some s) db = Some (Inr ?db)"
    proof (cases "sps_find (db_store db) (hash s)")
      case (Some b)
      then have "sps_datum st1 b \<noteq> None" using syms_okD(2) [OF ok, of "hash s"] s(6) by (simp add: sps_table_def)
      then show ?thesis using s(1) None Some by (simp add: symbol_free_db_mem_def)
    qed (use s(1) None in \<open>simp add: symbol_free_db_mem_def\<close>)
    then show ?thesis using sok none by (intro exI [of _ ?db]) simp
  next
    case (Some a)
    then obtain us vs where a: "names (db_syms ?db) a = Some s" "C (hash s) = us @ a # vs"
        "pe = (if us = [] then None else Some (last us))" using se by auto
    have "names (db_syms db) x = Some s \<longleftrightarrow> x = a" for x using a(1) syms_okD(7) [OF ok] by auto
    then have nm: "(\<lambda>x. if names (db_syms db) x = Some s then None else names (db_syms db) x) = (names (db_syms db))(a := None)"
      by (simp add: fun_eq_iff)
    have "sps_find (db_store db) (hash s) \<noteq> None"
    proof
      assume "sps_find (db_store db) (hash s) = None"
      then have "chain (db_syms db) None (us @ a # vs)"
        using syms_okD(1) [OF ok, of "hash s"] a(2) by (simp add: sps_table_def)
      then show False by simp
    qed
    then obtain b where b: "sps_find (db_store ?db) (hash s) = Some b" using s(4) by auto
    obtain db2 C' where u: "symbol_unlink b pe a ?db = Inr db2" "sps_inv (db_store db2)" "db_crc db2 = c1"
        "sps_find (db_store db2) = sps_find (db_store db)" "names (db_syms db2) = (names (db_syms db))(a := None)"
        "if us @ vs = [] then sps_datum (db_store db2) b = None
          \<and> syms_ok ((sps_table (db_store db2))(hash s := None)) (db_syms db2) C'
         else sps_datum (db_store db2) b \<noteq> None \<and> syms_ok (sps_table (db_store db2)) (db_syms db2) C'"
      using symbol_unlink_ok [OF _ _ ok1 a(1,2) b] s(2-4) a(3) by auto
    have b1: "sps_find (db_store db) (hash s) = Some b" using b s(4) by simp
    show ?thesis
    proof (cases "us @ vs = []")
      case True
      have fb: "sps_find (db_store db2) (hash s) = Some b" using u(4) b1 by simp
      obtain st3 where st3: "sps_delete b (db_store db2) = Some (Inr st3)" "sps_inv st3"
          "sps_table st3 = (sps_table (db_store db2))(hash s := None)"
        using sps.table_delete [OF u(2) fb] unfolding sps_table_eq by blast
      have "symbol_free_db_mem (Some s) db = Some (Inr (db2\<lparr>db_store := st3\<rparr>))"
        using s(1) b1 Some u(1,6) True st3(1) by (simp add: symbol_free_db_mem_def)
      moreover have "sym_ok (db2\<lparr>db_store := st3\<rparr>)"
        using st3(2,3) u(3,6) s(3) True by (auto simp: sym_ok_def)
      ultimately show ?thesis using u(5) nm by (intro exI [of _ "db2\<lparr>db_store := st3\<rparr>"]) simp
    next
      case False
      have "symbol_free_db_mem (Some s) db = Some (Inr db2)"
        using s(1) b1 Some u(1,6) False by (simp add: symbol_free_db_mem_def del: append_is_Nil_conv)
      moreover have "sym_ok db2" using u(2,3,6) s(3) False by (auto simp: sym_ok_def)
      ultimately show ?thesis using u(5) nm by (intro exI [of _ db2]) simp
    qed
  qed
qed

subsection \<open>Emptying the table\<close>

definition null_step :: "heap \<Rightarrow> nat \<Rightarrow> syms res option \<Rightarrow> syms res option" where
  "null_step hp a r = (case r of Some (Inr h) \<Rightarrow> symbol_null (data_at hp a) h | _ \<Rightarrow> r)"

lemma null_fold:
  assumes "\<And>b. b \<in> set bs \<Longrightarrow> chain h (data_at hp b) (D b) \<and> distinct (D b)" "distinct bs"
    and "\<And>b c. b \<in> set bs \<Longrightarrow> c \<in> set bs \<Longrightarrow> b \<noteq> c \<Longrightarrow> set (D b) \<inter> set (D c) = {}"
  shows "fold (null_step hp) bs (Some (Inr h)) = Some (Inr (\<lambda>a. if a \<in> (\<Union>b\<in>set bs. set (D b)) then None else h a))"
  using assms
proof (induction bs arbitrary: h)
  case (Cons b bs)
  let ?h1 = "\<lambda>a. if a \<in> set (D b) then None else h a"
  have b: "null_step hp b (Some (Inr h)) = Some (Inr ?h1)"
    using Cons.prems(1) [of b] symbol_null_ok [of h "data_at hp b" "D b"] by (simp add: null_step_def)
  have "chain ?h1 (data_at hp c) (D c) \<and> distinct (D c)" if c: "c \<in> set bs" for c
  proof -
    have "c \<noteq> b" using c Cons.prems(2) by auto
    then have "set (D c) \<inter> set (D b) = {}" using Cons.prems(3) [of c b] c by simp
    then have "chain ?h1 (data_at hp c) (D c) = chain h (data_at hp c) (D c)" by (intro sym_chain_frame) auto
    then show ?thesis using Cons.prems(1) [of c] c by simp
  qed
  then have "fold (null_step hp) bs (Some (Inr ?h1))
      = Some (Inr (\<lambda>a. if a \<in> (\<Union>b\<in>set bs. set (D b)) then None else ?h1 a))"
    using Cons.prems(2,3) by (intro Cons.IH) auto
  moreover have "(\<lambda>a. if a \<in> (\<Union>b\<in>set bs. set (D b)) then None else ?h1 a)
      = (\<lambda>a. if a \<in> (\<Union>c\<in>set (b # bs). set (D c)) then None else h a)" by (rule ext) simp
  ultimately show ?case using b by simp
qed simp

lemma symbol_null_db_ok:
  assumes "sym_ok db"
  shows "\<exists>db'. symbol_null_db db = Some (Inr db') \<and> sym_ok db' \<and> db_syms db' = Map.empty
    \<and> sps_table (db_store db') = Map.empty"
proof -
  obtain C where inv: "sps_inv (db_store db)" "crc_ok (db_crc db)"
      and ok: "syms_ok (sps_table (db_store db)) (db_syms db) C"
    using assms(1) by (auto simp: sym_ok_def)
  obtain m q where mq: "db_store db = (m, q)" by (cases "db_store db")
  obtain t used where t: "tree_ok (blks m) q t" "mem_ok m used" "set_tree t \<subseteq> used" "eltscnt q = of_nat (size t)"
    using inv(1) mq by (auto simp: sps_inv_def)
  let ?h = "db_syms db" and ?key = "key_at (blks m)"
  have tab: "sps_table (m, q) (?key b) = Some (data_at (blks m) b)" if "b \<in> set_tree t" for b
    using sp_find_iff [OF t(1), of "?key b" b] that by (simp add: sps_table_def sps_find_def sps_datum_def)
  have chains: "chain ?h (data_at (blks m) b) (C (?key b)) \<and> distinct (C (?key b))" if "b \<in> set (inorder t)" for b
    using syms_okD(1,3) [OF ok, of "?key b"] tab [of b] that mq by simp
  have disj: "set (C (?key b)) \<inter> set (C (?key c)) = {}" if "b \<in> set (inorder t)" "c \<in> set (inorder t)" "b \<noteq> c" for b c
  proof -
    have "?key b \<noteq> ?key c" using key_at_inj [OF t(1)] that by auto
    then show ?thesis unfolding disjoint_iff syms_okD(4) [OF ok] by auto
  qed
  have all: "?h a = None" if out: "a \<notin> (\<Union>b\<in>set (inorder t). set (C (?key b)))" for a
  proof (rule ccontr)
    assume "?h a \<noteq> None"
    then obtain s where a: "a \<in> set (C (hash s))"
      using syms_okD(4) [OF ok] by (auto simp: names_def)
    have "sps_table (m, q) (hash s) \<noteq> None"
    proof
      assume "sps_table (m, q) (hash s) = None"
      then have "chain ?h None (C (hash s))" using syms_okD(1) [OF ok, of "hash s"] mq by simp
      then show False using a by simp
    qed
    then obtain b where "sp_find (blks m) q (hash s) = Some b" by (auto simp: sps_table_def sps_find_def)
    then have "b \<in> set_tree t" "?key b = hash s" using sp_find_iff [OF t(1)] by blast+
    then show False using out a by auto
  qed
  have "fold (null_step (blks m)) (inorder t) (Some (Inr ?h)) = Some (Inr Map.empty)"
    using null_fold [of "inorder t" ?h "blks m" "\<lambda>b. C (?key b)", OF chains tree_ok_distinct [OF t(1)] disj] all
    by (simp add: fun_eq_iff)
  then have scan: "sp_scan (blks m) (null_step (blks m)) None q (Some (Inr ?h)) = Some (Inr (Some (Inr Map.empty)))"
    using sp_scan_ok(1) [OF t(1), of "null_step (blks m)" "Some (Inr ?h)"] by simp
  obtain m' q' where nul: "sp_null m q = Some (Inr (m', q'))" "tree_ok (blks m') q' Leaf"
      "mem_ok m' (used - set_tree t)" "eltscnt q' = 0"
    using sp_null_ok [OF t(1-3)] t(4) by blast
  have inv': "sps_inv (m', q')"
    unfolding sps_inv_def using nul(2-4) by (intro exI [of _ Leaf] exI [of _ "used - set_tree t"]) simp
  have tab': "sps_table (m', q') = Map.empty"
    by (rule ext) (simp add: sps_table_def sps_find_def is_hit_def sp_find_eqI [OF nul(2), where n = None])
  let ?db = "db\<lparr>db_store := (m', q'), db_syms := Map.empty\<rparr>"
  have "syms_ok (sps_table (m', q')) Map.empty (\<lambda>k. [])"
    unfolding tab' by (simp add: syms_ok_def lens_ok_def names_def)
  then have "sym_ok ?db" using inv' inv(2) by (auto simp: sym_ok_def)
  moreover have "symbol_null_db db = Some (Inr ?db)"
    using scan nul(1) mq unfolding symbol_null_db_def null_step_def by simp
  ultimately show ?thesis using tab' by (intro exI [of _ ?db]) simp
qed

lemma symdb_start_ok: "sym_ok symdb_start" "names (db_syms symdb_start) = Map.empty"
proof -
  have "syms_ok (sps_table sp_start) Map.empty (\<lambda>k. [])"
    by (simp add: sp_start_ok syms_ok_def lens_ok_def names_def)
  then show "sym_ok symdb_start"
    unfolding sym_ok_def using sp_start_ok(1) by (auto simp: symdb_start_def)
  show "names (db_syms symdb_start) = Map.empty" by (simp add: symdb_start_def names_def fun_eq_iff)
qed

subsection \<open>Sequences of operations\<close>

datatype symop = Sym string | Find string | Drop string | Empty

fun symop_run :: "(syms \<Rightarrow> nat) \<Rightarrow> (nat \<Rightarrow> spblk) \<Rightarrow> symop \<Rightarrow> symdb \<Rightarrow> (symdb \<times> u32) res option" where
  "symop_run place junk (Sym s) db = symbol_db_mem place junk (Some s) db"
| "symop_run place junk (Find s) db = symbol_lookup_db_mem (Some s) db"
| "symop_run place junk (Drop s) db = map_option (map_sum id (\<lambda>db. (db, 0))) (symbol_free_db_mem (Some s) db)"
| "symop_run place junk Empty db = map_option (map_sum id (\<lambda>db. (db, 0))) (symbol_null_db db)"

fun symops_run :: "(syms \<Rightarrow> nat) \<Rightarrow> (nat \<Rightarrow> spblk) \<Rightarrow> symop list \<Rightarrow> symdb \<Rightarrow> (symdb \<times> u32 list) res option" where
  "symops_run place junk [] db = Some (Inr (db, []))"
| "symops_run place junk (x # xs) db =
     (case symop_run place junk x db of None \<Rightarrow> None | Some (Inl e) \<Rightarrow> Some (Inl e)
      | Some (Inr (db1, k)) \<Rightarrow>
          map_option (map_sum id (\<lambda>(db2, ks). (db2, k # ks))) (symops_run place junk xs db1))"

text \<open>What a table of names does, that gives each name an address of its own: \<open>N\<close> and \<open>N'\<close> are
  the names at the addresses before and after, \<open>k\<close> is the key returned.\<close>

fun sym_spec :: "symop \<Rightarrow> (nat \<Rightarrow> string option) \<Rightarrow> u32 \<Rightarrow> (nat \<Rightarrow> string option) \<Rightarrow> bool" where
  "sym_spec (Sym s) N k N' \<longleftrightarrow> (\<exists>a. k = spkey a \<and> N' a = Some s
      \<and> (if \<forall>b. N b \<noteq> Some s then N a = None \<and> N' = N(a \<mapsto> s) else N' = N))"
| "sym_spec (Find s) N k N' \<longleftrightarrow> key_for N s k \<and> N' = N"
| "sym_spec (Drop s) N k N' \<longleftrightarrow> k = 0 \<and> N' = (\<lambda>a. if N a = Some s then None else N a)"
| "sym_spec Empty N k N' \<longleftrightarrow> k = 0 \<and> N' = Map.empty"

fun sym_specs :: "symop list \<Rightarrow> (nat \<Rightarrow> string option) \<Rightarrow> u32 list \<Rightarrow> (nat \<Rightarrow> string option) \<Rightarrow> bool" where
  "sym_specs [] N ks N' \<longleftrightarrow> ks = [] \<and> N' = N"
| "sym_specs (x # xs) N ks N' \<longleftrightarrow> (\<exists>k ks1 N1. ks = k # ks1 \<and> sym_spec x N k N1 \<and> sym_specs xs N1 ks1 N')"

lemma symop_run_ok:
  assumes "sym_ok db" "place_ok place"
  shows "\<exists>db1 k. symop_run place junk x db = Some (Inr (db1, k)) \<and> sym_ok db1
    \<and> sym_spec x (names (db_syms db)) k (names (db_syms db1))"
proof (cases x)
  case (Sym s)
  obtain db' n where s: "symbol_db_mem place junk (Some s) db = Some (Inr (db', spkey n))" "sym_ok db'"
      "if \<forall>a. names (db_syms db) a \<noteq> Some s
        then db_syms db n = None \<and> names (db_syms db') = (names (db_syms db))(n \<mapsto> s)
        else names (db_syms db) n = Some s \<and> db_syms db' = db_syms db"
    using symbol_enter_or_find [OF assms] by blast
  have "sym_spec (Sym s) (names (db_syms db)) (spkey n) (names (db_syms db'))"
  proof (cases "\<forall>a. names (db_syms db) a \<noteq> Some s")
    case True
    then have "names (db_syms db) n = None" "names (db_syms db') = (names (db_syms db))(n \<mapsto> s)"
      using s(3) by (simp_all add: names_def)
    then show ?thesis using True by auto
  next
    case False
    then have "names (db_syms db) n = Some s" "names (db_syms db') = names (db_syms db)"
      using s(3) by (simp_all split: if_splits)
    then show ?thesis using False by auto
  qed
  then show ?thesis using s(1,2) Sym by auto
next
  case (Find s)
  then show ?thesis using symbol_lookup_ok [OF assms(1), of s] by fastforce
next
  case (Drop s)
  then show ?thesis using symbol_free_ok [OF assms(1), of s] by fastforce
next
  case Empty
  obtain db' where "symbol_null_db db = Some (Inr db')" "sym_ok db'" "db_syms db' = Map.empty"
    using symbol_null_db_ok [OF assms(1)] by blast
  then show ?thesis using Empty by (simp add: names_def fun_eq_iff)
qed

lemma symops_run_ok:
  assumes "sym_ok db" "place_ok place"
  shows "\<exists>db1 ks. symops_run place junk xs db = Some (Inr (db1, ks)) \<and> sym_ok db1
    \<and> sym_specs xs (names (db_syms db)) ks (names (db_syms db1))"
  using assms(1)
proof (induction xs arbitrary: db)
  case (Cons x xs)
  obtain db1 k where 1: "symop_run place junk x db = Some (Inr (db1, k))" "sym_ok db1"
      "sym_spec x (names (db_syms db)) k (names (db_syms db1))"
    using symop_run_ok [OF Cons.prems assms(2)] by blast
  obtain db2 ks where 2: "symops_run place junk xs db1 = Some (Inr (db2, ks))" "sym_ok db2"
      "sym_specs xs (names (db_syms db1)) ks (names (db_syms db2))"
    using Cons.IH [OF 1(2)] by blast
  then show ?case using 1 by (intro exI [of _ db2] exI [of _ "k # ks"]) auto
qed simp

lemma sym_ok_distinct_names:
  "sym_ok db \<Longrightarrow> names (db_syms db) a = Some s \<Longrightarrow> names (db_syms db) b = Some s \<Longrightarrow> a = b"
  by (auto simp: sym_ok_def dest: syms_okD(7))

lemma map_sum_Inr_iff: "map_sum f g r = Inr y \<longleftrightarrow> (\<exists>x. r = Inr x \<and> y = g x)"
  by (cases r) auto

lemma enter_empty:
  "symbol_db_mem place junk (Some s) symdb_start = Some (Inr (db, k)) \<Longrightarrow>
   k = spkey (place Map.empty) \<and> db_syms db = [place Map.empty \<mapsto> \<lparr>se_next = None, se_namelen = length s, se_name = s\<rparr>]"
proof -
  assume r: "symbol_db_mem place junk (Some s) symdb_start = Some (Inr (db, k))"
  define C :: "u32 \<Rightarrow> nat list" where "C = (\<lambda>k. [])"
  have ok: "syms_ok (sps_table (db_store symdb_start)) (db_syms symdb_start) C"
    by (simp add: C_def symdb_start_def sp_start_ok syms_ok_def lens_ok_def names_def)
  have inv: "sps_inv (db_store symdb_start)" "crc_ok (db_crc symdb_start)"
    using symdb_start_ok(1) by (simp_all add: sym_ok_def)
  obtain st1 c1 se pe where s: "symbol_search s symdb_start =
      Some (Inr (symdb_start\<lparr>db_store := st1, db_crc := c1\<rparr>, hash s, sps_find (db_store symdb_start) (hash s), se, pe))"
      and se: "case se of
         Some a \<Rightarrow> names (db_syms symdb_start) a = Some s
           \<and> (\<exists>us vs. C (hash s) = us @ a # vs \<and> pe = (if us = [] then None else Some (last us)))
       | None \<Rightarrow> (\<forall>a. names (db_syms symdb_start) a \<noteq> Some s)
           \<and> pe = (if C (hash s) = [] then None else Some (last (C (hash s))))"
    using symbol_search_ok [OF inv ok, of s] by blast
  have "se = None" "pe = None" using se by (auto simp: C_def split: option.splits)
  then have "symbol_enter place junk s (hash s) None (symdb_start\<lparr>db_store := st1, db_crc := c1\<rparr>) = Some (Inr (db, k))"
    using r s(1) by (simp add: symbol_db_mem_def)
  then show ?thesis
    by (auto simp: symbol_enter_def Let_def symdb_start_def map_sum_Inr_iff split: option.splits sum.splits)
qed

section \<open>Properties\<close>

text \<open>C39. Whatever is entered, looked up, removed and emptied, in any order, no operation faults or
  loops, and the table behaves as one that holds each string at an address of its own: a string
  keeps its key until it is removed, other strings keep theirs, strings of the same hash are kept
  apart, and no entry is leaked.\<close>

theorem symbol_table_is_table:
  assumes "place_ok place"
  shows "\<exists>db ks. symops_run place junk xs symdb_start = Some (Inr (db, ks))
    \<and> sym_specs xs Map.empty ks (names (db_syms db)) \<and> sym_ok db"
  using symops_run_ok [OF symdb_start_ok(1) assms, of junk xs] unfolding symdb_start_ok(2) by blast

definition first_free :: "syms \<Rightarrow> nat" where
  "first_free h = (LEAST n. h n = None)"

lemma first_free_ok: "place_ok first_free"
proof -
  have "h (first_free h) = None" if fin: "finite (dom h)" for h
  proof -
    obtain n where "n \<notin> dom h" using ex_new_if_finite [OF infinite_UNIV_nat fin] by blast
    then have "h n = None" by (simp add: domIff)
    then show ?thesis unfolding first_free_def by (rule LeastI)
  qed
  then show ?thesis by (simp add: place_ok_def)
qed

theorem symbol_table_is_table_witness:
  "\<exists>db k l. symops_run first_free blank_memory [Sym ''a'', Sym ''b'', Drop ''b'', Sym ''a'', Find ''b''] symdb_start
     = Some (Inr (db, [k, l, 0, k, 0]))"
proof -
  obtain db ks where r: "symops_run first_free blank_memory [Sym ''a'', Sym ''b'', Drop ''b'', Sym ''a'', Find ''b''] symdb_start
      = Some (Inr (db, ks))"
    "sym_specs [Sym ''a'', Sym ''b'', Drop ''b'', Sym ''a'', Find ''b''] Map.empty ks (names (db_syms db))"
    using symbol_table_is_table [OF first_free_ok] by blast
  then have "\<exists>k l. ks = [k, l, 0, k, 0]"
    by (auto simp: key_for_def split: if_splits)
  then show ?thesis using r(1) by blast
qed

text \<open>The key of a symbol is the address of its entry cut down to 32 bits, and \<open>pname\<close> uses it as
  an address: it gives the string back only when the allocator placed the entry in the first
  4 GB, and reads outside every entry otherwise.\<close>

lemma symbol_key_is_address:
  assumes "place_ok place"
  shows "\<exists>db k. symbol_db_mem place junk (Some s) symdb_start = Some (Inr (db, k))
    \<and> pname k db = (if place Map.empty < 2 ^ 32 then Inr s else Inl Out_of_bounds)"
proof -
  obtain db n where d: "symbol_db_mem place junk (Some s) symdb_start = Some (Inr (db, spkey n))"
    using symbol_enter_or_find [OF symdb_start_ok(1) assms, of junk s] by blast
  have k: "spkey n = spkey (place Map.empty)"
    "db_syms db = [place Map.empty \<mapsto> \<lparr>se_next = None, se_namelen = length s, se_name = s\<rparr>]"
    using enter_empty [OF d] by simp_all
  have "unat (spkey (place Map.empty)) = place Map.empty mod 2 ^ 32" by (simp add: spkey_def unat_of_nat)
  then have u: "unat (spkey n) = place Map.empty mod 2 ^ 32" by (simp only: k(1))
  have "pname (spkey n) db = (if place Map.empty < 2 ^ 32 then Inr s else Inl Out_of_bounds)"
  proof (cases "place Map.empty < 2 ^ 32")
    case True
    then show ?thesis using u k(2) by (simp add: pname_def)
  next
    case False
    have "place Map.empty mod 2 ^ 32 < 2 ^ 32" by simp
    then have "unat (spkey n) \<noteq> place Map.empty" using u False by linarith
    then show ?thesis using k(2) False by (simp add: pname_def)
  qed
  then show ?thesis using d by blast
qed

lemma symbol_key_is_address_example:
  "\<exists>db k. symbol_db_mem first_free blank_memory (Some ''x'') symdb_start = Some (Inr (db, k)) \<and> pname k db = Inr ''x''"
proof -
  have "first_free Map.empty = 0" by (simp add: first_free_def)
  then show ?thesis using symbol_key_is_address [OF first_free_ok, of blank_memory "''x''"] by simp
qed

end
