(* ===== verification/Memory.thy ===== *)
theory Memory
  imports Hlog Fingerpori
begin

section \<open>Allocated memory (\<open>hmalloc.c\<close> and the functions that allocate and free)\<close>

text \<open>
  The other theories let every structure be a value; here are the blocks behind the structures:
  \<open>hmalloc\<close>, \<open>hrealloc\<close>, \<open>hfree\<close> and \<open>hstrdup\<close>, and with them what the filters, the
  receivers, the fingerprints and the appended strings take and give back. \<open>malloc\<close> is a
  parameter: from the blocks and a size to an address, or nothing.
\<close>

subsection \<open>\<open>hmalloc.c\<close>\<close>

text \<open>A block is its bytes; those of a new block are arbitrary, here zero.\<close>

type_synonym blocks = "nat \<rightharpoonup> string"
type_synonym 'a alloc_run = "stop + blocks \<times> 'a"
type_synonym malloc = "blocks \<Rightarrow> nat \<Rightarrow> nat option"

definition blk_bind :: "'a alloc_run \<Rightarrow> (blocks \<Rightarrow> 'a \<Rightarrow> 'b alloc_run) \<Rightarrow> 'b alloc_run" where
  "blk_bind r k = (case r of Inl e \<Rightarrow> Inl e | Inr (m, x) \<Rightarrow> k m x)"

lemma blk_bind_simps [simp]: "blk_bind (Inl e) k = Inl e" "blk_bind (Inr (m, x)) k = k m x"
  by (simp_all add: blk_bind_def)

definition hmalloc_block :: "malloc \<Rightarrow> nat \<Rightarrow> blocks \<Rightarrow> nat alloc_run" where
  "hmalloc_block M sz m = (case M m sz of None \<Rightarrow> Inl (Exits 1) | Some a \<Rightarrow> Inr (m(a \<mapsto> replicate sz (CHR 0x00)), a))"

text \<open>Freeing, or enlarging, what is no block crashes.\<close>

definition hfree :: "nat option \<Rightarrow> blocks \<Rightarrow> unit alloc_run" where
  "hfree p m = (case p of None \<Rightarrow> Inr (m, ()) | Some a \<Rightarrow> if m a = None then Inl Crashes else Inr (m(a := None), ()))"

definition hrealloc :: "malloc \<Rightarrow> nat option \<Rightarrow> nat \<Rightarrow> blocks \<Rightarrow> nat alloc_run" where
  "hrealloc M p sz m =
     (case p of None \<Rightarrow> hmalloc_block M sz m
      | Some a \<Rightarrow> (case m a of None \<Rightarrow> Inl Crashes
          | Some old \<Rightarrow> (case M (m(a := None)) sz of None \<Rightarrow> Inl (Exits 1)
              | Some b \<Rightarrow> Inr (m(a := None, b \<mapsto> take sz (old @ replicate (sz - length old) (CHR 0x00))), b))))"

definition hstrdup :: "malloc \<Rightarrow> string \<Rightarrow> blocks \<Rightarrow> nat alloc_run" where
  "hstrdup M s m = blk_bind (hmalloc_block M (length s + 1) m) (\<lambda>m p. Inr (m(p \<mapsto> s @ [CHR 0x00]), p))"

subsection \<open>\<open>str_append\<close> (\<open>hlog.c\<close>)\<close>

definition c_string :: "string \<Rightarrow> string" where
  "c_string b = takeWhile (\<lambda>c. c \<noteq> CHR 0x00) b"

text \<open>\<open>txt\<close> is the formatted text, cut at the size of the buffer.\<close>

definition str_append_block :: "malloc \<Rightarrow> nat option \<Rightarrow> string \<Rightarrow> blocks \<Rightarrow> nat alloc_run" where
  "str_append_block M s txt m =
     (let buf = take (LOG_LEN - 1) txt;
          len = (case s of None \<Rightarrow> 0 | Some a \<Rightarrow> length (c_string (the (m a)))) in
      blk_bind (hrealloc M s (len + length buf + 1) m) (\<lambda>m ret.
      Inr (m(ret \<mapsto> take len (the (m ret)) @ buf @ [CHR 0x00]), ret)))"

subsection \<open>Filters and receivers\<close>

text \<open>The sizes of the structs depend on the machine.\<close>

record sizes =
  sz_filter :: nat
  sz_receiver :: nat
  sz_fingerprint :: nat

record filter_blks =
  fb_self :: nat
  fb_taps :: nat

record receiver_blks =
  rb_self :: nat
  rb_sql :: filter_blks
  rb_txid :: filter_blks

definition filter_init_block :: "malloc \<Rightarrow> sizes \<Rightarrow> nat \<Rightarrow> blocks \<Rightarrow> filter_blks alloc_run" where
  "filter_init_block M z len m =
     blk_bind (hmalloc_block M (sz_filter z) m) (\<lambda>m f.
     blk_bind (hmalloc_block M (len * 4) m) (\<lambda>m t. Inr (m, \<lparr>fb_self = f, fb_taps = t\<rparr>)))"

definition filter_free :: "filter_blks option \<Rightarrow> blocks \<Rightarrow> unit alloc_run" where
  "filter_free f m = (case f of None \<Rightarrow> Inr (m, ())
     | Some b \<Rightarrow> blk_bind (hfree (Some (fb_taps b)) m) (\<lambda>m _. hfree (Some (fb_self b)) m))"

definition init_receiver_block :: "malloc \<Rightarrow> sizes \<Rightarrow> nat \<Rightarrow> blocks \<Rightarrow> receiver_blks alloc_run" where
  "init_receiver_block M z coeffs_l m =
     blk_bind (hmalloc_block M (sz_receiver z) m) (\<lambda>m rx.
     blk_bind (filter_init_block M z coeffs_l m) (\<lambda>m s.
     blk_bind (filter_init_block M z coeffs_l m) (\<lambda>m t.
     Inr (m, \<lparr>rb_self = rx, rb_sql = s, rb_txid = t\<rparr>))))"

definition free_receiver :: "receiver_blks option \<Rightarrow> blocks \<Rightarrow> unit alloc_run" where
  "free_receiver rx m = (case rx of None \<Rightarrow> Inr (m, ())
     | Some b \<Rightarrow> blk_bind (filter_free (Some (rb_sql b)) m) (\<lambda>m _.
         blk_bind (filter_free (Some (rb_txid b)) m) (\<lambda>m _. hfree (Some (rb_self b)) m)))"

subsection \<open>Fingerprints\<close>

record fingerprint_blks =
  pb_self :: nat
  pb_name :: "nat option"
  pb_samples :: "nat option"

definition fingerprint_alloc_block :: "malloc \<Rightarrow> sizes \<Rightarrow> blocks \<Rightarrow> fingerprint_blks alloc_run" where
  "fingerprint_alloc_block M z m = blk_bind (hmalloc_block M (sz_fingerprint z) m) (\<lambda>m a.
     Inr (m, \<lparr>pb_self = a, pb_name = None, pb_samples = None\<rparr>))"

definition fingerprint_free :: "fingerprint_blks \<Rightarrow> blocks \<Rightarrow> unit alloc_run" where
  "fingerprint_free fp m =
     blk_bind (hfree (pb_name fp) m) (\<lambda>m _.
     blk_bind (hfree (pb_samples fp) m) (\<lambda>m _. hfree (Some (pb_self fp)) m))"

text \<open>What the system answers while a fingerprint of \<open>st_size\<close> bytes is loaded: whether it can be
  opened and examined, what \<open>read\<close> returns, and whether its name asks for smoothing.\<close>

record load_answers =
  la_open :: bool
  la_stat :: bool
  la_st_size :: nat
  la_nread :: int
  la_unfiltered :: bool

definition load_fp :: "malloc \<Rightarrow> sizes \<Rightarrow> string \<Rightarrow> load_answers \<Rightarrow> blocks \<Rightarrow> (fingerprint_blks option \<times> bool) alloc_run" where
  "load_fp M z f w m =
     (if \<not> la_open w \<or> \<not> la_stat w then Inr (m, (None, False))
      else
        blk_bind (fingerprint_alloc_block M z m) (\<lambda>m fp.
        blk_bind (hstrdup M f m) (\<lambda>m name.
        blk_bind (hmalloc_block M (la_st_size w) m) (\<lambda>m s.
        let fp1 = fp\<lparr>pb_name := Some name, pb_samples := Some s\<rparr> in
        if la_nread w \<noteq> int (la_st_size w) then Inr (m, (Some fp1, False))
        else if la_unfiltered w then
          blk_bind (hmalloc_block M (la_st_size w) m) (\<lambda>m tp.
          blk_bind (hfree (Some tp) m) (\<lambda>m _. Inr (m, (Some fp1, True))))
        else Inr (m, (Some fp1, True))))))"

text \<open>The blocks of a fingerprint that was put in the list, or nothing.\<close>

definition fingerprint_load_blocks ::
  "malloc \<Rightarrow> sizes \<Rightarrow> string \<Rightarrow> string \<Rightarrow> load_answers \<Rightarrow> blocks \<Rightarrow> fingerprint_blks option alloc_run"
where
  "fingerprint_load_blocks M z d f w m =
     blk_bind (hmalloc_block M (length d + length f + 3) m) (\<lambda>m fn.
     blk_bind (load_fp M z f w m) (\<lambda>m (fp, ok).
     blk_bind (hfree (Some fn) m) (\<lambda>m _.
     case fp of None \<Rightarrow> Inr (m, None)
     | Some b \<Rightarrow> if ok then Inr (m, Some b) else blk_bind (fingerprint_free b m) (\<lambda>m _. Inr (m, None)))))"

subsection \<open>What is taken and given back\<close>

definition malloc_ok :: "malloc \<Rightarrow> bool" where
  "malloc_ok M \<longleftrightarrow> (\<forall>m sz. finite (dom m) \<longrightarrow> (\<exists>a. M m sz = Some a \<and> m a = None))"

lemma hmalloc_ok:
  assumes "malloc_ok M" "finite (dom m)"
  obtains a where "hmalloc_block M sz m = Inr (m(a \<mapsto> replicate sz (CHR 0x00)), a)" "m a = None"
proof -
  obtain a where "M m sz = Some a" "m a = None" using assms unfolding malloc_ok_def by blast
  then show ?thesis by (intro that [of a]) (simp_all add: hmalloc_block_def)
qed

lemma hfree_new [simp]: "m a \<noteq> None \<Longrightarrow> hfree (Some a) m = Inr (m(a := None), ())" "hfree None m = Inr (m, ())"
  by (auto simp: hfree_def)

lemma hstrdup_ok:
  assumes "malloc_ok M" "finite (dom m)"
  obtains a where "hstrdup M s m = Inr (m(a \<mapsto> s @ [CHR 0x00]), a)" "m a = None"
proof -
  obtain a where "hmalloc_block M (length s + 1) m = Inr (m(a \<mapsto> replicate (length s + 1) (CHR 0x00)), a)" "m a = None"
    by (rule hmalloc_ok [OF assms])
  then show ?thesis by (intro that [of a]) (simp_all add: hstrdup_def)
qed

lemma filter_init_ok:
  assumes "malloc_ok M" "finite (dom m)"
  obtains f x y where "filter_init_block M z len m = Inr (m(fb_self f \<mapsto> x, fb_taps f \<mapsto> y), f)"
    "m (fb_self f) = None" "m (fb_taps f) = None" "fb_taps f \<noteq> fb_self f"
proof -
  obtain a where a: "hmalloc_block M (sz_filter z) m = Inr (m(a \<mapsto> replicate (sz_filter z) (CHR 0x00)), a)" "m a = None"
    by (rule hmalloc_ok [OF assms])
  define m1 where "m1 = m(a \<mapsto> replicate (sz_filter z) (CHR 0x00))"
  have "finite (dom m1)" using assms(2) by (simp add: m1_def)
  then obtain b where b: "hmalloc_block M (len * 4) m1 = Inr (m1(b \<mapsto> replicate (len * 4) (CHR 0x00)), b)" "m1 b = None"
    by (rule hmalloc_ok [OF assms(1)])
  show ?thesis
    by (rule that [of "\<lparr>fb_self = a, fb_taps = b\<rparr>"])
      (use a b in \<open>auto simp: filter_init_block_def m1_def [symmetric] split: if_splits\<close>, auto simp: m1_def split: if_splits)
qed

lemma filter_free_ok:
  "m (fb_self f) \<noteq> None \<Longrightarrow> m (fb_taps f) \<noteq> None \<Longrightarrow> fb_taps f \<noteq> fb_self f \<Longrightarrow>
    filter_free (Some f) m = Inr (m(fb_taps f := None, fb_self f := None), ())"
  by (simp add: filter_free_def)

text \<open>A receiver takes five blocks and gives them back.\<close>

lemma receiver_balanced:
  assumes "malloc_ok M" "finite (dom m)"
  obtains m1 rx where "init_receiver_block M z l m = Inr (m1, rx)" "finite (dom m1)" "free_receiver (Some rx) m1 = Inr (m, ())"
proof -
  obtain a where a: "hmalloc_block M (sz_receiver z) m = Inr (m(a \<mapsto> replicate (sz_receiver z) (CHR 0x00)), a)" "m a = None"
    by (rule hmalloc_ok [OF assms])
  define m1 where "m1 = m(a \<mapsto> replicate (sz_receiver z) (CHR 0x00))"
  have f1: "finite (dom m1)" using assms(2) by (simp add: m1_def)
  obtain s x y where s: "filter_init_block M z l m1 = Inr (m1(fb_self s \<mapsto> x, fb_taps s \<mapsto> y), s)"
    "m1 (fb_self s) = None" "m1 (fb_taps s) = None" "fb_taps s \<noteq> fb_self s"
    by (rule filter_init_ok [OF assms(1) f1])
  define m2 where "m2 = m1(fb_self s \<mapsto> x, fb_taps s \<mapsto> y)"
  have f2: "finite (dom m2)" using f1 by (simp add: m2_def)
  obtain t u v where t: "filter_init_block M z l m2 = Inr (m2(fb_self t \<mapsto> u, fb_taps t \<mapsto> v), t)"
    "m2 (fb_self t) = None" "m2 (fb_taps t) = None" "fb_taps t \<noteq> fb_self t"
    by (rule filter_init_ok [OF assms(1) f2])
  define m3 where "m3 = m2(fb_self t \<mapsto> u, fb_taps t \<mapsto> v)"
  have f3: "finite (dom m3)" using f2 by (simp add: m3_def)
  let ?rx = "\<lparr>rb_self = a, rb_sql = s, rb_txid = t\<rparr>"
  have i: "init_receiver_block M z l m = Inr (m3, ?rx)"
    by (simp add: init_receiver_block_def a m1_def [symmetric] s(1) m2_def [symmetric] t(1) m3_def [symmetric])
  have d: "fb_self t \<noteq> fb_self s" "fb_self t \<noteq> fb_taps s" "fb_taps t \<noteq> fb_self s" "fb_taps t \<noteq> fb_taps s"
    "fb_self t \<noteq> a" "fb_taps t \<noteq> a" "fb_self s \<noteq> a" "fb_taps s \<noteq> a"
    using s(2,3) t(2,3) by (auto simp: m2_def m1_def split: if_splits)
  define m4 where "m4 = m3(fb_taps s := None, fb_self s := None)"
  have "filter_free (Some s) m3 = Inr (m4, ())"
    unfolding m4_def by (rule filter_free_ok) (use d s(4) in \<open>simp_all add: m3_def m2_def\<close>)
  moreover have "filter_free (Some t) m4 = Inr (m4(fb_taps t := None, fb_self t := None), ())"
    by (rule filter_free_ok) (use d t(4) in \<open>simp_all add: m4_def m3_def\<close>)
  moreover have "(m4(fb_taps t := None, fb_self t := None)) a \<noteq> None"
    using d by (simp add: m4_def m3_def m2_def m1_def)
  moreover have "m4(fb_taps t := None, fb_self t := None, a := None) = m"
    using d s(2,3) t(2,3) a(2) by (auto simp: m4_def m3_def m2_def m1_def fun_eq_iff)
  ultimately have "free_receiver (Some ?rx) m3 = Inr (m, ())" by (simp add: free_receiver_def)
  with i f3 show ?thesis by (rule that)
qed

text \<open>Loading a fingerprint keeps three blocks when it succeeds and none when it does not: every
  error path frees what was taken before it.\<close>

lemma load_fp_ok:
  assumes "malloc_ok M" "finite (dom m)"
  shows "(\<exists>a n s x y. load_fp M z f w m = Inr (m(a \<mapsto> x, n \<mapsto> f @ [CHR 0x00], s \<mapsto> y), (Some \<lparr>pb_self = a, pb_name = Some n, pb_samples = Some s\<rparr>,
        la_nread w = int (la_st_size w))) \<and> m a = None \<and> m n = None \<and> m s = None \<and> distinct [a, n, s] \<and> la_open w \<and> la_stat w)
    \<or> load_fp M z f w m = Inr (m, (None, False)) \<and> \<not> (la_open w \<and> la_stat w)"
proof (cases "la_open w \<and> la_stat w")
  case True
  obtain a where a: "hmalloc_block M (sz_fingerprint z) m = Inr (m(a \<mapsto> replicate (sz_fingerprint z) (CHR 0x00)), a)" "m a = None"
    by (rule hmalloc_ok [OF assms])
  define m1 where "m1 = m(a \<mapsto> replicate (sz_fingerprint z) (CHR 0x00))"
  have f1: "finite (dom m1)" using assms(2) by (simp add: m1_def)
  obtain n where n: "hstrdup M f m1 = Inr (m1(n \<mapsto> f @ [CHR 0x00]), n)" "m1 n = None"
    by (rule hstrdup_ok [OF assms(1) f1])
  define m2 where "m2 = m1(n \<mapsto> f @ [CHR 0x00])"
  have f2: "finite (dom m2)" using f1 by (simp add: m2_def)
  let ?y = "replicate (la_st_size w) (CHR 0x00)"
  obtain s where s: "hmalloc_block M (la_st_size w) m2 = Inr (m2(s \<mapsto> ?y), s)" "m2 s = None"
    by (rule hmalloc_ok [OF assms(1) f2])
  define m3 where "m3 = m2(s \<mapsto> ?y)"
  have f3: "finite (dom m3)" using f2 by (simp add: m3_def)
  obtain tp where t: "hmalloc_block M (la_st_size w) m3 = Inr (m3(tp \<mapsto> ?y), tp)" "m3 tp = None"
    by (rule hmalloc_ok [OF assms(1) f3])
  have undone: "(m3(tp \<mapsto> ?y))(tp := None) = m3" using t(2) by (simp add: fun_eq_iff)
  have "load_fp M z f w m = Inr (m3, (Some \<lparr>pb_self = a, pb_name = Some n, pb_samples = Some s\<rparr>, la_nread w = int (la_st_size w)))"
    using True undone
    by (simp add: load_fp_def fingerprint_alloc_block_def a m1_def [symmetric] n(1) m2_def [symmetric] s(1) m3_def [symmetric] t(1) Let_def)
  moreover have "n \<noteq> a" "s \<noteq> a" "s \<noteq> n" "m n = None" "m s = None"
    using n(2) s(2) by (auto simp: m2_def m1_def split: if_splits)
  ultimately show ?thesis using True a(2) unfolding m3_def m2_def m1_def by (intro disjI1) auto
qed (auto simp: load_fp_def)

lemma load_keeps:
  assumes "malloc_ok M" "finite (dom m)"
  obtains m1 fp where "fingerprint_load_blocks M z d f w m = Inr (m1, fp)" "finite (dom m1)"
    "(fp \<noteq> None) = (la_open w \<and> la_stat w \<and> la_nread w = int (la_st_size w))"
    "case fp of None \<Rightarrow> m1 = m | Some b \<Rightarrow> fingerprint_free b m1 = Inr (m, ())"
proof -
  obtain c where c: "hmalloc_block M (length d + length f + 3) m = Inr (m(c \<mapsto> replicate (length d + length f + 3) (CHR 0x00)), c)" "m c = None"
    by (rule hmalloc_ok [OF assms])
  define x where "x = replicate (length d + length f + 3) (CHR 0x00)"
  define m1 where "m1 = m(c \<mapsto> x)"
  have f1: "finite (dom m1)" using assms(2) by (simp add: m1_def)
  consider (taken) a n s u v where "load_fp M z f w m1 = Inr (m1(a \<mapsto> u, n \<mapsto> f @ [CHR 0x00], s \<mapsto> v),
      (Some \<lparr>pb_self = a, pb_name = Some n, pb_samples = Some s\<rparr>, la_nread w = int (la_st_size w)))"
      "m1 a = None" "m1 n = None" "m1 s = None" "distinct [a, n, s]" "la_open w" "la_stat w"
    | (untaken) "load_fp M z f w m1 = Inr (m1, (None, False))" "\<not> (la_open w \<and> la_stat w)"
    using load_fp_ok [OF assms(1) f1, of z f w] by blast
  then show ?thesis
  proof cases
    case taken
    define m2 where "m2 = m(a \<mapsto> u, n \<mapsto> f @ [CHR 0x00], s \<mapsto> v)"
    have ne: "a \<noteq> c" "n \<noteq> c" "s \<noteq> c" "m a = None" "m n = None" "m s = None"
      using taken(2-4) by (auto simp: m1_def split: if_splits)
    have free_fn: "hfree (Some c) (m1(a \<mapsto> u, n \<mapsto> f @ [CHR 0x00], s \<mapsto> v)) = Inr (m2, ())"
      using ne c(2) by (auto simp: hfree_def m1_def m2_def fun_eq_iff)
    have free_fp: "fingerprint_free \<lparr>pb_self = a, pb_name = Some n, pb_samples = Some s\<rparr> m2 = Inr (m, ())"
      using ne taken(5) by (auto simp: fingerprint_free_def m2_def fun_eq_iff hfree_def)
    show ?thesis
    proof (cases "la_nread w = int (la_st_size w)")
      case True
      then show ?thesis using taken(1,6,7) free_fn free_fp assms(2)
        by (intro that [of m2 "Some \<lparr>pb_self = a, pb_name = Some n, pb_samples = Some s\<rparr>"])
          (simp_all add: fingerprint_load_blocks_def c(1) x_def [symmetric] m1_def [symmetric], simp add: m2_def)
    next
      case False
      then show ?thesis using taken(1) free_fn free_fp assms(2)
        by (intro that [of m None]) (simp_all add: fingerprint_load_blocks_def c(1) x_def [symmetric] m1_def [symmetric])
    qed
  next
    case untaken
    have "hfree (Some c) m1 = Inr (m, ())" using c(2) by (auto simp: hfree_def m1_def fun_eq_iff)
    then show ?thesis using untaken assms(2)
      by (intro that [of m None]) (auto simp: fingerprint_load_blocks_def c(1) x_def [symmetric] m1_def [symmetric])
  qed
qed

text \<open>An appended string is what \<open>str_append\<close> says, in a block of its own; the old one is gone.\<close>

lemma append_block:
  assumes "malloc_ok M" "finite (dom m)" "case s of None \<Rightarrow> old = None | Some a \<Rightarrow> \<exists>b. m a = Some b \<and> CHR 0x00 \<in> set b \<and> old = Some (c_string b)"
  shows "\<exists>p. str_append_block M s txt m
    = Inr ((case s of None \<Rightarrow> m | Some a \<Rightarrow> m(a := None))(p \<mapsto> str_append old txt @ [CHR 0x00]), p)"
proof (cases s)
  case None
  obtain p where p: "hmalloc_block M (length (take (LOG_LEN - 1) txt) + 1) m
      = Inr (m(p \<mapsto> replicate (length (take (LOG_LEN - 1) txt) + 1) (CHR 0x00)), p)"
    by (rule hmalloc_ok [OF assms(1,2)])
  then show ?thesis using None assms(3)
    by (intro exI [of _ p]) (simp add: str_append_block_def hrealloc_def str_append_def Let_def)
next
  case (Some a)
  then obtain b where b: "m a = Some b" "CHR 0x00 \<in> set b" "old = Some (c_string b)" using assms(3) by auto
  let ?n = "length (c_string b) + length (take (LOG_LEN - 1) txt) + 1"
  have "finite (dom (m(a := None)))" using assms(2) by simp
  then obtain p where p: "M (m(a := None)) ?n = Some p" using assms(1) unfolding malloc_ok_def by blast
  have pre: "take (length (c_string b)) b = c_string b"
    unfolding c_string_def by (metis takeWhile_eq_take)
  have len: "length (c_string b) \<le> length b" by (simp add: c_string_def length_takeWhile_le)
  have "take (length (c_string b)) (take ?n (b @ replicate (?n - length b) (CHR 0x00))) = c_string b"
    using len pre by (simp add: take_append)
  then show ?thesis using Some b p
    by (intro exI [of _ p]) (simp add: str_append_block_def hrealloc_def str_append_def Let_def)
qed

end
