(* ===== verification/Sound_stream.thy ===== *)
theory Sound_stream
  imports Edysquelch
begin

section \<open>The program as one run over its sound\<close>

text \<open>
  With one receiver (one channel, or one of the two chosen) the main loop is the composition of
  the reads, the receiver and the squelch. Here: that a loop over any reads is a sequence of
  blocks for that receiver, and with it that the whole program refines the abstract squelch of
  \<open>Squelch\<close>, fed with the filtered samples.
\<close>

subsection \<open>One receiver\<close>

definition single :: "int \<Rightarrow> bool" where
  "single chs \<longleftrightarrow> chs \<in> {SOUND_CHANNELS_MONO, SOUND_CHANNELS_LEFT, SOUND_CHANNELS_RIGHT}"

text \<open>The receiver that runs, and what a read is for it.\<close>

definition the_receiver :: "int \<Rightarrow> 'f program \<Rightarrow> 'f receiver option" where
  "the_receiver chs p = (if chs = SOUND_CHANNELS_LEFT then rx_b p else Some (rx_a p))"

definition as_block :: "int \<Rightarrow> input \<Rightarrow> block" where
  "as_block chs i = (let now = (if chs = SOUND_CHANNELS_LEFT then i_now_b i else i_now_a i) in
     \<lparr>b_buf = i_buffer i, b_len = nat (i_read i), b_now1 = fst now, b_now2 = snd now\<rparr>)"

definition as_blocks :: "int \<Rightarrow> input list \<Rightarrow> block list" where
  "as_blocks chs is = map (as_block chs) (filter (\<lambda>i. 0 < i_read i) is)"

text \<open>Reads that do not end the loop: no signal, and for a file no end.\<close>

definition goes_on :: "bool \<Rightarrow> input \<Rightarrow> bool" where
  "goes_on from_file i \<longleftrightarrow> \<not> i_sigint i \<and> (from_file \<longrightarrow> 0 < i_read i)"

lemmas single_defs = single_def the_receiver_def as_block_def sound_channels_defs

lemma turn_is_block:
  assumes "single chs" "the_receiver chs p = Some rx" "\<not> is_done p" "goes_on from_file i" "0 < i_read i"
    and "receiver_run ops fps env lv (b_now1 (as_block chs i)) (b_now2 (as_block chs i)) rx (b_buf (as_block chs i))
           (b_len (as_block chs i)) (sq p) = Inr (rx1, s1, lg)"
  shows "\<exists>p1. main_turn ops fps env lv chs from_file sound_out i p = Inr p1 \<and> the_receiver chs p1 = Some rx1
    \<and> sq p1 = s1 \<and> \<not> is_done p1"
  using assms by (auto simp: single_defs main_turn_def run_a_def run_b_def goes_on_def Let_def)

lemma turn_without_sound:
  assumes "\<not> is_done p" "goes_on from_file i" "i_read i \<le> 0"
  shows "\<exists>p1. main_turn ops fps env lv chs from_file sound_out i p = Inr p1 \<and> the_receiver chs p1 = the_receiver chs p
    \<and> sq p1 = sq p \<and> \<not> is_done p1"
  using assms by (auto simp: main_turn_def goes_on_def the_receiver_def Let_def)

lemma loop_is_blocks:
  assumes "single chs"
  shows "the_receiver chs p = Some rx \<Longrightarrow> \<not> is_done p \<Longrightarrow> list_all (goes_on from_file) is \<Longrightarrow>
    receiver_blocks ops fps env lv rx (as_blocks chs is) (sq p) = Inr (rx1, s1) \<Longrightarrow>
    \<exists>p1. main_loop ops fps env lv chs from_file sound_out is p = Inr p1 \<and> the_receiver chs p1 = Some rx1 \<and> sq p1 = s1"
proof (induction "is" arbitrary: p rx)
  case (Cons i rest)
  show ?case
  proof (cases "0 < i_read i")
    case True
    then obtain rx2 s2 lg where r:
      "receiver_run ops fps env lv (b_now1 (as_block chs i)) (b_now2 (as_block chs i)) rx (b_buf (as_block chs i))
         (b_len (as_block chs i)) (sq p) = Inr (rx2, s2, lg)"
      "receiver_blocks ops fps env lv rx2 (as_blocks chs rest) s2 = Inr (rx1, s1)"
      using Cons.prems(4) by (auto simp: as_blocks_def res_bind_Inr_iff)
    obtain p2 where "main_turn ops fps env lv chs from_file sound_out i p = Inr p2" "the_receiver chs p2 = Some rx2"
      "sq p2 = s2" "\<not> is_done p2"
      using turn_is_block [OF assms Cons.prems(1,2) _ True r(1)] Cons.prems(3) by auto
    then show ?thesis using Cons.IH [of p2 rx2] Cons.prems(2,3) r(2) by simp
  next
    case False
    obtain p2 where "main_turn ops fps env lv chs from_file sound_out i p = Inr p2"
      "the_receiver chs p2 = the_receiver chs p" "sq p2 = sq p" "\<not> is_done p2"
      using turn_without_sound [OF Cons.prems(2), of from_file i] Cons.prems(3) False by (simp add: linorder_not_less) blast
    then show ?thesis using Cons.IH [of p2 rx] Cons.prems False by (simp add: as_blocks_def)
  qed
qed (simp add: as_blocks_def)

subsection \<open>What the receiver hears\<close>

definition chosen_channel :: "int \<Rightarrow> nat" where
  "chosen_channel chs = (if chs = SOUND_CHANNELS_LEFT then 1 else 0)"

definition heard :: "int \<Rightarrow> input list \<Rightarrow> s16 list" where
  "heard chs is =
     concat (map (\<lambda>i. channel (drop (chosen_channel chs) (i_buffer i)) (channel_count chs) (nat (i_read i))) is)"

definition sql_filter :: "'f fops \<Rightarrow> 'f fir" where
  "sql_filter ops = filter_init ops COEFFS_L (literals ops coeffs_sql)"

lemma the_receiver_start:
  assumes "single chs"
  obtains rx where "the_receiver chs (start_receivers ops chs) = Some rx" "rx_ok rx" "num_ch rx = channel_count chs"
    "ch_ofs rx = chosen_channel chs" "filter_sql rx = sql_filter ops" "length (rx_hist rx) = RECEIVER_BUF_COPY"
proof -
  define rx where "rx = init_receiver ops (if chs = SOUND_CHANNELS_LEFT then CHR ''B'' else CHR ''A'')
    (channel_count chs) (chosen_channel chs)"
  have "0 < channel_count chs" by (simp add: channel_count_def)
  then have "rx_ok rx" "length (rx_hist rx) = RECEIVER_BUF_COPY" by (simp_all add: rx_def rx_ok_init rx_hist_init)
  moreover have "the_receiver chs (start_receivers ops chs) = Some rx"
    using assms by (auto simp: rx_def single_defs start_receivers_def channel_count_def chosen_channel_def)
  ultimately show ?thesis by (intro that [of rx]) (simp_all add: rx_def init_receiver_def sql_filter_def)
qed

lemma stream_of_heard:
  assumes "num_ch rx = channel_count chs" "ch_ofs rx = chosen_channel chs"
  shows "stream_of rx (as_blocks chs is) = heard chs is"
proof (induction "is")
  case (Cons i rest)
  have "channel b n 0 = []" for b :: "s16 list" and n by (simp add: channel_def)
  then show ?case
    using Cons assms by (auto simp: stream_of_def as_blocks_def heard_def rx_channel_def as_block_def Let_def)
qed (simp add: stream_of_def as_blocks_def heard_def)

lemma as_blocks_ok:
  assumes "single chs" "num_ch rx = channel_count chs" "ch_ofs rx = chosen_channel chs" "list_all (input_ok chs) is"
  shows "blocks_ok rx (as_blocks chs is)"
proof -
  have o: "chosen_channel chs < channel_count chs"
    by (simp add: chosen_channel_def channel_count_def sound_channels_defs)
  have "block_ok rx (i_buffer i) (nat (i_read i))" if "i \<in> set is" "0 < i_read i" for i
    using assms(2-4) that o fits_frames [of "nat (i_read i)" "num_ch rx" "i_buffer i" "ch_ofs rx"]
    by (auto simp: block_ok_def input_ok_def list_all_iff nat_le_iff)
  then show ?thesis by (auto simp: blocks_ok_def as_blocks_def list_all_iff as_block_def Let_def)
qed

text \<open>The program's squelch is one run over what the receiver hears.\<close>

lemma program_is_run:
  assumes "single chs" "list_all (input_ok chs) is" "list_all (goes_on from_file) is" "fps_ok fps"
  obtains p1 w where "main_loop ops fps env lv chs from_file sound_out is (start_receivers ops chs) = Inr p1"
    "length w = SQL_OPEN_SCAN_LEN"
    "sql_run fps env w (zip (heard chs is) (fir_outputs ops (sql_filter ops) (heard chs is))) squelch_init = Inr (sq p1)"
proof -
  obtain rx where rx: "the_receiver chs (start_receivers ops chs) = Some rx" "rx_ok rx"
    "num_ch rx = channel_count chs" "ch_ofs rx = chosen_channel chs" "filter_sql rx = sql_filter ops"
    "length (rx_hist rx) = RECEIVER_BUF_COPY"
    by (rule the_receiver_start [OF assms(1), of ops])
  let ?w = "lastn SQL_OPEN_SCAN_LEN (rx_hist rx)"
  have w: "length ?w = SQL_OPEN_SCAN_LEN" using rx(6) by (simp add: c_consts)
  obtain rx1 where "\<And>s. receiver_blocks ops fps env lv rx (as_blocks chs is) s =
     res_bind (sql_run fps env ?w (zip (heard chs is) (fir_outputs ops (sql_filter ops) (heard chs is))) s) (\<lambda>s1. Inr (rx1, s1))"
    using receiver_blocks_ok [OF rx(2) as_blocks_ok [OF assms(1) rx(3,4) assms(2)], of ops lv]
    unfolding rx(5) stream_of_heard [OF rx(3,4)] by blast
  then have "receiver_blocks ops fps env lv rx (as_blocks chs is) s0 = Inr (rx1, s1)"
    if "sql_run fps env ?w (zip (heard chs is) (fir_outputs ops (sql_filter ops) (heard chs is))) s0 = Inr s1" for s0 s1
    using that by simp
  moreover obtain s1 where s1: "sql_run fps env ?w (zip (heard chs is) (fir_outputs ops (sql_filter ops) (heard chs is))) squelch_init = Inr s1"
    using sql_run_total [OF assms(4) w] by blast
  moreover have "\<not> is_done (start_receivers ops chs)" "sq (start_receivers ops chs) = squelch_init"
    by (simp_all add: start_receivers_def)
  ultimately obtain p1 where "main_loop ops fps env lv chs from_file sound_out is (start_receivers ops chs) = Inr p1" "sq p1 = s1"
    using loop_is_blocks [OF assms(1) rx(1) _ assms(3), where ops = ops and fps = fps and env = env and lv = lv
        and sound_out = sound_out and ?rx1.0 = rx1 and ?s1.0 = s1] by auto
  then show ?thesis using that [of p1 ?w] w s1 by simp
qed

subsection \<open>Silence\<close>

text \<open>The arithmetic makes nothing out of nothing: it holds of \<open>float\<close> and of the integers.\<close>

definition silent_ops :: "'f fops \<Rightarrow> bool" where
  "silent_ops ops \<longleftrightarrow> f_of_short ops 0 = f_zero ops
     \<and> f_to_short ops (fir_dot ops (replicate COEFFS_L (f_zero ops)) (literals ops coeffs_sql)) = 0"

lemma fir_outputs_silent:
  assumes "silent_ops ops" "\<forall>x\<in>set xs. x = 0"
  shows "\<forall>y\<in>set (fir_outputs ops (sql_filter ops) xs). y = 0"
proof -
  let ?z = "f_zero ops"
  have t: "taps (sql_filter ops) = literals ops coeffs_sql" by (simp add: sql_filter_def filter_init_def)
  have ok: "fir_ok COEFFS_L (sql_filter ops)" unfolding sql_filter_def by (rule fir_ok_init) (simp_all add: COEFFS_L_def BufferLen_def)
  have w: "fir_window (sql_filter ops) = replicate COEFFS_L ?z"
    unfolding sql_filter_def by (rule fir_window_init) (simp add: COEFFS_L_def BufferLen_def)
  have z: "map (f_of_short ops) (take k xs) = replicate (min (length xs) k) ?z" for k
    using assms by (intro replicate_eqI) (auto simp: silent_ops_def dest: in_set_takeD)
  have "fir_outputs ops (sql_filter ops) xs ! k = 0" if "k < length xs" for k
    using fir_outputs_nth [OF ok that, of ops] assms(1)
    by (simp add: z w t silent_ops_def lastn_def replicate_add [symmetric])
  then show ?thesis by (auto simp: in_set_conv_nth)
qed

text \<open>Half a second of it makes the squelch open, and the program report it first of all.\<close>

lemma silence_opens:
  assumes "silent_ops ops" "\<forall>x\<in>set xs. x = 0" "25030 \<le> length xs"
  shows "\<exists>evs. snd (ctl_run (ctl_of squelch_init) (fir_outputs ops (sql_filter ops) xs)) = Ev_open # evs"
proof -
  define hps where "hps = fir_outputs ops (sql_filter ops) xs"
  have z: "\<forall>h\<in>set hps. sint h = 0" using fir_outputs_silent [OF assms(1,2)] by (auto simp: hps_def)
  have l: "25030 \<le> length hps" using assms(3) by (simp add: hps_def)
  have c: "\<not> c_open (ctl_of squelch_init)" by (simp add: ctl_of_def squelch_init_def)
  have "ctl_ok (ctl_of squelch_init)" using sql_ok_init by (simp add: sql_ok_def)
  from ctl_quiet_event [OF this c z l] show ?thesis
    using ctl_run_hd [of "ctl_of squelch_init" hps] c
    by (cases "snd (ctl_run (ctl_of squelch_init) hps)") (auto simp: hps_def)
qed

lemma silence_reported:
  assumes "single chs" "list_all (input_ok chs) is" "list_all (goes_on from_file) is" "fps_ok fps"
    and "silent_ops ops" "\<forall>x\<in>set (heard chs is). x = 0" "25030 \<le> length (heard chs is)"
  shows "\<exists>p1 evs. main_loop ops fps env lv chs from_file sound_out is (start_receivers ops chs) = Inr p1
    \<and> adds squelch_init (sq p1) (Ev_open # evs)"
proof -
  obtain p1 w where p1: "main_loop ops fps env lv chs from_file sound_out is (start_receivers ops chs) = Inr p1"
    "sql_run fps env w (zip (heard chs is) (fir_outputs ops (sql_filter ops) (heard chs is))) squelch_init = Inr (sq p1)"
    by (rule program_is_run [OF assms(1-4)])
  obtain evs where "snd (ctl_run (ctl_of squelch_init) (fir_outputs ops (sql_filter ops) (heard chs is))) = Ev_open # evs"
    using silence_opens [OF assms(5-7)] by blast
  then show ?thesis using p1 sql_run_refines [OF sql_ok_init p1(2)] by auto
qed

text \<open>A second of silence, as four reads of a file.\<close>

definition silence :: "input list" where
  "silence = replicate 4 \<lparr>i_buffer = replicate 8192 0, i_read = 8192, i_sigint = False, i_now_a = (0, 0), i_now_b = (0, 0)\<rparr>"

lemma silence_ok: "list_all (input_ok SOUND_CHANNELS_MONO) silence" "list_all (goes_on b) silence"
  by (simp_all add: silence_def list_all_iff input_ok_def goes_on_def rx_consts channel_count_def)

lemma heard_silence: "heard SOUND_CHANNELS_MONO silence = replicate 32768 0"
proof -
  have "channel (drop (chosen_channel SOUND_CHANNELS_MONO) (replicate 8192 (0 :: s16))) (channel_count SOUND_CHANNELS_MONO) 8192 = replicate 8192 0"
    by (rule replicate_eqI) (auto simp: channel_def chosen_channel_def channel_count_def sound_channels_defs)
  moreover have "concat (replicate 4 (replicate 8192 (0 :: s16))) = replicate 32768 0"
    by (rule replicate_eqI) (auto simp: length_concat sum_list_replicate)
  ultimately show ?thesis by (simp add: heard_def silence_def map_replicate)
qed

lemma silence_heard: "\<forall>x\<in>set (heard SOUND_CHANNELS_MONO silence). x = 0" "25030 \<le> length (heard SOUND_CHANNELS_MONO silence)"
  unfolding heard_silence by simp_all

lemma int_fops_silent: "silent_ops int_fops"
  by (simp add: silent_ops_def int_fops_def fir_dot_def literals_def coeffs_sql_def COEFFS_L_def numeral_nat)

lemma single_mono: "single SOUND_CHANNELS_MONO"
  by (simp add: single_def)

section \<open>Properties\<close>

text \<open>C6. The program refines the abstract squelch: with one receiver, from start-up, the state of
  the squelch and the reports are those of the abstract squelch over the filtered samples of the
  chosen channel, wherever the reads cut the sound and whatever the clock says.\<close>

theorem program_refines_squelch:
  assumes "single chs" "list_all (input_ok chs) is" "list_all (goes_on from_file) is" "fps_ok fps"
  shows "let c = ctl_run (ctl_of squelch_init) (fir_outputs ops (sql_filter ops) (heard chs is)) in
    \<exists>p1. main_loop ops fps env lv chs from_file sound_out is (start_receivers ops chs) = Inr p1
    \<and> ctl_of (sq p1) = fst c \<and> adds squelch_init (sq p1) (snd c)"
proof -
  obtain p1 w where p1: "main_loop ops fps env lv chs from_file sound_out is (start_receivers ops chs) = Inr p1"
    "sql_run fps env w (zip (heard chs is) (fir_outputs ops (sql_filter ops) (heard chs is))) squelch_init = Inr (sq p1)"
    by (rule program_is_run [OF assms(1-4)])
  have "map snd (zip (heard chs is) (fir_outputs ops (sql_filter ops) (heard chs is))) = fir_outputs ops (sql_filter ops) (heard chs is)"
    by simp
  then show ?thesis using p1(1) sql_run_refines [OF sql_ok_init p1(2)] by (auto simp: Let_def)
qed

theorem program_refines_squelch_witness:
  "\<exists>p1 evs. main_loop int_fops [] still_env 0 SOUND_CHANNELS_MONO True True silence
      (start_receivers int_fops SOUND_CHANNELS_MONO) = Inr p1
    \<and> adds squelch_init (sq p1) (Ev_open # evs)"
proof -
  obtain evs where e: "snd (ctl_run (ctl_of squelch_init) (fir_outputs int_fops (sql_filter int_fops) (heard SOUND_CHANNELS_MONO silence))) = Ev_open # evs"
    using silence_opens [OF int_fops_silent silence_heard] by blast
  show ?thesis
    using program_refines_squelch [OF single_mono silence_ok(1) silence_ok(2) [of True] fps_ok_Nil,
        of int_fops still_env 0 True]
    by (auto simp: Let_def e)
qed

end
