(* ===== verification/Input.thy ===== *)
theory Input
  imports Cfg Fingerpori
begin

section \<open>Sound input (\<open>input.c\<close>, \<open>hmalloc.c\<close>, the reads of \<open>edysquelch.c\<close>)\<close>

text \<open>
  How the program gets its frames: the set-up of the ALSA device, a read from it, and
  \<open>fread\<close> from a file. ALSA is a parameter, the record of its answers; so is \<open>malloc\<close>, a
  predicate on sizes.
\<close>

subsection \<open>Allocation that ends the program\<close>

definition hmalloc :: "(u64 \<Rightarrow> bool) \<Rightarrow> u64 \<Rightarrow> stop + unit" where
  "hmalloc malloc sz = (if malloc sz then Inr () else Inl (Exits 1))"

subsection \<open>The device\<close>

text \<open>The answers of ALSA; \<open>a_period_size\<close> is the period it settles on, in frames.\<close>

record alsa =
  a_any :: int
  a_access :: int
  a_format :: int
  a_channels :: "nat \<Rightarrow> int"
  a_rate :: int
  a_period :: int
  a_params :: int
  a_period_size :: u64

text \<open>The conversion of an unsigned long to an \<open>int\<close>.\<close>

definition to_int :: "u64 \<Rightarrow> int" where
  "to_int w = sint (ucast w :: u32)"

text \<open>The result is the status with the zeroed buffer and its length in frames.\<close>

definition input_initialize :: "(u64 \<Rightarrow> bool) \<Rightarrow> alsa \<Rightarrow> int \<Rightarrow> stop + (int \<times> (s16 list \<times> int) option)" where
  "input_initialize malloc a sound_chs =
     (if a_any a < 0 then Inr (- 1, None)
      else if a_access a < 0 then Inr (- 1, None)
      else if a_format a < 0 then Inr (- 1, None)
      else
        let channels = (if sound_chs = SOUND_CHANNELS_MONO then 1 else 2) in
        if a_channels a channels < 0 then Inr (- 1, None)
        else if a_rate a < 0 then Inr (- 1, None)
        else if a_period a < 0 then Inr (- 1, None)
        else if a_params a < 0 then Inr (- 1, None)
        else
          let buffer_l = to_int (a_period_size a);
              buffer_len_in_bytes = to_int (word_of_int buffer_l * 2 * of_nat channels)
          in (case hmalloc malloc (word_of_int buffer_len_in_bytes) of
                Inl e \<Rightarrow> Inl e
              | Inr _ \<Rightarrow> Inr (0, Some (replicate (nat buffer_len_in_bytes div 2) 0, buffer_l))))"

definition EPIPE :: int where "EPIPE = 32"

text \<open>\<open>input_read\<close>: what it logs, whether it prepares the device again, and what it returns.\<close>

datatype read_log = Overrun | Read_error | Short_read int | Silent

definition input_read :: "int \<Rightarrow> int \<Rightarrow> read_log \<times> bool \<times> int" where
  "input_read err count =
     (if err = - EPIPE then (Overrun, True, err)
      else if err < 0 then (Read_error, False, err)
      else if err \<noteq> count then (Short_read err, False, err)
      else (Silent, False, err))"

text \<open>
  A read from the device puts its samples at the start of the buffer. \<open>snd_pcm_readi\<close> is a
  parameter: what it returned and what it stored.
\<close>

record dev_read =
  d_ret :: int
  d_samples :: "s16 list"

definition device_read :: "int \<Rightarrow> dev_read \<Rightarrow> s16 list \<Rightarrow> s16 list \<times> int" where
  "device_read count d buffer =
     (d_samples d @ drop (length (d_samples d)) buffer, snd (snd (input_read (d_ret d) count)))"

text \<open>As documented, it stores the frames it returns, and no more than it was asked for.\<close>

definition dev_read_ok :: "nat \<Rightarrow> int \<Rightarrow> dev_read \<Rightarrow> bool" where
  "dev_read_ok channels count d \<longleftrightarrow> d_ret d \<le> count \<and> length (d_samples d) = nat (d_ret d) * channels"

subsection \<open>A file\<close>

text \<open>Samples in memory as bytes; \<open>shorts_of_bytes\<close> is the other direction.\<close>

fun bytes_of_shorts :: "s16 list \<Rightarrow> 8 word list" where
  "bytes_of_shorts [] = []"
| "bytes_of_shorts (s # ss) = ucast s # ucast (drop_bit 8 s) # bytes_of_shorts ss"

text \<open>
  \<open>fread(buffer, channels * sizeof(short), buffer_l, f)\<close>: it returns complete frames only, but the
  bytes of an incomplete last frame are stored too. The last component is the rest of the file.
\<close>

definition fread_frames :: "nat \<Rightarrow> nat \<Rightarrow> s16 list \<Rightarrow> 8 word list \<Rightarrow> s16 list \<times> int \<times> 8 word list" where
  "fread_frames channels buffer_l buffer bytes =
     (let got = take (buffer_l * (channels * 2)) bytes
      in (shorts_of_bytes (got @ drop (length got) (bytes_of_shorts buffer)),
          int (length got div (channels * 2)),
          drop (buffer_l * (channels * 2)) bytes))"

subsection \<open>What the set-up gives\<close>

lemma to_int_of_nat: "n < 2 ^ 31 \<Longrightarrow> to_int (of_nat n) = int n"
proof -
  assume n: "n < 2 ^ 31"
  then have "to_int (of_nat n) = sint (word_of_int (int n) :: u32)" by (simp add: to_int_def ucast_of_nat_u32)
  also have "\<dots> = int n" by (rule sint_of_int32) (use n in simp_all)
  finally show ?thesis .
qed

lemma device_buffer:
  assumes "0 \<le> a_any a" "0 \<le> a_access a" "0 \<le> a_format a" "0 \<le> a_rate a" "0 \<le> a_period a" "0 \<le> a_params a"
    and "\<And>n. 0 \<le> a_channels a n" "a_period_size a = of_nat n" "n < 2 ^ 29"
    and m: "\<And>k. malloc k"
  shows "input_initialize malloc a chs =
    Inr (0, Some (replicate (n * (if chs = SOUND_CHANNELS_MONO then 1 else 2)) 0, int n))"
proof -
  have half: "nat (int n * 2) div 2 = n" "nat (4 * int n) div 2 = n * 2" by (simp_all add: nat_mult_distrib)
  have n: "to_int (of_nat n) = int n" using assms(9) by (simp add: to_int_of_nat)
  have "to_int (word_of_int (int n) * 2 * of_nat c) = int (n * 2 * c)" if "c \<le> 2" for c
  proof -
    have "n * 2 * c \<le> n * 2 * 2" by (rule mult_le_mono2 [OF that])
    also have "n * 2 * 2 < 2 ^ 31" using assms(9) by simp
    finally have "n * 2 * c < 2 ^ 31" .
    from to_int_of_nat [OF this] show ?thesis by simp
  qed
  from this [of 1] this [of 2] show ?thesis using assms half
    by (simp add: input_initialize_def Let_def n hmalloc_def not_less [symmetric])
qed

lemma device_failure:
  assumes "input_initialize malloc a chs = Inr (s, b)"
  shows "s = 0 \<and> b \<noteq> None \<or> s = - 1 \<and> b = None"
  using assms by (auto simp: input_initialize_def hmalloc_def Let_def split: if_splits)

lemma input_read_ret [simp]: "snd (snd (input_read err count)) = err"
  by (simp add: input_read_def)

subsection \<open>What a file gives\<close>

text \<open>A sample made of two bytes has no carry between them.\<close>

lemma two_bytes: "(ucast lo + 256 * ucast hi :: s16) = or (ucast (lo :: 8 word)) (push_bit 8 (ucast (hi :: 8 word)))"
proof -
  have "(256 :: s16) = 2 ^ 8" by simp
  then have p: "(256 * ucast hi :: s16) = push_bit 8 (ucast hi)"
    by (simp only: push_bit_eq_mult mult.commute)
  have "and (ucast lo) (push_bit 8 (ucast hi) :: s16) = 0"
    by (rule bit_word_eqI) (auto simp: bit_simps dest: bit_imp_le_length)
  then show ?thesis unfolding p by (rule disjunctive_add_eq_or)
qed

lemma shorts_bytes [simp]: "shorts_of_bytes (bytes_of_shorts ss @ bs) = ss @ shorts_of_bytes bs"
proof (induction ss)
  case (Cons s ss)
  have "(ucast (ucast s :: 8 word) + 256 * ucast (ucast (drop_bit 8 s) :: 8 word) :: s16) = s"
    unfolding two_bytes by (rule bit_word_eqI) (auto simp: bit_simps dest: bit_imp_le_length)
  then show ?case using Cons by simp
qed simp

lemma bytes_of_shorts_append [simp]: "bytes_of_shorts (a @ b) = bytes_of_shorts a @ bytes_of_shorts b"
  by (induction a) auto

lemma bytes_shorts: "even (length bs) \<Longrightarrow> bytes_of_shorts (shorts_of_bytes bs) = bs"
proof (induction bs rule: shorts_of_bytes.induct)
  case (1 lo hi bs)
  have "ucast (ucast lo + 256 * ucast hi :: s16) = lo" "ucast (drop_bit 8 (ucast lo + 256 * ucast hi :: s16)) = hi"
    unfolding two_bytes by (rule bit_word_eqI, auto simp: bit_simps dest: bit_imp_le_length)+
  then show ?case using 1 by simp
qed auto

lemma length_bytes_of_shorts [simp]: "length (bytes_of_shorts ss) = 2 * length ss"
  by (induction ss) auto

end
