(* ===== verification/Startup.thy ===== *)
theory Startup
  imports Edysquelch Input
begin

section \<open>From the command line to the exit status (\<open>edysquelch.c\<close>)\<close>

text \<open>
  The whole of \<open>main\<close>: command line, log, configuration, \<open>fork\<close>, pid file, fingerprints, the
  exporting thread, the sound source, the loop and the shutdown. What the system answers on the
  way is the record \<open>world\<close>.
\<close>

subsection \<open>What the system answers\<close>

text \<open>For each turn of the loop: whether \<open>SIGINT\<close> arrives, and the clock for each receiver.\<close>

record turn =
  t_sigint :: bool
  t_now_a :: "int \<times> int"
  t_now_b :: "int \<times> int"

record world =
  w_opts :: "(char \<times> string) list"
  w_log_fd :: int
  w_cfg :: "string \<Rightarrow> string option"
  w_fork :: int
  w_pid :: "string \<Rightarrow> pid_io"
  w_getpid :: nat
  w_scandir :: "string \<Rightarrow> string list option"
  w_alphasort :: "string list \<Rightarrow> string list"
  w_fp_files :: "string \<Rightarrow> io_file"
  w_unwritten :: unwritten
  w_thread :: int
  w_snd_open :: "string \<Rightarrow> int"
  w_alsa :: alsa
  w_malloc :: "u64 \<Rightarrow> bool"
  w_heap :: "nat \<Rightarrow> s16"
  w_sound_in :: "string \<Rightarrow> 8 word list option"
  w_sound_out :: "string \<Rightarrow> bool"
  w_early_sigint :: bool
  w_reads :: "dev_read list"
  w_turns :: "nat \<Rightarrow> turn"
  w_env :: "u64 \<Rightarrow> sql_env"

text \<open>
  How \<open>main\<close> leaves early: through \<open>exit\<close>, \<open>return\<close>, a lock or a crash of the logger, or a
  fault.
\<close>

datatype ending = Stopped stop | Faulted fault

type_synonym 'a run = "ending + 'a"

definition run_bind :: "'a run \<Rightarrow> ('a \<Rightarrow> 'b run) \<Rightarrow> 'b run" where
  "run_bind r k = (case r of Inl e \<Rightarrow> Inl e | Inr x \<Rightarrow> k x)"

lemma run_bind_simps [simp]:
  "run_bind (Inl e) k = Inl e"
  "run_bind (Inr x) k = k x"
  by (simp_all add: run_bind_def)

lemma run_bind_Inr_iff: "run_bind r k = Inr y \<longleftrightarrow> (\<exists>x. r = Inr x \<and> k x = Inr y)"
  by (cases r) auto

lemma run_bind_Inl_iff: "run_bind r k = Inl e \<longleftrightarrow> r = Inl e \<or> (\<exists>x. r = Inr x \<and> k x = Inl e)"
  by (cases r) auto

definition of_res :: "'a res \<Rightarrow> 'a run" where
  "of_res r = map_sum Faulted id r"

definition of_stop :: "stop + 'a \<Rightarrow> 'a run" where
  "of_stop r = map_sum Stopped id r"

lemma of_simps [simp]:
  "of_res (Inr x) = Inr x" "of_res (Inl e) = Inl (Faulted e)"
  "of_stop (Inr x) = Inr x" "of_stop (Inl s) = Inl (Stopped s)"
  by (simp_all add: of_res_def of_stop_def)

lemma of_res_iff [simp]: "of_res r = Inr x \<longleftrightarrow> r = Inr x" "of_res r = Inl (Stopped s) \<longleftrightarrow> False"
  by (cases r; simp)+

lemma of_stop_iff [simp]: "of_stop r = Inr x \<longleftrightarrow> r = Inr x" "of_stop r = Inl (Stopped s) \<longleftrightarrow> r = Inl s"
  by (cases r; simp)+

definition exits :: "int \<Rightarrow> 'a run" where
  "exits status = Inl (Stopped (Exits status))"

subsection \<open>Up to the receivers\<close>

text \<open>\<open>scandir\<close> with a null pointer, when no directory is configured, is a null pointer access.\<close>

definition load_fingerprints :: "world \<Rightarrow> config \<Rightarrow> fingerprint_t list run" where
  "load_fingerprints w c =
     (case fpdir c of
        None \<Rightarrow> Inl (Faulted Null_pointer)
      | Some dir \<Rightarrow>
          run_bind (of_res (fingerprints_load (w_unwritten w) (w_fp_files w) (w_alphasort w) (w_scandir w dir) dir []))
            (\<lambda>(ret, fps). Inr fps))"

definition daemonise :: "world \<Rightarrow> config \<Rightarrow> unit run" where
  "daemonise w c =
     (if fork_a_daemon c then
        if w_fork w < 0 then exits 1
        else if w_fork w = 0 then Inr ()
        else exits 0
      else Inr ())"

definition write_pidfile :: "world \<Rightarrow> config \<Rightarrow> unit run" where
  "write_pidfile w c =
     (case pidfile c of
        None \<Rightarrow> Inl (Faulted Null_pointer)
      | Some f \<Rightarrow> if snd (writepid (w_pid w f) (w_getpid w)) = 0 then exits 1 else Inr ())"

definition configure :: "world \<Rightarrow> config \<Rightarrow> (config \<times> logger) run" where
  "configure w c0 =
     (case parse_cmdline (w_opts w) c0 logger_init of
        Inl status \<Rightarrow> exits status
      | Inr (c1, g1) \<Rightarrow>
          run_bind (of_stop (open_log (w_log_fd w) (logname c1) False g1)) (\<lambda>g2.
          run_bind (of_res (read_config (w_cfg w) (log_dir g2) c1)) (\<lambda>(c2, ret).
          if ret \<noteq> 0 then exits 1 else Inr (c2, g2))))"

definition startup :: "world \<Rightarrow> config \<Rightarrow> (config \<times> logger \<times> fingerprint_t list) run" where
  "startup w c0 =
     run_bind (configure w c0) (\<lambda>(c, g).
     run_bind (daemonise w c) (\<lambda>_.
     run_bind (write_pidfile w c) (\<lambda>_.
     run_bind (load_fingerprints w c) (\<lambda>fps.
     if uplink_config c \<noteq> [] \<and> jsonout_init (w_thread w) \<noteq> 0 then exits 1
     else Inr (c, g, fps)))))"

subsection \<open>The sound source and the reads\<close>

datatype source = From_device "s16 list" int | From_file "s16 list" nat "8 word list"

definition open_source :: "world \<Rightarrow> config \<Rightarrow> source run" where
  "open_source w c =
     (case sound_device c of
        Some dev \<Rightarrow>
          if w_snd_open w dev < 0 then exits (- 1)
          else run_bind (of_stop (input_initialize (w_malloc w) (w_alsa w) (sound_channels c))) (\<lambda>(status, buf).
            case buf of None \<Rightarrow> exits (- 1) | Some (buffer, buffer_l) \<Rightarrow> Inr (From_device buffer buffer_l))
      | None \<Rightarrow>
          (case sound_in_file c of
             Some f \<Rightarrow>
               (case w_sound_in w f of
                  None \<Rightarrow> exits (- 1)
                | Some bytes \<Rightarrow>
                    let len = file_buffer_l * channel_count (sound_channels c) in
                    (case hmalloc (w_malloc w) (of_nat (len * 2)) of
                       Inl e \<Rightarrow> Inl (Stopped e)
                     | Inr _ \<Rightarrow> Inr (From_file (map (w_heap w) [0..<len]) file_buffer_l bytes)))
           | None \<Rightarrow> exits (- 1)))"

definition open_output :: "world \<Rightarrow> config \<Rightarrow> bool run" where
  "open_output w c =
     (case sound_out_file c of
        None \<Rightarrow> Inr False
      | Some f \<Rightarrow> if w_sound_out w f then Inr True else exits (- 1))"

text \<open>The reads of the loop, as its list of inputs; \<open>k\<close> counts the turns.\<close>

definition turn_input :: "turn \<Rightarrow> s16 list \<Rightarrow> int \<Rightarrow> input" where
  "turn_input t buffer n = \<lparr>i_buffer = buffer, i_read = n, i_sigint = t_sigint t, i_now_a = t_now_a t, i_now_b = t_now_b t\<rparr>"

fun device_inputs :: "(nat \<Rightarrow> turn) \<Rightarrow> nat \<Rightarrow> int \<Rightarrow> s16 list \<Rightarrow> dev_read list \<Rightarrow> input list" where
  "device_inputs turns k buffer_l buffer [] = []"
| "device_inputs turns k buffer_l buffer (d # ds) =
     (let (buffer1, n) = device_read buffer_l d buffer
      in turn_input (turns k) buffer1 n # device_inputs turns (k + 1) buffer_l buffer1 ds)"

function file_inputs :: "(nat \<Rightarrow> turn) \<Rightarrow> nat \<Rightarrow> nat \<Rightarrow> nat \<Rightarrow> s16 list \<Rightarrow> 8 word list \<Rightarrow> input list" where
  "file_inputs turns k channels buffer_l buffer bytes =
     (let (buffer1, n, rest) = fread_frames channels buffer_l buffer bytes
      in turn_input (turns k) buffer1 n
         # (if n \<le> 0 then [] else file_inputs turns (k + 1) channels buffer_l buffer1 rest))"
  by pat_completeness auto
termination
  by (relation "measure (\<lambda>(turns, k, channels, buffer_l, buffer, bytes). length bytes)")
    (auto simp: fread_frames_def Let_def zdiv_int min_def not_le intro!: diff_less split: if_splits)

declare file_inputs.simps [simp del]

definition source_inputs :: "world \<Rightarrow> config \<Rightarrow> source \<Rightarrow> input list" where
  "source_inputs w c src =
     (case src of
        From_device buffer buffer_l \<Rightarrow> device_inputs (w_turns w) 0 buffer_l buffer (w_reads w)
      | From_file buffer buffer_l bytes \<Rightarrow>
          file_inputs (w_turns w) 0 (channel_count (sound_channels c)) buffer_l buffer bytes)"

definition is_file :: "source \<Rightarrow> bool" where
  "is_file src = (case src of From_device b l \<Rightarrow> False | From_file b l bs \<Rightarrow> True)"

subsection \<open>The program\<close>

text \<open>
  \<open>Running\<close>: the reads given are used up and no signal has ended the loop. \<open>Returned\<close>: \<open>main\<close>
  has returned 0; the configuration has been freed and the log closed.
\<close>

datatype 'f course = Running "'f program" | Returned "'f program" config logger

definition free_config :: "config \<Rightarrow> config" where
  "free_config c = c\<lparr>uplink_config := free_uplink_config (uplink_config c)\<rparr>"

definition shutdown :: "config \<Rightarrow> logger \<Rightarrow> 'f program \<Rightarrow> 'f course run" where
  "shutdown c g p = run_bind (of_stop (close_log 0 False g)) (\<lambda>g1. Inr (Returned p (free_config c) g1))"

definition edy_main :: "'f fops \<Rightarrow> world \<Rightarrow> config \<Rightarrow> 'f course run" where
  "edy_main ops w c0 =
     run_bind (startup w c0) (\<lambda>(c, g, fps).
     run_bind (open_source w c) (\<lambda>src.
     run_bind (open_output w c) (\<lambda>sound_out.
     run_bind (of_res (main_loop ops fps (w_env w) (sound_levellog c) (sound_channels c) (is_file src) sound_out
                 (source_inputs w c src)
                 ((start_receivers ops (sound_channels c))\<lparr>is_done := w_early_sigint w\<rparr>)))
       (\<lambda>p. if is_done p then shutdown c g p else Inr (Running p)))))"

text \<open>What \<open>fwrite\<close> puts into the output file.\<close>

definition recorded_bytes :: "nat \<Rightarrow> 'f program \<Rightarrow> 8 word list" where
  "recorded_bytes channels p = concat (map (\<lambda>(buf, n). bytes_of_shorts (take (n * channels) buf)) (recorded p))"

subsection \<open>Reading a file\<close>

lemma take_shorts: "take k (shorts_of_bytes bs) = shorts_of_bytes (take (2 * k) bs)"
proof (induction bs arbitrary: k rule: shorts_of_bytes.induct)
  case (1 lo hi bs)
  then show ?case by (cases k) simp_all
qed (auto simp: take_Cons' split: nat.splits)

text \<open>One read: the counted frames are the next ones of the file, and the buffer keeps its size.\<close>

lemma fread_frames_ok:
  assumes "fread_frames nch l buf bytes = (buf1, n, rest)" "length buf = l * nch" "0 < nch"
  shows "length buf1 = l * nch" "n = int (min l (length bytes div (nch * 2)))"
    "bytes_of_shorts (take (nat n * nch) buf1) = take (nat n * (nch * 2)) bytes"
    "0 < n \<Longrightarrow> length rest < length bytes" "rest = drop (l * (nch * 2)) bytes"
proof -
  define got where "got = take (l * (nch * 2)) bytes"
  have got: "length got \<le> l * (nch * 2)" by (simp add: got_def)
  have b: "buf1 = shorts_of_bytes (got @ drop (length got) (bytes_of_shorts buf))"
    and n: "n = int (length got div (nch * 2))" and r: "rest = drop (l * (nch * 2)) bytes"
    using assms(1) by (simp_all add: fread_frames_def got_def Let_def)
  show "rest = drop (l * (nch * 2)) bytes" by (rule r)
  show "length buf1 = l * nch" using got assms(2) by (simp add: b)
  have m: "length got div (nch * 2) = min l (length bytes div (nch * 2))"
    using assms(3) by (simp add: got_def min_def div_le_mono less_eq_div_iff_mult_less_eq mult.commute)
  then show nm: "n = int (min l (length bytes div (nch * 2)))" by (simp add: n)
  have le: "nat n * (nch * 2) \<le> length got" by (simp add: n)
  have "take (2 * (nat n * nch)) (got @ drop (length got) (bytes_of_shorts buf)) = take (nat n * (nch * 2)) got"
    using le by (simp add: mult.commute mult.left_commute)
  then show "bytes_of_shorts (take (nat n * nch) buf1) = take (nat n * (nch * 2)) bytes"
    using le by (simp add: b take_shorts bytes_shorts got_def min_absorb1)
  show "length rest < length bytes" if "0 < n"
    using that assms(3) by (auto simp: r nm intro!: diff_less)
qed

definition input_frames :: "nat \<Rightarrow> input \<Rightarrow> 8 word list" where
  "input_frames nch i = bytes_of_shorts (take (nat (i_read i) * nch) (i_buffer i))"

lemma frames_split:
  assumes "got = take (nat n * w) bytes" "n = int (min l (length bytes div w))" "rest = drop (l * w) bytes"
  shows "got @ take (length rest div w * w) rest = take (length bytes div w * w) bytes"
proof (cases "l \<le> length bytes div w")
  case True
  have "l * w + length rest div w * w = length bytes div w * w"
  proof (cases "w = 0")
    case False
    have "l * w \<le> length bytes" using True False by (simp add: less_eq_div_iff_mult_less_eq)
    then have "length bytes div w = l + length rest div w"
      using False assms(3) div_mult_self3 [of w l "length bytes - l * w"] by (simp add: add.commute)
    then show ?thesis by (simp add: distrib_right)
  qed simp
  then show ?thesis using assms True by (simp add: min_absorb1 take_add [symmetric])
next
  case False
  then have "length bytes < l * w \<or> w = 0" by (metis div_less_iff_less_mult gr0I not_le)
  then show ?thesis using assms False by (auto simp: min_absorb2)
qed

text \<open>
  The reads of a file: each but the last counts at least one frame, the last none, and the
  frames counted are all the complete frames of the file, in order.
\<close>

lemma file_inputs_ok:
  assumes "length buf = l * channel_count chs" "0 < l" "l \<le> RECEIVER_BUFLEN div 2"
  shows "\<exists>pre z. file_inputs turns k (channel_count chs) l buf bytes = pre @ [z] \<and> i_read z = 0
    \<and> (\<forall>i\<in>set pre. 0 < i_read i \<and> input_ok chs i) \<and> i_sigint z = t_sigint (turns (k + length pre))
    \<and> (\<forall>j<length pre. i_sigint (pre ! j) = t_sigint (turns (k + j)))
    \<and> concat (map (input_frames (channel_count chs)) pre)
       = take (length bytes div (channel_count chs * 2) * (channel_count chs * 2)) bytes"
  using assms(1)
proof (induction "length bytes" arbitrary: bytes buf k rule: less_induct)
  case less
  let ?c = "channel_count chs"
  have c: "0 < ?c" by (simp add: channel_count_def)
  obtain buf1 n rest where f: "fread_frames ?c l buf bytes = (buf1, n, rest)" by (metis prod_cases3)
  note ok = fread_frames_ok [OF f less.prems c]
  let ?i = "turn_input (turns k) buf1 n"
  show ?case
  proof (cases "0 < n")
    case False
    have "0 \<le> n" unfolding ok(2) by (rule of_nat_0_le_iff)
    with False have "n = 0" by linarith
    then have "length bytes div (?c * 2) = 0" using ok(2) assms(2) by (simp add: min_def split: if_splits)
    moreover have "file_inputs turns k ?c l buf bytes = [] @ [?i]"
      using False by (subst file_inputs.simps) (simp add: f)
    ultimately show ?thesis using \<open>n = 0\<close>
      by (intro exI [of _ "[]"] exI [of _ ?i]) (simp add: turn_input_def)
  next
    case True
    obtain pre z where pz: "file_inputs turns (k + 1) ?c l buf1 rest = pre @ [z]" "i_read z = 0"
      "\<forall>i\<in>set pre. 0 < i_read i \<and> input_ok chs i" "i_sigint z = t_sigint (turns (k + 1 + length pre))"
      "\<forall>j<length pre. i_sigint (pre ! j) = t_sigint (turns (k + 1 + j))"
      "concat (map (input_frames ?c) pre) = take (length rest div (?c * 2) * (?c * 2)) rest"
      using less.hyps [OF ok(4) [OF True] ok(1), of "k + 1"] by blast
    have e: "file_inputs turns k ?c l buf bytes = (?i # pre) @ [z]"
      using True by (subst file_inputs.simps) (simp add: f pz(1) [simplified])
    have i: "0 < i_read ?i" "input_ok chs ?i" "i_sigint ?i = t_sigint (turns k)"
      using True assms(3) ok(1,2) by (auto simp: input_ok_def turn_input_def)
    have fr: "input_frames ?c ?i = take (nat n * (?c * 2)) bytes" using ok(3) by (simp add: input_frames_def turn_input_def)
    have "input_frames ?c ?i @ take (length rest div (?c * 2) * (?c * 2)) rest
        = take (length bytes div (?c * 2) * (?c * 2)) bytes"
      by (rule frames_split [OF fr ok(2,5)])
    then show ?thesis using e i pz
      by (intro exI [of _ "?i # pre"] exI [of _ z]) (auto simp: nth_Cons split: nat.splits)
  qed
qed

subsection \<open>The loop over a file\<close>

lemma main_loop_file:
  assumes "program_ok chs p" "\<not> is_done p" "fps_ok fps" "i_read z = 0"
    and "\<forall>i\<in>set pre. 0 < i_read i \<and> input_ok chs i \<and> \<not> i_sigint i"
  shows "\<exists>p1. main_loop ops fps env lv chs True sound_out (pre @ [z]) p = Inr p1 \<and> program_ok chs p1 \<and> is_done p1
    \<and> recorded p1 = recorded p @ (if sound_out then map (\<lambda>i. (i_buffer i, nat (i_read i))) pre else [])"
  using assms(1,2,5)
proof (induction pre arbitrary: p)
  case Nil
  have z: "input_ok chs z" by (simp add: input_ok_def assms(4))
  show ?case
    using main_turn_ok [OF Nil(1) z assms(3), of ops env lv True sound_out] Nil(2) assms(4) by auto
next
  case (Cons i pre)
  obtain p1 where p1: "main_turn ops fps env lv chs True sound_out i p = Inr p1" "program_ok chs p1"
    "is_done p1 = (is_done p \<or> i_sigint i \<or> True \<and> i_read i \<le> 0)"
    "recorded p1 = recorded p @ (if sound_out \<and> 0 < i_read i then [(i_buffer i, nat (i_read i))] else [])"
    using main_turn_ok [OF Cons.prems(1) _ assms(3), of i ops env lv True sound_out] Cons.prems(3) by auto
  then have "\<not> is_done p1" using Cons.prems by simp
  from Cons.IH [OF p1(2) this] p1 Cons.prems show ?case by (auto simp: fun_eq_iff)
qed

lemma recorded_inputs:
  "concat (map (\<lambda>(buf, n). bytes_of_shorts (take (n * nch) buf)) (map (\<lambda>i. (i_buffer i, nat (i_read i))) is))
     = concat (map (input_frames nch) is)"
  by (induction "is") (simp_all add: input_frames_def)

subsection \<open>The loop over a device\<close>

lemma device_inputs_ok:
  assumes "list_all (dev_read_ok (channel_count chs) l) ds" "length buf = nat l * channel_count chs"
    "l \<le> int (RECEIVER_BUFLEN div 2)"
  shows "list_all (input_ok chs) (device_inputs turns k l buf ds)"
  using assms(1,2)
proof (induction ds arbitrary: k buf)
  case (Cons d ds)
  have d: "d_ret d \<le> l" "length (d_samples d) = nat (d_ret d) * channel_count chs"
    using Cons.prems(1) by (simp_all add: dev_read_ok_def)
  have le: "nat (d_ret d) * channel_count chs \<le> nat l * channel_count chs"
    by (rule mult_le_mono1) (use d(1) in simp)
  then have b: "length (d_samples d @ drop (length (d_samples d)) buf) = nat l * channel_count chs"
    using d(2) Cons.prems(2) by simp
  have i: "input_ok chs (turn_input (turns k) (d_samples d @ drop (length (d_samples d)) buf) (d_ret d))"
    using d le assms(3) b by (simp add: input_ok_def turn_input_def)
  have r: "list_all (input_ok chs) (device_inputs turns (k + 1) l (d_samples d @ drop (length (d_samples d)) buf) ds)"
    by (rule Cons.IH) (use Cons.prems b in simp_all)
  show ?case using i r by (simp add: device_read_def)
qed simp

subsection \<open>Start-up succeeds\<close>

text \<open>A file of the fingerprint directory that gives nothing, or a usable fingerprint.\<close>

definition fp_file_ok :: "world \<Rightarrow> string \<Rightarrow> string \<Rightarrow> bool" where
  "fp_file_ok w d f =
     (case w_fp_files w (fp_path d f) of
        Opened st_size (Some bytes) \<Rightarrow>
          length bytes = st_size \<longrightarrow> 0 < usable_len (fp_path d f) st_size
            \<and> 2200 * usable_len (fp_path d f) st_size < 2 ^ 31
            \<and> (strstr (fp_path d f) ''unfiltered'' \<noteq> None \<or> u_slack (w_unwritten w) \<noteq> [])
      | _ \<Rightarrow> True)"

definition dir_ok :: "world \<Rightarrow> string \<Rightarrow> bool" where
  "dir_ok w d =
     (case w_scandir w d of
        None \<Rightarrow> True
      | Some es \<Rightarrow>
          let names = w_alphasort w (filter fingerprint_filematch es)
          in length names \<le> TOPLEN \<and> list_all (fp_file_ok w d) names)"

lemma load_one_ok:
  assumes "fp_file_ok w d f"
  shows "\<exists>new. load_one (w_unwritten w) (w_fp_files w) d f = Inr new \<and> length new \<le> 1 \<and> list_all fp_ok new"
proof (cases "\<exists>st_size bytes. w_fp_files w (fp_path d f) = Opened st_size (Some bytes) \<and> length bytes = st_size")
  case False
  then have "load_one (w_unwritten w) (w_fp_files w) d f = Inr []"
    by (auto simp: load_one_def fingerprint_load_def Let_def split: io_file.splits option.splits)
  then show ?thesis by simp
next
  case True
  then obtain bytes where o: "w_fp_files w (fp_path d f) = Opened (length bytes) (Some bytes)" by auto
  then have u: "0 < usable_len (fp_path d f) (length bytes)" "2200 * usable_len (fp_path d f) (length bytes) < 2 ^ 31"
    "strstr (fp_path d f) ''unfiltered'' \<noteq> None \<or> u_slack (w_unwritten w) \<noteq> []"
    using assms by (simp_all add: fp_file_ok_def)
  obtain fp where fp: "fingerprint_load (w_unwritten w) (w_fp_files w) d f [] = Inr (0, fp # [])"
    "fp_len fp = usable_len (fp_path d f) (length bytes)" "length (fp_samples fp) = length bytes div 2"
    by (rule fingerprint_load_success [where fps = "[]" and fs = "w_fp_files w" and d = d and f = f
          and bytes = bytes and st_size = "length bytes" and un = "w_unwritten w"]) (use o u in auto)
  have "usable_len (fp_path d f) (length bytes) \<le> length bytes div 2" by (simp add: usable_len_def)
  then have "fp_ok fp" using u fp by (simp add: fp_ok_def)
  then show ?thesis using fp(1) by (simp add: load_one_def)
qed

lemma loaded_fps_ok:
  assumes "fpdir c = Some d" "dir_ok w d"
  shows "\<exists>fps. load_fingerprints w c = Inr fps \<and> fps_ok fps"
proof (cases "w_scandir w d")
  case None
  then show ?thesis using assms(1) by (simp add: load_fingerprints_def fingerprints_load_def fps_ok_Nil)
next
  case (Some es)
  let ?names = "w_alphasort w (filter fingerprint_filematch es)"
  have n: "length ?names \<le> TOPLEN" "\<And>f. f \<in> set ?names \<Longrightarrow> fp_file_ok w d f"
    using assms(2) Some by (simp_all add: dir_ok_def Let_def list_all_iff)
  obtain new where new: "\<forall>f\<in>set ?names. load_one (w_unwritten w) (w_fp_files w) d f = Inr (new f)
      \<and> length (new f) \<le> 1 \<and> list_all fp_ok (new f)"
    using bchoice [of "set ?names"] load_one_ok [OF n(2)] by metis
  have l: "length (concat (map new fs)) \<le> length fs" if "set fs \<subseteq> set ?names" for fs
    using that
  proof (induction fs)
    case (Cons f fs)
    then have "length (new f) \<le> 1" using new by simp
    then show ?case using Cons by simp
  qed simp
  have "length (concat (map new ?names)) \<le> TOPLEN" by (rule le_trans [OF l n(1)]) simp
  then have "fps_ok (concat (map new ?names))" using new by (auto simp: fps_ok_def list_all_iff)
  then show ?thesis
    using fingerprints_load_ok [of "w_alphasort w" es "w_unwritten w" "w_fp_files w" d new "[]"] new assms(1) Some
    by (simp add: load_fingerprints_def)
qed

text \<open>Everything up to the sound source succeeds.\<close>

definition starts :: "world \<Rightarrow> config \<Rightarrow> config \<Rightarrow> logger \<Rightarrow> bool" where
  "starts w c0 c g \<longleftrightarrow> configure w c0 = Inr (c, g) \<and> daemonise w c = Inr () \<and> write_pidfile w c = Inr ()
     \<and> (case fpdir c of None \<Rightarrow> False | Some d \<Rightarrow> dir_ok w d) \<and> (uplink_config c = [] \<or> w_thread w = 0)"

lemma starts_startup:
  assumes "starts w c0 c g"
  shows "\<exists>fps. startup w c0 = Inr (c, g, fps) \<and> fps_ok fps"
proof -
  obtain d where d: "fpdir c = Some d" "dir_ok w d" using assms by (auto simp: starts_def split: option.splits)
  obtain fps where "load_fingerprints w c = Inr fps" "fps_ok fps" using loaded_fps_ok [OF d] by blast
  then show ?thesis using assms by (auto simp: starts_def startup_def jsonout_init_def)
qed

lemma configure_logger:
  assumes "configure w c0 = Inr (c, g)"
  shows "log_file_lock g = rwl_init" "\<exists>n. log_name g = Some n"
proof -
  obtain c1 g1 where 1: "parse_cmdline (w_opts w) c0 logger_init = Inr (c1, g1)"
    "open_log (w_log_fd w) (logname c1) False g1 = Inr g"
    using assms by (auto simp: configure_def exits_def run_bind_Inr_iff split: sum.splits if_splits prod.splits)
  then have "log_file_lock g1 = rwl_init" using parse_cmdline_ok [OF 1(1)] by (simp add: logger_ok_def)
  then show "log_file_lock g = rwl_init" "\<exists>n. log_name g = Some n"
    using 1(2) by (auto simp: open_log_def wrlock_def rwl_wrlock_def rwl_init_def rwl_wrunlock_def Let_def
        split: if_splits option.splits)
qed

lemma shutdown_ok:
  assumes "configure w c0 = Inr (c, g)"
  shows "\<exists>g1. shutdown c g p = Inr (Returned p (free_config c) g1) \<and> log_file_lock g1 = rwl_init \<and> log_name g1 = None"
  using configure_logger [OF assms]
  by (auto simp: shutdown_def close_log_def wrlock_def rwl_wrlock_def rwl_init_def rwl_wrunlock_def Let_def)

lemma program_ok_early: "program_ok chs ((start_receivers ops chs)\<lparr>is_done := e\<rparr>)"
  using program_ok_start [of chs ops] by (simp add: program_ok_def)

lemma recorded_start [simp]: "recorded (start_receivers ops chs) = []"
  by (simp add: start_receivers_def)

subsection \<open>A concrete world\<close>

text \<open>A silent machine, for the examples: the pid file can be written, no fingerprints, a file of five bytes.\<close>

definition quiet_world :: "(char \<times> string) list \<Rightarrow> string \<Rightarrow> world" where
  "quiet_world opts cfg = \<lparr>w_opts = opts, w_log_fd = 3, w_cfg = (\<lambda>_. Some cfg), w_fork = 0,
     w_pid = (\<lambda>_. \<lparr>pid_fopen = True, pid_fprintf = 3, pid_fclose = 0\<rparr>), w_getpid = 42,
     w_scandir = (\<lambda>_. None), w_alphasort = (\<lambda>xs. xs), w_fp_files = (\<lambda>_. Open_fails),
     w_unwritten = \<lparr>u_sum = 0, u_heap = \<lambda>_. 0, u_slack = []\<rparr>, w_thread = 0, w_snd_open = (\<lambda>_. 0),
     w_alsa = \<lparr>a_any = 0, a_access = 0, a_format = 0, a_channels = \<lambda>_. 0, a_rate = 0, a_period = 0,
                a_params = 0, a_period_size = 4096\<rparr>,
     w_malloc = (\<lambda>_. True), w_heap = (\<lambda>_. 0), w_sound_in = (\<lambda>_. Some [1, 0, 2, 0, 3]), w_sound_out = (\<lambda>_. True),
     w_early_sigint = False, w_reads = [\<lparr>d_ret = - 32, d_samples = []\<rparr>, \<lparr>d_ret = 1, d_samples = [7]\<rparr>],
     w_turns = (\<lambda>_. \<lparr>t_sigint = False, t_now_a = (0, 0), t_now_b = (0, 0)\<rparr>), w_env = still_env\<rparr>"

definition fp_cfg :: string where "fp_cfg = ''fingerprints fp'' @ [CHR 0x0A]"

lemma fgets_line: "CHR 0x0A \<notin> set s \<Longrightarrow> length s < n \<Longrightarrow> fgets n (s @ [CHR 0x0A] @ t) = (s @ [CHR 0x0A], t)"
proof (induction s arbitrary: n)
  case Nil
  then show ?case by (cases n) simp_all
next
  case (Cons c s)
  then show ?case by (cases n) auto
qed

lemma read_line:
  assumes "cmdparse cmds (s @ [CHR 0x0A]) c = Inr (c1, 0)" "CHR 0x0A \<notin> set s" "CHR 0x00 \<notin> set s" "length s < CFGLINE_LEN - 1"
  shows "read_lines cmds (s @ [CHR 0x0A] @ t) c = read_lines cmds t c1"
proof -
  have "cstr (s @ [CHR 0x0A]) = s @ [CHR 0x0A]" by (rule cstr_no_nul) (use assms(3) in simp)
  then show ?thesis
    by (subst read_lines.simps) (simp add: fgets_line [OF assms(2,4), simplified] assms(1))
qed

lemma read_fp_cfg: "read_lines cfg_cmds fp_cfg c = Inr (c\<lparr>fpdir := Some ''fp''\<rparr>, 0)"
proof -
  have l: "fgets (CFGLINE_LEN - 1) fp_cfg = (fp_cfg, [])"
    using fgets_line [of "''fingerprints fp''" "CFGLINE_LEN - 1" "[]"] by (simp add: fp_cfg_def CFGLINE_LEN_def)
  have l2: "fp_cfg \<noteq> []" "cstr fp_cfg = fp_cfg" by code_simp+
  have p: "parse_args fp_cfg = [''fingerprints'', ''fp'']" "strlwr ''fingerprints'' = ''fingerprints''" by code_simp+
  have "find_command cfg_cmds (fst (cfg_cmds ! 1)) = Some (cfg_cmds ! 1)"
    by (rule find_command_names) (simp add: length_cfg_cmds)
  then have "cmdparse cfg_cmds fp_cfg c = Inr (c\<lparr>fpdir := Some ''fp''\<rparr>, 0)"
    by (simp add: cmdparse_def p Let_def cfg_cmds_def do_string_def)
  then show ?thesis by (subst read_lines.simps) (simp add: l [simplified] l2 read_lines.simps)
qed



definition file_opts :: "(char \<times> string) list" where
  "file_opts = [(CHR ''l'', ''in.raw''), (CHR ''s'', ''out.raw'')]"

lemma quiet_configure:
  "\<exists>c g. configure (quiet_world file_opts fp_cfg) (config_init ''edy'') = Inr (c, g) \<and> sound_device c = None
     \<and> sound_in_file c = Some ''in.raw'' \<and> sound_out_file c = Some ''out.raw'' \<and> fpdir c = Some ''fp''
     \<and> \<not> fork_a_daemon c \<and> pidfile c = Some ''./edy.pid'' \<and> uplink_config c = [] \<and> sound_channels c = SOUND_CHANNELS_MONO"
  "\<exists>c g. configure (quiet_world [] fp_cfg) (config_init ''edy'') = Inr (c, g) \<and> sound_device c = Some ''default''
     \<and> sound_out_file c = None \<and> fpdir c = Some ''fp'' \<and> \<not> fork_a_daemon c \<and> pidfile c = Some ''./edy.pid''
     \<and> uplink_config c = [] \<and> sound_channels c = SOUND_CHANNELS_MONO"
  by (simp_all add: configure_def quiet_world_def parse_cmdline_def file_opts_def one_option_def logger_init_def
      L_STDERR_def L_FILE_def open_log_def wrlock_def rwl_wrlock_def rwl_init_def rwl_wrunlock_def Let_def read_config_def
      read_cfgfile_def read_fp_cfg apply_defaults_def config_init_def pidfile_name_def def_sound_device_def)


lemma configure_cong:
  "w_opts w = w_opts v \<Longrightarrow> w_log_fd w = w_log_fd v \<Longrightarrow> w_cfg w = w_cfg v \<Longrightarrow> configure w c0 = configure v c0"
  by (simp only: configure_def)

lemma quiet_starts:
  assumes "configure w c0 = Inr (c, g)" "w_scandir w = (\<lambda>_. None)"
    "w_pid w = (\<lambda>_. \<lparr>pid_fopen = True, pid_fprintf = 3, pid_fclose = 0\<rparr>)" "fpdir c = Some d" "\<not> fork_a_daemon c" "pidfile c = Some f"
    "uplink_config c = []"
  shows "starts w c0 c g"
  using assms by (simp add: starts_def dir_ok_def daemonise_def write_pidfile_def writepid_def)

definition example_cfg :: string where
  "example_cfg = ''SoundDevice default'' @ [CHR 0x0A] @ ''SoundChannels both'' @ [CHR 0x0A] @ ''SoundLevelLog 1'' @ [CHR 0x0A]"

lemma read_example_cfg:
  "\<exists>c1. read_lines cfg_cmds example_cfg c = Inr (c1, 0) \<and> fpdir c1 = fpdir c \<and> fork_a_daemon c1 = fork_a_daemon c"
proof -
  let ?c1 = "c\<lparr>sound_device := Some ''default''\<rparr>"
  let ?c2 = "?c1\<lparr>sound_channels := SOUND_CHANNELS_BOTH\<rparr>"
  let ?c3 = "?c2\<lparr>sound_levellog := 1\<rparr>"
  let ?l = "CFGLINE_LEN - 1"
  have p: "parse_args (''SoundDevice default'' @ [CHR 0x0A]) = [''SoundDevice'', ''default'']"
    "parse_args (''SoundChannels both'' @ [CHR 0x0A]) = [''SoundChannels'', ''both'']"
    "parse_args (''SoundLevelLog 1'' @ [CHR 0x0A]) = [''SoundLevelLog'', ''1'']"
    "strlwr ''SoundDevice'' = ''sounddevice''" "strlwr ''SoundChannels'' = ''soundchannels''"
    "strlwr ''SoundLevelLog'' = ''soundlevellog''" "c_atoi ''1'' = 1"
    "strcasecmp_eq ''both'' ''mono'' = False" "strcasecmp_eq ''both'' ''both''"
    by code_simp+
  have n: "fst (cfg_cmds ! 5) = ''sounddevice''" "fst (cfg_cmds ! 8) = ''soundchannels''"
    "fst (cfg_cmds ! 9) = ''soundlevellog''"
    by (simp_all add: cfg_cmds_def)
  have f: "i < 10 \<Longrightarrow> find_command cfg_cmds (fst (cfg_cmds ! i)) = Some (cfg_cmds ! i)" for i
    by (rule find_command_names) (simp add: length_cfg_cmds)
  note f = f [of 5, unfolded n] f [of 8, unfolded n] f [of 9, unfolded n]
  have d: "cmdparse cfg_cmds (''SoundDevice default'' @ [CHR 0x0A]) c = Inr (?c1, 0)"
    "cmdparse cfg_cmds (''SoundChannels both'' @ [CHR 0x0A]) ?c1 = Inr (?c2, 0)"
    "cmdparse cfg_cmds (''SoundLevelLog 1'' @ [CHR 0x0A]) ?c2 = Inr (?c3, 0)"
    unfolding cmdparse_def p
    by (simp_all add: f p Let_def) (simp_all add: cfg_cmds_def do_string_def do_int_def do_sound_ch_def p)
  have s: "read_lines cfg_cmds (''SoundDevice default'' @ [CHR 0x0A] @ t) c = read_lines cfg_cmds t ?c1"
    "read_lines cfg_cmds (''SoundChannels both'' @ [CHR 0x0A] @ t) ?c1 = read_lines cfg_cmds t ?c2"
    "read_lines cfg_cmds (''SoundLevelLog 1'' @ [CHR 0x0A] @ t) ?c2 = read_lines cfg_cmds t ?c3" for t
    by (rule read_line; use d in \<open>simp add: CFGLINE_LEN_def\<close>)+
  have e: "example_cfg = ''SoundDevice default'' @ [CHR 0x0A] @ ''SoundChannels both'' @ [CHR 0x0A]
      @ ''SoundLevelLog 1'' @ [CHR 0x0A] @ []"
    by (simp add: example_cfg_def)
  have "read_lines cfg_cmds example_cfg c = Inr (?c3, 0)"
    unfolding e s by (subst read_lines.simps) simp
  then show ?thesis by simp
qed

section \<open>Properties\<close>







text \<open>A configuration without a fingerprint directory hands a null pointer to \<open>scandir\<close>: the
  example configuration of the repository is one.\<close>

lemma no_directory_faults:
  assumes "configure w c0 = Inr (c, g)" "daemonise w c = Inr ()" "write_pidfile w c = Inr ()" "fpdir c = None"
  shows "edy_main ops w c0 = Inl (Faulted Null_pointer)"
  using assms by (simp add: edy_main_def startup_def load_fingerprints_def)

lemma no_directory_faults_example:
  "edy_main int_fops (quiet_world [] example_cfg) (config_init ''edy'') = Inl (Faulted Null_pointer)"
proof -
  obtain c1 where c1: "read_lines cfg_cmds example_cfg (config_init ''edy'') = Inr (c1, 0)" "fpdir c1 = None" "\<not> fork_a_daemon c1"
    using read_example_cfg [of "config_init ''edy''"] by (auto simp: config_init_def)
  let ?c = "apply_defaults None c1"
  have c: "fpdir ?c = None" "\<not> fork_a_daemon ?c" "\<exists>f. pidfile ?c = Some f"
    using c1 by (auto simp: apply_defaults_def Let_def)
  obtain g where "configure (quiet_world [] example_cfg) (config_init ''edy'') = Inr (?c, g)"
    using c1 by (auto simp: configure_def quiet_world_def parse_cmdline_def logger_init_def
        L_STDERR_def L_FILE_def open_log_def wrlock_def rwl_wrlock_def rwl_init_def rwl_wrunlock_def Let_def read_config_def
        read_cfgfile_def)
  from no_directory_faults [OF this _ _ c(1), of int_fops] c show ?thesis
    by (auto simp: daemonise_def write_pidfile_def writepid_def quiet_world_def)
qed


text \<open>The program ends with status 0 before the loop only as the parent of a daemon; every
  other early end of it has status 1 or -1.\<close>

lemma early_exit_status:
  assumes "edy_main ops w c0 = Inl (Stopped (Exits status))"
  shows "status \<in> {0, 1, - 1} \<and> (status = 0 \<longrightarrow> (\<exists>c g. configure w c0 = Inr (c, g) \<and> fork_a_daemon c \<and> 0 < w_fork w))"
proof -
  have mal: "hmalloc m k = Inl e \<Longrightarrow> e = Exits 1" for m k e by (simp add: hmalloc_def split: if_splits)
  have ini: "input_initialize m a chs = Inl e \<Longrightarrow> e = Exits 1" for m a chs e
    by (auto simp: input_initialize_def Let_def split: if_splits sum.splits dest: mal)
  have opl: "open_log fd nm False g = Inl (Exits s) \<Longrightarrow> s = 1" for fd nm g s
    by (auto simp: open_log_def wrlock_def Let_def split: if_splits sum.splits option.splits outcome.splits)
  have cl: "close_log fd False g = Inl (Exits s) \<Longrightarrow> s = 1" for fd g s
    by (auto simp: close_log_def wrlock_def Let_def split: if_splits sum.splits option.splits outcome.splits)
  have conf: "configure w c0 = Inl (Stopped (Exits s)) \<Longrightarrow> s = 1" for s
    by (auto simp: configure_def exits_def run_bind_Inl_iff parse_cmdline_def Let_def
        split: sum.splits prod.splits if_splits dest!: opl)
  have dae: "daemonise w c = Inl (Stopped (Exits s)) \<Longrightarrow> s = 1 \<or> s = 0 \<and> fork_a_daemon c \<and> 0 < w_fork w" for c s
    by (auto simp: daemonise_def exits_def split: if_splits)
  have pid: "write_pidfile w c = Inl (Stopped (Exits s)) \<Longrightarrow> s = 1" for c s
    by (auto simp: write_pidfile_def exits_def split: option.splits if_splits)
  have fp: "load_fingerprints w c \<noteq> Inl (Stopped (Exits s))" for c s
    by (auto simp: load_fingerprints_def run_bind_Inl_iff split: option.splits)
  have su: "startup w c0 = Inl (Stopped (Exits s)) \<Longrightarrow> s = 1 \<or> s = 0 \<and> (\<exists>c g. configure w c0 = Inr (c, g) \<and> fork_a_daemon c \<and> 0 < w_fork w)" for s
    by (auto simp: startup_def run_bind_Inl_iff fp exits_def split: prod.splits if_splits dest!: conf dae pid)
  have src: "open_source w c = Inl (Stopped (Exits s)) \<Longrightarrow> s = 1 \<or> s = - 1" for c s
    by (auto simp: open_source_def exits_def run_bind_Inl_iff Let_def split: option.splits if_splits sum.splits dest!: mal ini)
  have out: "open_output w c = Inl (Stopped (Exits s)) \<Longrightarrow> s = - 1" for c s
    by (auto simp: open_output_def exits_def split: option.splits if_splits)
  have sh: "shutdown c g p = Inl (Stopped (Exits s)) \<Longrightarrow> s = 1" for c g s and p :: "'a program"
    by (auto simp: shutdown_def run_bind_Inl_iff dest!: cl)
  show ?thesis using assms
    by (auto simp: edy_main_def run_bind_Inl_iff split: prod.splits if_splits dest!: su src out sh)
qed


lemma early_exit_status_example:
  "edy_main int_fops ((quiet_world [(CHR ''f'', [])] fp_cfg)\<lparr>w_fork := 7\<rparr>) (config_init ''edy'') = Inl (Stopped (Exits 0))
    \<and> (\<exists>c g. configure ((quiet_world [(CHR ''f'', [])] fp_cfg)\<lparr>w_fork := 7\<rparr>) (config_init ''edy'') = Inr (c, g) \<and> fork_a_daemon c)"
proof -
  let ?w = "(quiet_world [(CHR ''f'', [])] fp_cfg)\<lparr>w_fork := 7\<rparr>"
  have "edy_main int_fops ?w (config_init ''edy'') = Inl (Stopped (Exits 0))"
    by (simp add: edy_main_def startup_def daemonise_def exits_def configure_def quiet_world_def parse_cmdline_def
        one_option_def logger_init_def L_STDERR_def L_FILE_def open_log_def wrlock_def rwl_wrlock_def rwl_init_def
        rwl_wrunlock_def Let_def read_config_def read_cfgfile_def read_fp_cfg apply_defaults_def config_init_def
        pidfile_name_def def_sound_device_def)
  with early_exit_status [OF this] show ?thesis by auto
qed

end
