(* ===== verification/Reports.thy ===== *)
theory Reports
  imports Cjson_parse Cjson_edit Startup Sound_stream
begin

section \<open>What the reports look like, and that they can be read\<close>

text \<open>
  The interface to whoever receives the reports: the types of their fields, and that the text
  posted is read back by the parser of \<open>cJSON.c\<close> as the tree it was printed from.
\<close>

subsection \<open>The trees of \<open>notify_out\<close>, \<open>notify_out_sql\<close> and \<open>notify_out_over_end\<close>\<close>

definition named :: "string \<Rightarrow> cJSON \<Rightarrow> cJSON" where
  "named n c = with_name c n"

definition shorts :: "s16 list \<Rightarrow> cJSON" where
  "shorts xs = CJSON cJSON_Array (map (\<lambda>x. cJSON_CreateNumber (sint x)) xs) None 0 None"

definition object_of :: "(string \<times> cJSON) list \<Rightarrow> cJSON" where
  "object_of fs = CJSON cJSON_Object (map (\<lambda>(n, c). named n c) fs) None 0 None"

definition over_end_tree :: "string \<Rightarrow> int \<Rightarrow> int \<Rightarrow> cJSON" where
  "over_end_tree i t d = object_of
     [(''id'', cJSON_CreateString i), (''event'', cJSON_CreateString ''sqlend''), (''t'', cJSON_CreateNumber t),
      (''duration'', cJSON_CreateNumber d)]"

definition sql_tree :: "string \<Rightarrow> int \<Rightarrow> int \<Rightarrow> s16 list \<Rightarrow> cJSON" where
  "sql_tree i t n xs = object_of
     [(''id'', cJSON_CreateString i), (''event'', cJSON_CreateString ''sql''), (''t'', cJSON_CreateNumber t),
      (''duration'', cJSON_CreateNumber (- 1)), (''lnoise'', cJSON_CreateNumber n), (''rx'', shorts xs)]"

definition match_tree :: "string \<Rightarrow> int \<Rightarrow> int \<Rightarrow> fingerprint_t \<Rightarrow> s16 list \<Rightarrow> int \<Rightarrow> int \<Rightarrow> cJSON" where
  "match_tree i t q fp xs ofs n = object_of
     [(''id'', cJSON_CreateString i), (''event'', cJSON_CreateString ''match''), (''t'', cJSON_CreateNumber t),
      (''duration'', cJSON_CreateNumber (- 1)), (''q'', cJSON_CreateNumber q), (''fplen'', cJSON_CreateNumber (int (fp_len fp))),
      (''name'', cJSON_CreateString (fp_name fp)), (''fp'', shorts (take (fp_len fp) (fp_samples fp))), (''rx'', shorts xs),
      (''rxofs'', cJSON_CreateNumber ofs), (''lnoise'', cJSON_CreateNumber n)]"

lemmas object_defs = object_of_def named_def shorts_def cJSON_AddStringToObject_def cJSON_AddNumberToObject_def
  cJSON_AddItemToObject_def cJSON_CreateObject_def short_array_eq

lemma notify_trees:
  "notify_out_over_end e d s = notify_queue (over_end_tree (current_event_id s) (e_time e) (uint d)) s"
  "notify_out_sql e xs n s = (let i = fst (event_id (e_tod e) EVENT_ID_SIZE) in
     notify_queue (sql_tree i (e_time e) n xs) (s\<lparr>current_event_id := i\<rparr>))"
  "notify_out e q fp xs ofs n s = (let i = fst (event_id (e_tod e) EVENT_ID_SIZE) in
     notify_queue (match_tree i (e_time e) q fp xs ofs n) (s\<lparr>current_event_id := i\<rparr>))"
  by (simp_all add: notify_out_over_end_def notify_out_sql_def notify_out_def Let_def over_end_tree_def sql_tree_def
      match_tree_def object_defs)

text \<open>
  The calls that build them, and with them the reports in memory: a report is built, printed and
  deleted (\<open>notify_queue\<close>) without leaving anything allocated.
\<close>

definition over_end_calls :: "string \<Rightarrow> int \<Rightarrow> int \<Rightarrow> jedit list" where
  "over_end_calls i t d = [Add_string ''id'' i, Add_string ''event'' ''sqlend'', Add_number ''t'' t, Add_number ''duration'' d]"

definition sql_calls :: "string \<Rightarrow> int \<Rightarrow> int \<Rightarrow> s16 list \<Rightarrow> jedit list" where
  "sql_calls i t n xs = [Add_string ''id'' i, Add_string ''event'' ''sql'', Add_number ''t'' t, Add_number ''duration'' (- 1),
     Add_number ''lnoise'' n, Add_shorts ''rx'' xs]"

definition match_calls :: "string \<Rightarrow> int \<Rightarrow> int \<Rightarrow> fingerprint_t \<Rightarrow> s16 list \<Rightarrow> int \<Rightarrow> int \<Rightarrow> jedit list" where
  "match_calls i t q fp xs ofs n = [Add_string ''id'' i, Add_string ''event'' ''match'', Add_number ''t'' t,
     Add_number ''duration'' (- 1), Add_number ''q'' q, Add_number ''fplen'' (int (fp_len fp)), Add_string ''name'' (fp_name fp),
     Add_shorts ''fp'' (take (fp_len fp) (fp_samples fp)), Add_shorts ''rx'' xs, Add_number ''rxofs'' ofs, Add_number ''lnoise'' n]"

lemma report_calls:
  "foldl edit cJSON_CreateObject (over_end_calls i t d) = over_end_tree i t d"
  "foldl edit cJSON_CreateObject (sql_calls i t n xs) = sql_tree i t n xs"
  "foldl edit cJSON_CreateObject (match_calls i t q fp xs ofs n) = match_tree i t q fp xs ofs n"
  by (simp_all add: over_end_calls_def sql_calls_def match_calls_def over_end_tree_def sql_tree_def match_tree_def object_defs)

lemma report_leaves_nothing:
  assumes "small h0" "jalloc_ok A" "jalloc_full A"
    and "j \<in> {(over_end_calls i t d, over_end_tree i t d), (sql_calls i t n xs, sql_tree i t n xs),
      (match_calls i t q fp xs ofs n, match_tree i t q fp xs ofs n)}"
  shows "\<exists>h1 a h2. cJSON_CreateObject_mem A h0 = (h1, Some a) \<and> edits_mem A (Some a) (fst j) h1 = Some (Inr h2)
    \<and> holds h0 a (snd j) h2 \<and> cJSON_Delete (Some a) h2 = Some (Inr h0)"
proof -
  have "foldl edit cJSON_CreateObject (fst j) = snd j" using assms(4) report_calls by auto
  moreover obtain h1 a where o: "cJSON_CreateObject_mem A h0 = (h1, Some a)" "holds h0 a cJSON_CreateObject h1"
    by (rule create_object_holds [OF assms(1-3)])
  moreover obtain h2 where "edits_mem A (Some a) (fst j) h1 = Some (Inr h2)" "holds h0 a (foldl edit cJSON_CreateObject (fst j)) h2"
    using edits_ok [OF assms(1-3) o(2)] by blast
  ultimately show ?thesis using holds_delete by metis
qed

subsection \<open>Any property of the trees is kept\<close>

lemma avg_loop_len: "sample_filter_avg_loop dst src len i = Inr (ys, n) \<Longrightarrow> n = max len i - FILTER_AVG_LEN"
proof (induction dst src len i rule: sample_filter_avg_loop.induct)
  case (1 dst src len i)
  show ?case
    using "1.prems" "1.IH"
    by (subst (asm) sample_filter_avg_loop.simps)
      (auto simp: res_bind_Inr_iff split: if_splits)
qed

lemma scan_open_all:
  assumes "scan_open fps e src s = Inr s1" "list_all P (trees s)"
    and "\<And>xs. P (sql_tree (fst (event_id (e_tod e) EVENT_ID_SIZE)) (e_time e) 1200 xs)"
    and "\<And>m samples len. search_fingerprints fps samples len 1200 = Inr (Some m) \<Longrightarrow> len \<le> SQL_OPEN_SCAN_LEN \<Longrightarrow>
      P (match_tree (fst (event_id (e_tod e) EVENT_ID_SIZE)) (e_time e) (sint (r_q m)) (r_fp m) (r_rx m) (r_ofs m) (r_last_noise m))"
  shows "list_all P (trees s1)"
proof -
  have c: "int SQL_OPEN_SCAN_LEN - int SQL_ABSVAL_DIVIDER = 1200" by (simp add: sql_consts)
  obtain ys n where f: "sample_filter_avg (map (\<lambda>i. e_stack e (int i)) [0..<SQL_OPEN_SCAN_LEN]) src SQL_OPEN_SCAN_LEN = Inr (ys, n)"
    using assms(1) by (auto simp: scan_open_def res_bind_Inr_iff)
  have n: "n \<le> SQL_OPEN_SCAN_LEN"
    using f by (auto simp: sample_filter_avg_def res_bind_Inr_iff dest!: avg_loop_len)
  show ?thesis
    using assms(1,2) assms(3) assms(4) [OF _ n] unfolding scan_open_def f
    by (auto simp: res_bind_Inr_iff Let_def notify_trees c split: option.splits)
qed

lemma check_sql_all:
  assumes "check_sql fps e mem pos s = Inr s1" "list_all P (trees s)"
    and "sql_open s \<Longrightarrow> P (over_end_tree (current_event_id s) (e_time e) (uint (over_length s)))"
    and "\<And>xs. P (sql_tree (fst (event_id (e_tod e) EVENT_ID_SIZE)) (e_time e) 1200 xs)"
    and "\<And>m samples len. search_fingerprints fps samples len 1200 = Inr (Some m) \<Longrightarrow> len \<le> SQL_OPEN_SCAN_LEN \<Longrightarrow>
      P (match_tree (fst (event_id (e_tod e) EVENT_ID_SIZE)) (e_time e) (sint (r_q m)) (r_fp m) (r_rx m) (r_ofs m) (r_last_noise m))"
  shows "list_all P (trees s1)"
proof -
  define s2 where "s2 = (if sql_open s \<and> sql_absval_sum s > of_nat SQL_ABSVAL_THR_CLOSE
    then (notify_out_over_end e (over_length s) s)\<lparr>sql_open := False\<rparr> else s)"
  have 2: "list_all P (trees s2)" using assms(2,3) by (simp add: s2_def notify_trees)
  show ?thesis
  proof (cases "\<not> sql_open s2 \<and> sql_absval_sum s2 < of_nat SQL_ABSVAL_THR_OPEN")
    case True
    then have "scan_open fps e (drop (pos - SQL_OPEN_SCAN_LEN) mem) (s2\<lparr>sql_open := True, sql_open_at_pos := sql_pos s2\<rparr>) = Inr s1"
      using assms(1) by (simp add: check_sql_def s2_def [symmetric] Let_def split: if_splits)
    then show ?thesis by (rule scan_open_all) (use 2 assms(4,5) in simp_all)
  next
    case False
    then have "s1 = s2" using assms(1) unfolding check_sql_def s2_def [symmetric] Let_def if_not_P [OF False] by simp
    then show ?thesis using 2 by simp
  qed
qed

lemma check_sql_frame:
  assumes "check_sql fps e mem pos s = Inr s1"
  shows "sql_pos s1 = sql_pos s" "sql_open_at_pos s1 = sql_open_at_pos s \<or> sql_open_at_pos s1 = sql_pos s"
    "current_event_id s1 = current_event_id s \<or> current_event_id s1 = fst (event_id (e_tod e) EVENT_ID_SIZE)"
  using check_sql_pos [OF assms] assms
  by (auto simp: check_sql_def Let_def notify_trees notify_queue_def split: if_splits dest!: scan_open_effect)

subsection \<open>Types\<close>

datatype field = F_string | F_number | F_shorts

fun field_ok :: "field \<Rightarrow> cJSON \<Rightarrow> bool" where
  "field_ok F_string c \<longleftrightarrow> jtype c = cJSON_String \<and> jvaluestring c \<noteq> None \<and> jchild c = []"
| "field_ok F_number c \<longleftrightarrow> jtype c = cJSON_Number \<and> jvaluestring c = None \<and> jchild c = []"
| "field_ok F_shorts c \<longleftrightarrow> jtype c = cJSON_Array \<and> jvaluestring c = None
     \<and> list_all (\<lambda>d. jtype d = cJSON_Number \<and> jchild d = [] \<and> - 32768 \<le> jvalue d \<and> jvalue d < 32768) (jchild c)"

type_synonym schema = "(string \<times> field) list"

definition conforms :: "schema \<Rightarrow> cJSON \<Rightarrow> bool" where
  "conforms sch t \<longleftrightarrow> jtype t = cJSON_Object \<and> jstring t = None
     \<and> list_all2 (\<lambda>(n, f) c. jstring c = Some n \<and> field_ok f c) sch (jchild t)"

definition report_schemas :: "(string \<times> schema) list" where
  "report_schemas =
     [(''sqlend'', [(''id'', F_string), (''event'', F_string), (''t'', F_number), (''duration'', F_number)]),
      (''sql'', [(''id'', F_string), (''event'', F_string), (''t'', F_number), (''duration'', F_number),
                 (''lnoise'', F_number), (''rx'', F_shorts)]),
      (''match'', [(''id'', F_string), (''event'', F_string), (''t'', F_number), (''duration'', F_number),
                   (''q'', F_number), (''fplen'', F_number), (''name'', F_string), (''fp'', F_shorts), (''rx'', F_shorts),
                   (''rxofs'', F_number), (''lnoise'', F_number)])]"

definition well_typed :: "cJSON \<Rightarrow> bool" where
  "well_typed t \<longleftrightarrow> list_ex (\<lambda>(ev, sch). str_field t ''event'' = Some ev \<and> conforms sch t) report_schemas"

lemma named_simps [simp]:
  "jstring (named n c) = Some n" "jvaluestring (named n c) = jvaluestring c" "jtype (named n c) = jtype c"
  "jchild (named n c) = jchild c" "jvalue (named n c) = jvalue c"
  by (cases c; simp add: named_def)+

lemma field_oks [simp]:
  "field_ok F_string (named n (cJSON_CreateString s))" "field_ok F_number (named n (cJSON_CreateNumber i))"
  by (simp_all add: cJSON_CreateString_def cJSON_CreateNumber_def)

lemma field_ok_shorts [simp]: "field_ok F_shorts (named n (shorts xs))"
proof -
  have "- 32768 \<le> sint x \<and> sint x < 32768" for x :: s16 using sint_range16 [of x] by simp
  then show ?thesis by (simp add: shorts_def cJSON_CreateNumber_def list_all_iff)
qed

lemma trees_well_typed:
  "well_typed (over_end_tree i t d)" "well_typed (sql_tree i t n xs)" "well_typed (match_tree i t q fp ys ofs n)"
proof -
  have e: "str_field (object_of ((''id'', x) # (''event'', cJSON_CreateString v) # fs)) ''event'' = Some v" for x v fs
    by (simp add: object_of_def str_field_def cJSON_GetObjectItem_def cJSON_strcasecmp_def strcasecmp_eq_def c_tolower_def
        cJSON_CreateString_def)
  have c: "conforms sch (object_of fs) \<longleftrightarrow> list_all2 (\<lambda>(n, f) c. jstring c = Some n \<and> field_ok f c) sch (map (\<lambda>(n, c). named n c) fs)"
    for sch fs
    by (simp add: conforms_def object_of_def)
  show "well_typed (over_end_tree i t d)" "well_typed (sql_tree i t n xs)" "well_typed (match_tree i t q fp ys ofs n)"
    by (simp_all add: well_typed_def report_schemas_def over_end_tree_def sql_tree_def match_tree_def e c del: field_ok.simps)
qed

subsection \<open>Along a run\<close>

text \<open>A sample that is no fifteenth changes neither trees nor id; the fifteenth calls \<open>check_sql\<close>.\<close>

lemma sql_sample_cases:
  assumes "sql_sample fps env mem pos hp s = Inr s1"
  obtains (tick) "trees s1 = trees s" "current_event_id s1 = current_event_id s" "sql_pos s1 = sql_pos s + 1"
      "sql_open_at_pos s1 = sql_open_at_pos s"
  | (check) s2 where "check_sql fps (env (sql_pos s + 1)) mem pos s2 = Inr s1" "trees s2 = trees s"
      "current_event_id s2 = current_event_id s" "sql_pos s2 = sql_pos s + 1" "sql_open_at_pos s2 = sql_open_at_pos s"
  using assms by (auto simp: sql_sample_def Let_def split: if_splits)

lemma sql_run_typed:
  "sql_run fps env w xs s = Inr s1 \<Longrightarrow> list_all well_typed (trees s) \<Longrightarrow> list_all well_typed (trees s1)"
proof (induction fps env w xs s rule: sql_run.induct)
  case (2 fps env w x hp xs s)
  obtain s2 where s2: "sql_sample fps env w SQL_OPEN_SCAN_LEN hp s = Inr s2" "sql_run fps env (tl (w @ [x])) xs s2 = Inr s1"
    using 2(2) by (auto simp: res_bind_Inr_iff)
  have "list_all well_typed (trees s2)"
    using s2(1)
  proof (cases rule: sql_sample_cases)
    case (check s3)
    show ?thesis by (rule check_sql_all [OF check(1)]) (use 2(3) check(2) trees_well_typed in auto)
  qed (use 2(3) in simp)
  then show ?case by (rule 2(1) [OF s2(2)])
qed simp

lemma sq_runs_typed:
  "sq_runs fps env n s s1 \<Longrightarrow> list_all well_typed (trees s) \<Longrightarrow> list_all well_typed (trees s1)"
  by (induction rule: sq_runs.induct) (auto dest: sql_run_typed)

subsection \<open>Reports can be read\<close>

text \<open>The clock stays within an \<open>int\<close>, and names of fingerprints come from C strings.\<close>

definition clock_ok :: "(u64 \<Rightarrow> sql_env) \<Rightarrow> bool" where
  "clock_ok env \<longleftrightarrow> (\<forall>k. - (2 ^ 31) \<le> e_time (env k) \<and> e_time (env k) < 2 ^ 31)"

definition names_ok :: "fingerprint_t list \<Rightarrow> bool" where
  "names_ok fps \<longleftrightarrow> list_all (\<lambda>f. CHR 0x00 \<notin> set (fp_name f)) fps"

definition readable :: "cJSON \<Rightarrow> bool" where
  "readable t \<longleftrightarrow> canon t \<and> jstring t = None"

lemma canon_shorts: "canon (shorts xs)"
proof -
  have "- 2147483648 \<le> sint x \<and> sint x < 2147483648" for x :: s16 using sint_range16 [of x] by simp
  then show ?thesis by (simp add: shorts_def cJSON_CreateNumber_def list_all_iff cJSON_types)
qed

lemma canon_fields:
  "canon (cJSON_CreateNumber i) \<longleftrightarrow> - (2 ^ 31) \<le> i \<and> i < 2 ^ 31" "canon (cJSON_CreateString v) \<longleftrightarrow> CHR 0x00 \<notin> set v"
  by (auto simp: cJSON_CreateNumber_def cJSON_CreateString_def cJSON_types no_nul_def)

lemma readable_object:
  "list_all (\<lambda>(n, c). CHR 0x00 \<notin> set n \<and> canon c) fs \<Longrightarrow> readable (object_of fs)"
proof -
  have "canon (named n c) = canon c" for n c by (cases c) (simp add: named_def)
  then show "list_all (\<lambda>(n, c). CHR 0x00 \<notin> set n \<and> canon c) fs \<Longrightarrow> readable (object_of fs)"
    by (auto simp: readable_def object_of_def list_all_iff no_nul_def cJSON_types)
qed

lemma event_id_no_nul: "CHR 0x00 \<notin> set (fst (event_id tv n))"
proof -
  have p: "CHR 0x00 \<notin> set (pad0 w k)" for w k using dec_nat_no_nul [of k] by (auto simp: pad0_def)
  have "CHR 0x00 \<notin> set (take k xs)" if "CHR 0x00 \<notin> set xs" for k and xs :: string
    using that in_set_takeD by fast
  then show ?thesis using p by (auto simp: event_id_def Let_def split: option.splits)
qed

lemma over_length_int:
  assumes "sql_open_at_pos s \<le> sql_pos s" "unat (sql_pos s) < 2 ^ 36"
  shows "uint (over_length s) < 2 ^ 31"
proof -
  have "unat (sql_pos s - sql_open_at_pos s) \<le> unat (sql_pos s)"
    using assms(1) by (simp add: unat_sub_u64 word_le_nat_alt)
  then have u: "unat (sql_pos s - sql_open_at_pos s) < 2 ^ 36" using assms(2) by (rule le_less_trans)
  have small: "u * 1000 mod 2 ^ 64 div 48000 < 2 ^ 31" if "u < 2 ^ 36" for u :: nat
  proof -
    have "u * 1000 mod 2 ^ 64 = u * 1000" by (rule mod_less) (use that in simp)
    then show ?thesis using that by (simp add: less_mult_imp_div_less)
  qed
  have "unat (over_length s) < 2 ^ 31"
    unfolding unat_over_length SAMPLE_RATE_def by (rule small [OF u])
  then show ?thesis by (metis of_nat_less_numeral_power_cancel_iff uint_nat)
qed

lemma search_report:
  assumes "search_fingerprints fps samples len 1200 = Inr (Some m)" "fps_ok fps" "len \<le> SQL_OPEN_SCAN_LEN"
  shows "r_fp m \<in> set fps" "0 \<le> r_ofs m" "r_ofs m < 2 ^ 31" "- (2 ^ 31) \<le> r_last_noise m" "r_last_noise m < 2 ^ 31"
    "2200 * fp_len (r_fp m) < 2 ^ 31"
proof -
  have f: "\<forall>f\<in>set fps. fp_ok f" "length (hits samples len fps) \<le> TOPLEN"
    using assms(2) le_trans [OF length_filter_le [of "hit samples len" fps]] by (auto simp: fps_ok_def list_all_iff)
  obtain k where k: "k < length (hits samples len fps)" "m = report_of samples len 1200 (hits samples len fps ! k)"
    using search_fingerprints_eq [OF f, of 1200] assms(1) by (cases "hits samples len fps = []") (auto simp: least_score_def)
  let ?f = "hits samples len fps ! k"
  have h: "?f \<in> set fps" "hit samples len ?f" using nth_mem [OF k(1)] by auto
  have p: "place samples len ?f < len" using hit_cases(2) [OF _ h(2)] f(1) h(1) by blast
  have l: "2200 * fp_len ?f < 2 ^ 31" using f(1) h(1) by (simp add: fp_ok_def)
  have len: "len \<le> 2400" using assms(3) by (simp add: sql_consts)
  show "r_fp m \<in> set fps" "2200 * fp_len (r_fp m) < 2 ^ 31" using h(1) l by (simp_all add: k(2) report_of_def Let_def)
  have o: "r_ofs m = int (fp_len ?f) div 2" "r_last_noise m = 1200 - int (place samples len ?f) + int (fp_len ?f) + int (fp_len ?f) div 2"
    by (simp_all add: k(2) report_of_def Let_def)
  show "0 \<le> r_ofs m" "r_ofs m < 2 ^ 31" "- (2 ^ 31) \<le> r_last_noise m" "r_last_noise m < 2 ^ 31"
    using o l p len by simp_all
qed

definition readable_inv :: "nat \<Rightarrow> squelch \<Rightarrow> bool" where
  "readable_inv k s \<longleftrightarrow> list_all readable (trees s) \<and> CHR 0x00 \<notin> set (current_event_id s)
     \<and> sql_open_at_pos s \<le> sql_pos s \<and> unat (sql_pos s) = k"

lemma check_sql_readable:
  assumes "check_sql fps e mem pos s = Inr s1" "readable_inv k s" "k < 2 ^ 36" "fps_ok fps" "names_ok fps"
    and t: "- (2 ^ 31) \<le> e_time e" "e_time e < 2 ^ 31"
  shows "readable_inv k s1"
proof -
  note inv = assms(2) [unfolded readable_inv_def]
  note fr = check_sql_frame [OF assms(1)]
  have end_: "readable (over_end_tree (current_event_id s) (e_time e) (uint (over_length s)))"
  proof -
    have "uint (over_length s) < 2 ^ 31" by (rule over_length_int) (use inv assms(3) in auto)
    moreover have "- (2 ^ 31) \<le> uint (over_length s)" by (rule order_trans [OF _ uint_ge_0]) simp
    ultimately show ?thesis unfolding over_end_tree_def
      by (intro readable_object) (use inv t in \<open>simp add: canon_fields\<close>)
  qed
  have id_: "CHR 0x00 \<notin> set (fst (event_id (e_tod e) EVENT_ID_SIZE))" by (rule event_id_no_nul)
  have all: "list_all readable (trees s1)"
  proof (rule check_sql_all [OF assms(1)])
    show "readable (sql_tree (fst (event_id (e_tod e) EVENT_ID_SIZE)) (e_time e) 1200 xs)" for xs
      unfolding sql_tree_def by (intro readable_object) (use t id_ in \<open>simp add: canon_fields canon_shorts\<close>)
    show "readable (match_tree (fst (event_id (e_tod e) EVENT_ID_SIZE)) (e_time e) (sint (r_q m)) (r_fp m) (r_rx m) (r_ofs m) (r_last_noise m))"
      if m: "search_fingerprints fps samples len 1200 = Inr (Some m)" "len \<le> SQL_OPEN_SCAN_LEN" for m samples len
    proof -
      note r = search_report [OF m(1) assms(4) m(2)]
      have n: "CHR 0x00 \<notin> set (fp_name (r_fp m))" using assms(5) r(1) by (simp add: names_ok_def list_all_iff)
      have q: "- (2 ^ 31) \<le> sint (r_q m)" "sint (r_q m) < 2 ^ 31"
        using sint_range_size [of "r_q m"] by (simp_all add: word_size)
      show ?thesis unfolding match_tree_def
        by (intro readable_object) (use t id_ n q r in \<open>simp add: canon_fields canon_shorts\<close>)
    qed
  qed (use inv end_ in auto)
  show ?thesis using fr inv all id_ by (auto simp: readable_inv_def)
qed

lemma pos_step: "unat p = k \<Longrightarrow> k < 2 ^ 36 \<Longrightarrow> unat (p + 1 :: u64) = k + 1" "q \<le> p \<Longrightarrow> unat p < 2 ^ 36 \<Longrightarrow> q \<le> p + (1 :: u64)"
proof -
  have s: "unat (p + 1) = unat p + 1" if "unat p < 2 ^ 36"
    using unat_add_u64 [of p 1] that by simp
  then show "unat p = k \<Longrightarrow> k < 2 ^ 36 \<Longrightarrow> unat (p + 1) = k + 1" by simp
  show "q \<le> p \<Longrightarrow> unat p < 2 ^ 36 \<Longrightarrow> q \<le> p + 1" using s by (simp add: word_le_nat_alt)
qed

lemma sql_run_readable:
  assumes "fps_ok fps" "names_ok fps" "clock_ok env"
  shows "sql_run fps env w xs s = Inr s1 \<Longrightarrow> readable_inv k s \<Longrightarrow> k + length xs < 2 ^ 36 \<Longrightarrow> readable_inv (k + length xs) s1"
proof (induction xs arbitrary: w s k)
  case (Cons p xs)
  obtain x hp where p: "p = (x, hp)" by (cases p)
  obtain s2 where s2: "sql_sample fps env w SQL_OPEN_SCAN_LEN hp s = Inr s2" "sql_run fps env (tl (w @ [x])) xs s2 = Inr s1"
    using Cons.prems(1) by (auto simp: p res_bind_Inr_iff)
  note inv = Cons.prems(2) [unfolded readable_inv_def]
  have k: "k < 2 ^ 36" "k + 1 < 2 ^ 36" using Cons.prems(3) by simp_all
  note ps = pos_step(1) [OF _ k(1), of "sql_pos s"] pos_step(2) [of "sql_open_at_pos s" "sql_pos s"]
  have "readable_inv (k + 1) s2"
    using s2(1)
  proof (cases rule: sql_sample_cases)
    case tick
    then show ?thesis using inv ps k by (auto simp: readable_inv_def)
  next
    case (check s3)
    have 3: "readable_inv (k + 1) s3" using check(2-) inv ps k by (auto simp: readable_inv_def)
    show ?thesis
      by (rule check_sql_readable [OF check(1) 3 k(2) assms(1,2)]) (use assms(3) in \<open>auto simp: clock_ok_def\<close>)
  qed
  from Cons.IH [OF s2(2) this] Cons.prems(3) show ?case by simp
qed simp

lemma sq_runs_readable:
  assumes "fps_ok fps" "names_ok fps" "clock_ok env"
  shows "sq_runs fps env n s s1 \<Longrightarrow> readable_inv k s \<Longrightarrow> k + n < 2 ^ 36 \<Longrightarrow> readable_inv (k + n) s1"
proof (induction rule: sq_runs.induct)
  case (run n s s1 w xs s2)
  then show ?case using sql_run_readable [OF assms run.hyps(2), of "k + n"] by (simp add: add.assoc)
qed simp

lemma readable_inv_init: "readable_inv 0 squelch_init"
  by (simp add: readable_inv_def squelch_init_def)

lemma sq_start [simp]: "sq (start_receivers ops chs) = squelch_init"
  by (simp add: start_receivers_def)

section \<open>Properties\<close>

text \<open>C9. Every report is an object of one of three types, chosen by its \<open>event\<close> field: the names,
  order and types of its fields are those of the schema, and samples are in the range of a
  \<open>short\<close>.\<close>

theorem reports_well_typed:
  assumes "list_all (input_ok chs) is" "fps_ok fps"
  shows "\<exists>p1. main_loop ops fps env lv chs from_file sound_out is (start_receivers ops chs) = Inr p1
    \<and> list_all well_typed (trees (sq p1))"
proof -
  obtain p1 n where p1: "main_loop ops fps env lv chs from_file sound_out is (start_receivers ops chs) = Inr p1"
    "sq_runs fps env n squelch_init (sq p1)"
    using main_loop_runs [OF program_ok_start [where ops = ops] assms, of ops env lv from_file sound_out] by auto
  have "list_all well_typed (trees (sq p1))"
    by (rule sq_runs_typed [OF p1(2)]) (simp add: squelch_init_def)
  then show ?thesis using p1(1) by blast
qed

text \<open>A second of silence makes a report, so the examples are about one.\<close>

lemma silence_trees:
  assumes "main_loop int_fops [] still_env 0 SOUND_CHANNELS_MONO True True silence (start_receivers int_fops SOUND_CHANNELS_MONO) = Inr p"
  shows "trees (sq p) \<noteq> []"
  using silence_reported [OF single_mono silence_ok(1) silence_ok(2) [of True] fps_ok_Nil int_fops_silent silence_heard,
      of still_env 0 True] assms
  by (auto simp: adds_def)

theorem reports_well_typed_witness:
  "\<exists>p1. main_loop int_fops [] still_env 0 SOUND_CHANNELS_MONO True True silence
      (start_receivers int_fops SOUND_CHANNELS_MONO) = Inr p1 \<and> trees (sq p1) \<noteq> [] \<and> list_all well_typed (trees (sq p1))"
  using reports_well_typed [OF silence_ok(1) fps_ok_Nil, of int_fops still_env 0 True True] silence_trees
  by blast

text \<open>C10. End to end, to the receiver: up to 2 ^ 36 samples (sixteen days) after start-up, every text
  handed to the exporter is read by the JSON parser as exactly the report it was printed from.\<close>

theorem posted_reports_parse:
  assumes "list_all (input_ok chs) is" "fps_ok fps" "names_ok fps" "clock_ok env" "samples_in chs is < 2 ^ 36"
    and "exact_doubles D"
  shows "\<exists>p1. main_loop ops fps env lv chs from_file sound_out is (start_receivers ops chs) = Inr p1
    \<and> map (\<lambda>t. Option.bind t (cJSON_Parse D)) (outbox (sq p1)) = map (\<lambda>t. Some (Inr (Some (parsed D t)))) (trees (sq p1))"
proof -
  obtain p1 n where p1: "main_loop ops fps env lv chs from_file sound_out is (start_receivers ops chs) = Inr p1"
    "program_ok chs p1" "n \<le> samples_in chs is" "sq_runs fps env n squelch_init (sq p1)"
    using main_loop_runs [OF program_ok_start [where ops = ops] assms(1,2), of ops env lv from_file sound_out] by auto
  have "readable_inv (0 + n) (sq p1)"
    by (rule sq_runs_readable [OF assms(2-4) p1(4) readable_inv_init]) (use p1(3) assms(5) in simp)
  then have r: "list_all readable (trees (sq p1))" by (simp add: readable_inv_def)
  have o: "outbox (sq p1) = map cJSON_PrintUnformatted (trees (sq p1))"
    using p1(2) by (simp add: program_ok_def reports_ok_def)
  have "Option.bind (cJSON_PrintUnformatted t) (cJSON_Parse D) = Some (Inr (Some (parsed D t)))" if "readable t" for t
    using printed_parses [OF assms(6), of t False] that by (auto simp: readable_def cJSON_PrintUnformatted_def)
  then show ?thesis using p1(1) r by (intro exI [of _ p1]) (auto simp: o list_all_iff)
qed

theorem posted_reports_parse_witness:
  "let D = (\<lparr>d_of_int = id, d_add = (+), d_mul = (*), d_pow10 = (\<lambda>e. 10 ^ nat e), d_to_int = id\<rparr> :: int dops) in
   \<exists>p1. main_loop int_fops [] still_env 0 SOUND_CHANNELS_MONO True True silence
      (start_receivers int_fops SOUND_CHANNELS_MONO) = Inr p1 \<and> trees (sq p1) \<noteq> []
    \<and> map (\<lambda>t. Option.bind t (cJSON_Parse D)) (outbox (sq p1)) = map (\<lambda>t. Some (Inr (Some (parsed D t)))) (trees (sq p1))"
proof -
  let ?D = "\<lparr>d_of_int = id, d_add = (+), d_mul = (*), d_pow10 = (\<lambda>e. 10 ^ nat e), d_to_int = id\<rparr> :: int dops"
  have d: "exact_doubles ?D" by (simp add: exact_doubles_def)
  have e: "names_ok []" "clock_ok still_env" by (simp_all add: names_ok_def clock_ok_def still_env_def)
  have n: "samples_in SOUND_CHANNELS_MONO silence < 2 ^ 36"
    by (simp add: samples_in_def receivers_run_def silence_def sum_list_replicate map_replicate sound_channels_defs)
  show ?thesis unfolding Let_def
    using posted_reports_parse [OF silence_ok(1) fps_ok_Nil e n d, of int_fops 0 True True] silence_trees
    by blast
qed

end
