(* ===== verification/Out_mysql.thy ===== *)
theory Out_mysql
  imports Cstrings
begin

section \<open>Reports into a database (\<open>out_mysql.c\<close>)\<close>

text \<open>
  The statements built for the database and when they are sent. The client library of MySQL, its
  server behind it and the formatting of floats are parameters, as are the settings
  \<open>mysql_keepsmall\<close> and \<open>mysql_oldlimit\<close>, which no file of the repository declares.
\<close>

subsection \<open>The client library\<close>

record ('w, 'f) mysql =
  m_init :: "'w \<Rightarrow> 'w \<times> bool"
  m_connect :: "'w \<Rightarrow> 'w \<times> bool"
  m_close :: "'w \<Rightarrow> 'w"
  m_query :: "string \<Rightarrow> 'w \<Rightarrow> 'w \<times> int"
  m_affected :: "'w \<Rightarrow> int"
  m_errno :: "'w \<Rightarrow> nat"
  m_ffmt :: "nat \<Rightarrow> 'f \<Rightarrow> string"
  mysql_keepsmall :: bool
  mysql_oldlimit :: int

record 'w mysql_state_t =
  conn :: 'w
  connected :: bool
  inserts :: int

definition MAX_SQL_LEN :: nat where "MAX_SQL_LEN = 2000"
definition CR_SERVER_GONE_ERROR :: nat where "CR_SERVER_GONE_ERROR = 2006"

subsection \<open>The connection\<close>

definition myout_connect :: "('w, 'f) mysql \<Rightarrow> 'w mysql_state_t \<Rightarrow> 'w mysql_state_t \<times> int" where
  "myout_connect S my =
     (let (w, ok) = m_connect S (conn my)
      in if \<not> ok then (my\<lparr>conn := w, connected := False\<rparr>, 0) else (my\<lparr>conn := w, connected := True\<rparr>, 1))"

definition myout_init :: "('w, 'f) mysql \<Rightarrow> 'w \<Rightarrow> 'w mysql_state_t option" where
  "myout_init S w =
     (let (w1, ok) = m_init S w; my = \<lparr>conn = w1, connected = False, inserts = 0\<rparr>
      in if \<not> ok then None
         else let (my1, r) = myout_connect S my in if r = 0 then None else Some (my1\<lparr>connected := True\<rparr>))"

definition myout_reconnect :: "('w, 'f) mysql \<Rightarrow> 'w mysql_state_t \<Rightarrow> 'w mysql_state_t \<times> int" where
  "myout_reconnect S my = myout_connect S (my\<lparr>conn := m_close S (conn my), connected := False\<rparr>)"

subsection \<open>Statements\<close>

text \<open>\<open>snprintf(q, MAX_SQL_LEN, ...)\<close> keeps what fits with its NUL.\<close>

definition sql_text :: "string \<Rightarrow> string" where
  "sql_text q = take (MAX_SQL_LEN - 1) q"

fun join :: "string \<Rightarrow> string list \<Rightarrow> string" where
  "join sep [] = []"
| "join sep [s] = s"
| "join sep (s # ss) = s @ sep @ join sep ss"

definition sql_insert :: "string \<Rightarrow> (string \<times> string) list \<Rightarrow> string" where
  "sql_insert tab cvs = sql_text (''INSERT INTO '' @ tab @ '' ('' @ join '','' (map fst cvs) @ '') VALUES (''
     @ join '','' (map snd cvs) @ '')'')"

definition sql_update :: "string \<Rightarrow> (string \<times> string) list \<Rightarrow> int \<Rightarrow> string" where
  "sql_update tab cvs mmsi = sql_text (''UPDATE '' @ tab @ '' SET '' @ join '', '' (map (\<lambda>(c, v). c @ ''='' @ v) cvs)
     @ '' WHERE mmsi='' @ dec_int mmsi)"

definition sql_quote :: "string \<Rightarrow> string" where
  "sql_quote s = [CHR 0x22] @ s @ [CHR 0x22]"

definition myout_delete_from :: "('w, 'f) mysql \<Rightarrow> 'w mysql_state_t \<Rightarrow> int \<Rightarrow> string \<Rightarrow> 'w mysql_state_t \<times> int" where
  "myout_delete_from S my now tab =
     (let (w, rc) = m_query S (sql_text (''DELETE FROM '' @ tab @ '' WHERE time < '' @ dec_int (now - mysql_oldlimit S))) (conn my);
          my1 = my\<lparr>conn := w\<rparr>
      in if rc \<noteq> 0 then (my1, 0) else (my1, m_affected S w))"

definition myout_delete_old :: "('w, 'f) mysql \<Rightarrow> 'w mysql_state_t \<Rightarrow> int \<Rightarrow> 'w mysql_state_t \<times> int" where
  "myout_delete_old S my now =
     (if mysql_oldlimit S > 0 then
        (foldl (\<lambda>my tab. fst (myout_delete_from S my now tab)) my
           [''ais_position'', ''ais_vesseldata'', ''ais_basestation'', ''ais_nmea''], 0)
      else (my, 0))"

text \<open>A failed statement: reconnect when the server is gone, and give up the statement.\<close>

definition sql_failed :: "('w, 'f) mysql \<Rightarrow> 'w mysql_state_t \<Rightarrow> 'w mysql_state_t \<times> int" where
  "sql_failed S my =
     (if m_errno S (conn my) = CR_SERVER_GONE_ERROR then (fst (myout_reconnect S my), - 1) else (my, - 1))"

definition sql_run_insert :: "('w, 'f) mysql \<Rightarrow> 'w mysql_state_t \<Rightarrow> string \<Rightarrow> 'w mysql_state_t \<times> int" where
  "sql_run_insert S my ins =
     (let (w, rc) = m_query S ins (conn my); my1 = my\<lparr>conn := w\<rparr>
      in if rc \<noteq> 0 then sql_failed S my1 else (my1, 0))"

definition myout_update_or_insert ::
  "('w, 'f) mysql \<Rightarrow> 'w mysql_state_t \<Rightarrow> string \<Rightarrow> string \<Rightarrow> 'w mysql_state_t \<times> int"
where
  "myout_update_or_insert S my upd ins =
     (if mysql_keepsmall S then
        let (w, rc) = m_query S upd (conn my); my1 = my\<lparr>conn := w\<rparr>
        in if rc \<noteq> 0 then sql_failed S my1
           else if m_affected S w > 0 then (my1, 0)
           else sql_run_insert S my1 ins
      else sql_run_insert S my ins)"

subsection \<open>The reports\<close>

definition count_insert :: "('w, 'f) mysql \<Rightarrow> 'w mysql_state_t \<Rightarrow> int \<Rightarrow> 'w mysql_state_t" where
  "count_insert S my tid =
     (let my1 = my\<lparr>inserts := inserts my + 1\<rparr>
      in if inserts my1 mod 10 = 0 then (fst (myout_delete_old S my1 tid))\<lparr>inserts := 0\<rparr> else my1)"

definition myout_ais_position ::
  "('w, 'f) mysql \<Rightarrow> 'w mysql_state_t \<Rightarrow> int \<Rightarrow> int \<Rightarrow> 'f \<Rightarrow> 'f \<Rightarrow> 'f \<Rightarrow> 'f \<Rightarrow> 'f \<Rightarrow> 'w mysql_state_t \<times> int"
where
  "myout_ais_position S my tid mmsi lat lon hdg course sog =
     (let f = m_ffmt S;
          ins = sql_insert ''ais_position'' [(''time'', dec_int tid), (''mmsi'', dec_int mmsi), (''latitude'', f 7 lat),
                  (''longitude'', f 7 lon), (''heading'', f 5 hdg), (''course'', f 6 course), (''speed'', f 6 sog)];
          upd = sql_update ''ais_position'' [(''time'', dec_int tid), (''latitude'', f 7 lat), (''longitude'', f 7 lon),
                  (''heading'', f 6 hdg), (''course'', f 5 course), (''speed'', f 6 sog)] mmsi
      in myout_update_or_insert S (count_insert S my tid) upd ins)"

definition myout_ais_basestation ::
  "('w, 'f) mysql \<Rightarrow> 'w mysql_state_t \<Rightarrow> int \<Rightarrow> int \<Rightarrow> 'f \<Rightarrow> 'f \<Rightarrow> 'w mysql_state_t \<times> int"
where
  "myout_ais_basestation S my tid mmsi lat lon =
     (let f = m_ffmt S;
          ins = sql_insert ''ais_basestation'' [(''time'', dec_int tid), (''mmsi'', dec_int mmsi), (''latitude'', f 7 lat),
                  (''longitude'', f 7 lon)];
          upd = sql_update ''ais_basestation'' [(''time'', dec_int tid), (''latitude'', f 7 lat), (''longitude'', f 7 lon)] mmsi
      in myout_update_or_insert S my upd ins)"

definition myout_ais_vesseldata ::
  "('w, 'f) mysql \<Rightarrow> 'w mysql_state_t \<Rightarrow> int \<Rightarrow> int \<Rightarrow> string \<Rightarrow> string \<Rightarrow> 'f \<Rightarrow> int \<Rightarrow> int \<Rightarrow> int \<Rightarrow> int
    \<Rightarrow> 'w mysql_state_t \<times> int"
where
  "myout_ais_vesseldata S my tid mmsi name destination draught A B C D =
     (let f = m_ffmt S;
          ins = sql_insert ''ais_vesseldata'' [(''time'', dec_int tid), (''mmsi'', dec_int mmsi), (''name'', sql_quote name),
                  (''destination'', sql_quote destination), (''draught'', f 6 draught), (''A'', dec_int A), (''B'', dec_int B),
                  (''C'', dec_int C), (''D'', dec_int D)];
          upd = sql_update ''ais_vesseldata'' [(''time'', dec_int tid), (''name'', sql_quote name),
                  (''destination'', sql_quote destination), (''A'', dec_int A), (''B'', dec_int B), (''C'', dec_int C),
                  (''D'', dec_int D), (''draught'', f 6 draught)] mmsi
      in myout_update_or_insert S my upd ins)"

definition vesseldatab_ins :: "int \<Rightarrow> int \<Rightarrow> int \<Rightarrow> int \<Rightarrow> int \<Rightarrow> int \<Rightarrow> string" where
  "vesseldatab_ins tid mmsi A B C D = sql_insert ''ais_vesseldata'' [(''time'', dec_int tid), (''mmsi'', dec_int mmsi),
     (''A'', dec_int A), (''B'', dec_int B), (''C'', dec_int C), (''D'', dec_int D)]"

definition vesseldatab_upd :: "int \<Rightarrow> int \<Rightarrow> int \<Rightarrow> int \<Rightarrow> int \<Rightarrow> int \<Rightarrow> string" where
  "vesseldatab_upd tid mmsi A B C D = sql_update ''ais_vesseldata'' [(''time'', dec_int tid),
     (''A'', dec_int A), (''B'', dec_int B), (''C'', dec_int C), (''D'', dec_int D)] mmsi"

definition myout_ais_vesseldatab ::
  "('w, 'f) mysql \<Rightarrow> 'w mysql_state_t \<Rightarrow> int \<Rightarrow> int \<Rightarrow> int \<Rightarrow> int \<Rightarrow> int \<Rightarrow> int \<Rightarrow> 'w mysql_state_t \<times> int"
where
  "myout_ais_vesseldatab S my tid mmsi A B C D =
     myout_update_or_insert S my (vesseldatab_upd tid mmsi A B C D) (vesseldatab_ins tid mmsi A B C D)"

definition vesselname_upd :: "int \<Rightarrow> int \<Rightarrow> string \<Rightarrow> string \<Rightarrow> string" where
  "vesselname_upd tid mmsi name destination = sql_update ''ais_vesseldata''
     [(''time'', dec_int tid), (''name'', sql_quote name), (''destination'', sql_quote destination)] mmsi"

definition vesselname_ins :: "int \<Rightarrow> int \<Rightarrow> string \<Rightarrow> string \<Rightarrow> string" where
  "vesselname_ins tid mmsi name destination = sql_insert ''ais_vesseldata''
     [(''time'', dec_int tid), (''mmsi'', dec_int mmsi), (''name'', sql_quote name), (''destination'', sql_quote destination)]"

definition myout_ais_vesselname ::
  "('w, 'f) mysql \<Rightarrow> 'w mysql_state_t \<Rightarrow> int \<Rightarrow> int \<Rightarrow> string \<Rightarrow> string \<Rightarrow> 'w mysql_state_t \<times> int"
where
  "myout_ais_vesselname S my tid mmsi name destination =
     myout_update_or_insert S my (vesselname_upd tid mmsi name destination) (vesselname_ins tid mmsi name destination)"

definition myout_nmea :: "('w, 'f) mysql \<Rightarrow> 'w mysql_state_t \<Rightarrow> int \<Rightarrow> string \<Rightarrow> 'w mysql_state_t \<times> int" where
  "myout_nmea S my tid nmea = sql_run_insert S my
     (sql_text (''INSERT INTO ais_nmea (time, message) VALUES ('' @ dec_int tid @ '','' @ sql_quote (''!'' @ nmea) @ '')''))"

subsection \<open>The server as a table\<close>

text \<open>
  What a server that answers does with the statements of \<open>myout_ais_vesseldatab\<close>, \<open>rows w m\<close> being
  the columns \<open>time\<close>, \<open>A\<close>, \<open>B\<close>, \<open>C\<close>, \<open>D\<close> of the rows with \<open>mmsi = m\<close>: an \<open>UPDATE\<close> writes all of them and
  counts as affected those it changed, which is how MySQL counts by default; an \<open>INSERT\<close> adds one.
\<close>

type_synonym vrow = "int \<times> int \<times> int \<times> int \<times> int"

definition upd_of :: "int \<Rightarrow> vrow \<Rightarrow> string" where
  "upd_of m v = (case v of (tid, A, B, C, D) \<Rightarrow> vesseldatab_upd tid m A B C D)"

definition ins_of :: "int \<Rightarrow> vrow \<Rightarrow> string" where
  "ins_of m v = (case v of (tid, A, B, C, D) \<Rightarrow> vesseldatab_ins tid m A B C D)"

definition report :: "('w, 'f) mysql \<Rightarrow> 'w mysql_state_t \<Rightarrow> int \<Rightarrow> vrow \<Rightarrow> 'w mysql_state_t \<times> int" where
  "report S my m v = (case v of (tid, A, B, C, D) \<Rightarrow> myout_ais_vesseldatab S my tid m A B C D)"

text \<open>The arguments are \<open>int\<close>s.\<close>

definition c_int :: "int \<Rightarrow> bool" where
  "c_int i \<longleftrightarrow> - (2 ^ 31) \<le> i \<and> i < 2 ^ 31"

definition int_args :: "int \<Rightarrow> vrow \<Rightarrow> bool" where
  "int_args m v \<longleftrightarrow> (case v of (tid, A, B, C, D) \<Rightarrow> list_all c_int [m, tid, A, B, C, D])"

definition table_server :: "('w, 'f) mysql \<Rightarrow> ('w \<Rightarrow> int \<Rightarrow> vrow list) \<Rightarrow> bool" where
  "table_server S rows \<longleftrightarrow> (\<forall>w m v. int_args m v \<longrightarrow>
     (case m_query S (upd_of m v) w of (w1, rc) \<Rightarrow> rc = 0 \<and> rows w1 = (rows w)(m := map (\<lambda>_. v) (rows w m))
        \<and> m_affected S w1 = int (length (filter (\<lambda>r. r \<noteq> v) (rows w m))))
     \<and> (case m_query S (ins_of m v) w of (w1, rc) \<Rightarrow> rc = 0 \<and> rows w1 = (rows w)(m := rows w m @ [v])))"

lemma table_serverD:
  assumes "table_server S rows" "int_args m v"
  obtains (both) w1 w2 where "m_query S (upd_of m v) w = (w1, 0)" "rows w1 = (rows w)(m := map (\<lambda>_. v) (rows w m))"
    "m_affected S w1 = int (length (filter (\<lambda>r. r \<noteq> v) (rows w m)))"
    "m_query S (ins_of m v) w = (w2, 0)" "rows w2 = (rows w)(m := rows w m @ [v])"
proof -
  obtain w1 r1 w2 r2 where q: "m_query S (upd_of m v) w = (w1, r1)" "m_query S (ins_of m v) w = (w2, r2)" by fastforce
  have "(case m_query S (upd_of m v) w of (w1, rc) \<Rightarrow> rc = 0 \<and> rows w1 = (rows w)(m := map (\<lambda>_. v) (rows w m))
        \<and> m_affected S w1 = int (length (filter (\<lambda>r. r \<noteq> v) (rows w m))))
     \<and> (case m_query S (ins_of m v) w of (w1, rc) \<Rightarrow> rc = 0 \<and> rows w1 = (rows w)(m := rows w m @ [v]))"
    by (rule mp [OF spec [OF spec [OF spec [OF assms(1) [unfolded table_server_def], of w], of m], of v] assms(2)])
  then show thesis using q by (intro both [of w1 w2]) auto
qed

text \<open>One report on such a server.\<close>

lemma report_rows:
  assumes "table_server S rows" "mysql_keepsmall S" "int_args m v"
  shows "\<exists>my1. report S my m v = (my1, 0) \<and> rows (conn my1) = (rows (conn my))(m :=
    (if filter (\<lambda>r. r \<noteq> v) (rows (conn my) m) = [] then rows (conn my) m @ [v] else map (\<lambda>_. v) (rows (conn my) m)))"
proof -
  obtain w1 where u: "m_query S (upd_of m v) (conn my) = (w1, 0)" "rows w1 = (rows (conn my))(m := map (\<lambda>_. v) (rows (conn my) m))"
    "m_affected S w1 = int (length (filter (\<lambda>r. r \<noteq> v) (rows (conn my) m)))"
    by (rule table_serverD [OF assms(1,3), of "conn my"])
  obtain w2 where i: "m_query S (ins_of m v) w1 = (w2, 0)" "rows w2 = (rows w1)(m := rows w1 m @ [v])"
    by (rule table_serverD [OF assms(1,3), of w1])
  have r: "report S my m v = myout_update_or_insert S my (upd_of m v) (ins_of m v)"
    by (simp add: report_def upd_of_def ins_of_def myout_ais_vesseldatab_def split: prod.splits)
  show ?thesis
  proof (cases "filter (\<lambda>r. r \<noteq> v) (rows (conn my) m) = []")
    case True
    then have "map (\<lambda>_. v) (rows (conn my) m) = rows (conn my) m"
      by (auto simp: filter_empty_conv intro: map_idI)
    then show ?thesis using True u i assms(2)
      by (simp add: r myout_update_or_insert_def sql_run_insert_def)
  next
    case False
    then have "0 < m_affected S w1" using u(3) by (cases "filter (\<lambda>r. r \<noteq> v) (rows (conn my) m)") simp_all
    then show ?thesis using False u assms(2) by (simp add: r myout_update_or_insert_def)
  qed
qed

fun report_all :: "('w, 'f) mysql \<Rightarrow> 'w mysql_state_t \<Rightarrow> (int \<times> vrow) list \<Rightarrow> 'w mysql_state_t" where
  "report_all S my [] = my"
| "report_all S my ((m, v) # rs) = report_all S (fst (report S my m v)) rs"

text \<open>No report repeats what was recent reported of its ship.\<close>

fun all_new :: "(int \<Rightarrow> vrow option) \<Rightarrow> (int \<times> vrow) list \<Rightarrow> bool" where
  "all_new recent [] = True"
| "all_new recent ((m, v) # rs) = (recent m \<noteq> Some v \<and> all_new (recent(m \<mapsto> v)) rs)"

definition row_list :: "vrow option \<Rightarrow> vrow list" where
  "row_list o1 = (case o1 of None \<Rightarrow> [] | Some v \<Rightarrow> [v])"

lemma report_all_rows:
  assumes "table_server S rows" "mysql_keepsmall S"
  shows "all_new recent rs \<Longrightarrow> list_all (\<lambda>(m, v). int_args m v) rs \<Longrightarrow> rows (conn my) = row_list \<circ> recent \<Longrightarrow>
    rows (conn (report_all S my rs)) = row_list \<circ> (recent ++ map_of (rev rs))"
proof (induction rs arbitrary: recent my)
  case (Cons mv rs)
  obtain m v where mv: "mv = (m, v)" by (cases mv)
  obtain my1 where my1: "report S my m v = (my1, 0)" "rows (conn my1) = (rows (conn my))(m :=
    (if filter (\<lambda>r. r \<noteq> v) (rows (conn my) m) = [] then rows (conn my) m @ [v] else map (\<lambda>_. v) (rows (conn my) m)))"
    using report_rows [OF assms, of m v my] Cons.prems(2) by (auto simp: mv)
  have "rows (conn my1) = row_list \<circ> recent(m \<mapsto> v)"
    using my1(2) Cons.prems mv by (auto simp: fun_eq_iff row_list_def split: option.splits)
  moreover have "recent ++ map_of (rev (mv # rs)) = recent(m \<mapsto> v) ++ map_of (rev rs)"
    by (simp add: mv map_add_def fun_eq_iff map_of_append split: option.splits)
  moreover have rs: "list_all (\<lambda>(m, v). int_args m v) rs" using Cons.prems(2) by simp
  moreover have "all_new (recent(m \<mapsto> v)) rs" using Cons.prems(1) by (simp add: mv)
  ultimately show ?case using Cons.IH [of "recent(m \<mapsto> v)" my1] rs my1(1)
    by (simp only: mv report_all.simps fst_conv)
qed simp

subsection \<open>A server that reads the statements\<close>

text \<open>The integers of a text, in order; enough to read the statements of \<open>myout_ais_vesseldatab\<close>.\<close>

definition num_char :: "char \<Rightarrow> bool" where
  "num_char c \<longleftrightarrow> c_isdigit c \<or> c = CHR ''-''"

definition num_of :: "string \<Rightarrow> int" where
  "num_of s = (if take 1 s = ''-'' then - int (digits_val 0 (tl s)) else int (digits_val 0 s))"

function ints_of :: "string \<Rightarrow> int list" where
  "ints_of [] = []"
| "ints_of (c # cs) =
     (if num_char c then num_of (takeWhile num_char (c # cs)) # ints_of (dropWhile num_char cs) else ints_of cs)"
  by pat_completeness auto
termination
  by (relation "measure length") (auto simp: le_imp_less_Suc length_dropWhile_le)

lemma ints_of_skip: "list_all (\<lambda>c. \<not> num_char c) p \<Longrightarrow> ints_of (p @ s) = ints_of s"
  by (induction p) simp_all

lemma dec_int_chars: "list_all num_char (dec_int i)" "dec_int i \<noteq> []"
  using dec_nat_digits dec_nat_nonempty by (auto simp: dec_int_def list_all_iff num_char_def)

lemma num_of_dec_int: "num_of (dec_int i) = i"
proof (cases "i < 0")
  case False
  have "hd (dec_nat (nat i)) \<noteq> CHR ''-''" using hd_dec_nat_digit [of "nat i"] by (auto simp: c_isdigit_def)
  then have "take 1 (dec_nat (nat i)) \<noteq> ''-''" using dec_nat_nonempty [of "nat i"] by (cases "dec_nat (nat i)") auto
  then show ?thesis using False by (simp add: num_of_def dec_int_def digits_val_dec_nat)
qed (simp add: num_of_def dec_int_def digits_val_dec_nat)

lemma ints_of_int:
  assumes "rest = [] \<or> \<not> num_char (hd rest)"
  shows "ints_of (dec_int i @ rest) = i # ints_of rest"
proof -
  obtain c cs where c: "dec_int i = c # cs" using dec_int_chars(2) by (cases "dec_int i") auto
  have n: "num_char c" "list_all num_char cs" using dec_int_chars(1) [of i] by (simp_all add: c)
  have "takeWhile num_char (cs @ rest) = cs" "dropWhile num_char (cs @ rest) = rest"
    using assms n(2) by (cases rest; auto simp: list_all_iff takeWhile_append2 dropWhile_append2)+
  then show ?thesis using n(1) num_of_dec_int [of i] by (simp add: c)
qed

lemma dec_int_length: "c_int i \<Longrightarrow> length (dec_int i) \<le> 11"
  using length_dec_nat [of "nat i" 10] length_dec_nat [of "nat (- i)" 10]
  by (auto simp: c_int_def dec_int_def)

lemma sql_text_whole: "length q < MAX_SQL_LEN \<Longrightarrow> sql_text q = q"
  by (simp add: sql_text_def MAX_SQL_LEN_def)

lemma ints_of_statements:
  assumes "int_args m (tid, A, B, C, D)"
  shows "ints_of (upd_of m (tid, A, B, C, D)) = [tid, A, B, C, D, m]" "take 1 (upd_of m (tid, A, B, C, D)) = ''U''"
    "ints_of (ins_of m (tid, A, B, C, D)) = [tid, m, A, B, C, D]" "take 1 (ins_of m (tid, A, B, C, D)) = ''I''"
proof -
  have l: "length (dec_int m) \<le> 11" "length (dec_int tid) \<le> 11" "length (dec_int A) \<le> 11" "length (dec_int B) \<le> 11"
    "length (dec_int C) \<le> 11" "length (dec_int D) \<le> 11"
    using assms by (auto simp: int_args_def dec_int_length)
  have u: "upd_of m (tid, A, B, C, D) = ''UPDATE ais_vesseldata SET time='' @ dec_int tid @ '', A='' @ dec_int A @ '', B='' @ dec_int B
      @ '', C='' @ dec_int C @ '', D='' @ dec_int D @ '' WHERE mmsi='' @ dec_int m @ []"
    unfolding upd_of_def prod.case vesseldatab_upd_def sql_update_def
    by (subst sql_text_whole) (use l in \<open>simp_all add: MAX_SQL_LEN_def\<close>)
  have i: "ins_of m (tid, A, B, C, D) = ''INSERT INTO ais_vesseldata (time,mmsi,A,B,C,D) VALUES ('' @ dec_int tid @ '','' @ dec_int m
      @ '','' @ dec_int A @ '','' @ dec_int B @ '','' @ dec_int C @ '','' @ dec_int D @ '')'' @ []"
    unfolding ins_of_def prod.case vesseldatab_ins_def sql_insert_def
    by (subst sql_text_whole) (use l in \<open>simp_all add: MAX_SQL_LEN_def\<close>)
  have sk: "list_all (\<lambda>c. \<not> num_char c) s" if "s \<in> {''UPDATE ais_vesseldata SET time='', '', A='', '', B='', '', C='', '', D='',
      '' WHERE mmsi='', ''INSERT INTO ais_vesseldata (time,mmsi,A,B,C,D) VALUES ('', '','', '')''}" for s
    using that by (auto simp: num_char_def c_isdigit_def)
  show "take 1 (upd_of m (tid, A, B, C, D)) = ''U''" "take 1 (ins_of m (tid, A, B, C, D)) = ''I''"
    unfolding u i by simp_all
  have step: "ints_of (dec_int k @ p @ rest) = k # ints_of rest"
    if "list_all (\<lambda>c. \<not> num_char c) p" "p \<noteq> []" for k p rest
    using that ints_of_int [of "p @ rest" k] ints_of_skip [of p rest] by (cases p) auto
  show "ints_of (upd_of m (tid, A, B, C, D)) = [tid, A, B, C, D, m]"
    unfolding u by (subst ints_of_skip, rule sk, simp) (simp only: step sk insert_iff simp_thms list.simps ints_of_int, simp add: ints_of_int [of "[]", simplified])
  show "ints_of (ins_of m (tid, A, B, C, D)) = [tid, m, A, B, C, D]"
    unfolding i by (subst ints_of_skip, rule sk, simp) (simp only: step sk insert_iff simp_thms list.simps ints_of.simps)
qed

text \<open>A server with that one table: its rows, and the count of the last \<open>UPDATE\<close>.\<close>

type_synonym table_world = "(int \<Rightarrow> vrow list) \<times> int"

definition reading_query :: "string \<Rightarrow> table_world \<Rightarrow> table_world \<times> int" where
  "reading_query q w =
     (case ints_of q of
        [a, b, c, d, e, f] \<Rightarrow>
          if take 1 q = ''U''
          then (((fst w)(f := map (\<lambda>_. (a, b, c, d, e)) (fst w f)),
                 int (length (filter (\<lambda>r. r \<noteq> (a, b, c, d, e)) (fst w f)))), 0)
          else (((fst w)(b := fst w b @ [(a, c, d, e, f)]), 1), 0)
      | _ \<Rightarrow> (w, 1))"

definition reading_server :: "(table_world, unit) mysql" where
  "reading_server = \<lparr>m_init = (\<lambda>w. (w, True)), m_connect = (\<lambda>w. (w, True)), m_close = id, m_query = reading_query,
     m_affected = snd, m_errno = (\<lambda>_. 0), m_ffmt = (\<lambda>_ _. []), mysql_keepsmall = True, mysql_oldlimit = 0\<rparr>"

lemma reading_server_ok: "table_server reading_server fst"
proof -
  have "(case m_query reading_server (upd_of m v) w of (w1, rc) \<Rightarrow> rc = 0 \<and> fst w1 = (fst w)(m := map (\<lambda>_. v) (fst w m))
        \<and> m_affected reading_server w1 = int (length (filter (\<lambda>r. r \<noteq> v) (fst w m))))
     \<and> (case m_query reading_server (ins_of m v) w of (w1, rc) \<Rightarrow> rc = 0 \<and> fst w1 = (fst w)(m := fst w m @ [v]))"
    if "int_args m v" for w m v
  proof -
    obtain tid A B C D where v: "v = (tid, A, B, C, D)" by (cases v) auto
    note st = ints_of_statements [OF that [unfolded v]]
    show ?thesis unfolding v reading_server_def mysql.simps reading_query_def st by simp
  qed
  then show ?thesis unfolding table_server_def by (intro allI impI)
qed

definition fresh_state :: "table_world mysql_state_t" where
  "fresh_state = \<lparr>conn = (\<lambda>_. [], 0), connected = True, inserts = 0\<rparr>"

subsection \<open>Old rows\<close>

text \<open>The counter stays below ten; every tenth position deletes, when a limit is set.\<close>

lemma count_insert_bound: "0 \<le> inserts my \<Longrightarrow> inserts my < 10 \<Longrightarrow> 0 \<le> inserts (count_insert S my tid) \<and> inserts (count_insert S my tid) < 10"
  using mod_self [of "10 :: int"] by (cases "inserts my = 9") (auto simp: count_insert_def Let_def)

lemma count_insert_quiet: "inserts my < 9 \<Longrightarrow> 0 \<le> inserts my \<Longrightarrow> conn (count_insert S my tid) = conn my"
  by (simp add: count_insert_def Let_def)

text \<open>When the server is gone, the program reconnects but does not send the statement again.\<close>

lemma gone_server_loses_report:
  assumes "m_query S ins (conn my) = (w, rc)" "rc \<noteq> 0" "m_errno S w = CR_SERVER_GONE_ERROR" "m_connect S (m_close S w) = (w1, True)"
  shows "sql_run_insert S my ins = (my\<lparr>conn := w1, connected := True\<rparr>, - 1)"
  using assms by (simp add: sql_run_insert_def sql_failed_def myout_reconnect_def myout_connect_def)

section \<open>Properties\<close>



text \<open>A report equal to the row of its ship changes no row, so the \<open>UPDATE\<close> counts as having
  found none and the \<open>INSERT\<close> adds the row a second time.\<close>

lemma repeated_report_duplicates:
  assumes "table_server S rows" "mysql_keepsmall S" "int_args m v" "rows (conn my) m = [v]"
  shows "rows (conn (fst (report S my m v))) m = [v, v]"
  using report_rows [OF assms(1-3), of my] assms(4) by auto

lemma repeated_report_duplicates_example:
  "let my = fst (report reading_server fresh_state 7 (1, 2, 3, 4, 5))
   in fst (conn (fst (report reading_server my 7 (1, 2, 3, 4, 5)))) 7 = [(1, 2, 3, 4, 5), (1, 2, 3, 4, 5)]"
proof -
  let ?v = "(1, 2, 3, 4, 5) :: vrow"
  let ?my = "fst (report reading_server fresh_state 7 ?v)"
  have k: "mysql_keepsmall reading_server" "int_args 7 ?v" by (simp_all add: reading_server_def int_args_def c_int_def)
  have "fst (conn ?my) 7 = [?v]"
    using report_rows [OF reading_server_ok k, of fresh_state] by (auto simp: fresh_state_def)
  from repeated_report_duplicates [OF reading_server_ok k this] show ?thesis by (simp add: Let_def)
qed

text \<open>Names are put between quotes as they come: a ship whose name closes the quotes makes the
  program send, followed by a comment, the statement that renames another ship.\<close>

lemma name_escapes_quotes:
  assumes "evil = name @ [CHR 0x22] @ '', destination='' @ sql_quote destination @ '' WHERE mmsi='' @ dec_int victim @ '' -- ''"
    and "length (vesselname_upd tid mmsi evil other) < MAX_SQL_LEN - 1"
  shows "\<exists>rest. vesselname_upd tid mmsi evil other = vesselname_upd tid victim name destination @ '' -- '' @ rest"
proof -
  let ?head = "''UPDATE ais_vesseldata SET time='' @ dec_int tid @ '', name='' @ [CHR 0x22] @ name @ [CHR 0x22] @ '', destination=''
    @ sql_quote destination @ '' WHERE mmsi='' @ dec_int victim"
  let ?rest = "[CHR 0x22] @ '', destination='' @ sql_quote other @ '' WHERE mmsi='' @ dec_int mmsi"
  have v: "vesselname_upd tid victim name destination = sql_text ?head"
    by (simp add: vesselname_upd_def sql_update_def sql_quote_def)
  have e: "vesselname_upd tid mmsi evil other = sql_text (?head @ '' -- '' @ ?rest)"
    by (simp add: vesselname_upd_def sql_update_def sql_quote_def assms(1))
  have l: "length (?head @ '' -- '' @ ?rest) < MAX_SQL_LEN"
    using assms(2) unfolding e sql_text_def length_take min_def by (simp only: split: if_splits)
  then have "sql_text ?head = ?head" by (intro sql_text_whole) simp
  then have "vesselname_upd tid victim name destination = ?head" by (rule trans [OF v])
  moreover have "vesselname_upd tid mmsi evil other = ?head @ '' -- '' @ ?rest" using e sql_text_whole [OF l] by (rule trans)
  ultimately show ?thesis by (intro exI [of _ ?rest]) (simp only: append_assoc)
qed

lemma name_escapes_quotes_example:
  "\<exists>rest. vesselname_upd 1 111 (''x'' @ [CHR 0x22] @ '', destination='' @ sql_quote ''y'' @ '' WHERE mmsi='' @ dec_int 5 @ '' -- '') ''z''
     = vesselname_upd 1 5 ''x'' ''y'' @ '' -- '' @ rest"
proof (rule name_escapes_quotes [OF refl])
  show "length (vesselname_upd 1 111 (''x'' @ [CHR 0x22] @ '', destination='' @ sql_quote ''y'' @ '' WHERE mmsi='' @ dec_int 5 @ '' -- '') ''z'')
    < MAX_SQL_LEN - 1"
    using dec_int_length [of 1] dec_int_length [of 5] dec_int_length [of 111]
    by (simp add: vesselname_upd_def sql_update_def sql_text_def sql_quote_def c_int_def MAX_SQL_LEN_def)
qed

end
