(* ===== verification/Devices.thy ===== *)
theory Devices
  imports Input
begin

unbundle bit_operations_syntax

section \<open>Devices that are not linked into the program (\<open>serial.c\<close>, \<open>pulseaudio.c\<close>, \<open>savetofile.c\<close>)\<close>

text \<open>
  The serial port with its terminal settings as words, the PulseAudio input, and the recorder.
  The calls of the system are parameters; the constants are those of Linux.
\<close>

subsection \<open>The serial port\<close>

record termios =
  c_iflag :: u32
  c_oflag :: u32
  c_cflag :: u32
  c_lflag :: u32
  c_cc :: "nat \<Rightarrow> 8 word"
  c_ispeed :: u32
  c_ospeed :: u32

definition B4800 :: u32 where "B4800 = 12"
definition CLOCAL :: u32 where "CLOCAL = 0x800"
definition CREAD :: u32 where "CREAD = 0x80"
definition PARENB :: u32 where "PARENB = 0x100"
definition CSTOPB :: u32 where "CSTOPB = 0x40"
definition CSIZE :: u32 where "CSIZE = 0x30"
definition CS8 :: u32 where "CS8 = 0x30"
definition ICANON :: u32 where "ICANON = 2"
definition ECHO :: u32 where "ECHO = 8"
definition ECHOE :: u32 where "ECHOE = 0x10"
definition ISIG :: u32 where "ISIG = 1"
definition OPOST :: u32 where "OPOST = 1"
definition VTIME :: nat where "VTIME = 5"
definition VMIN :: nat where "VMIN = 6"

lemmas termios_consts = B4800_def CLOCAL_def CREAD_def PARENB_def CSTOPB_def CSIZE_def CS8_def ICANON_def ECHO_def
  ECHOE_def ISIG_def OPOST_def VTIME_def VMIN_def

definition serial_options :: "termios \<Rightarrow> termios" where
  "serial_options t0 =
     (let t = t0\<lparr>c_ispeed := B4800, c_ospeed := B4800\<rparr>;
          t = t\<lparr>c_cflag := c_cflag t OR (CLOCAL OR CREAD)\<rparr>;
          t = t\<lparr>c_lflag := c_lflag t AND NOT (ICANON OR ECHO OR ECHOE OR ISIG)\<rparr>;
          t = t\<lparr>c_oflag := c_oflag t AND NOT OPOST\<rparr>;
          t = t\<lparr>c_cc := (c_cc t)(VMIN := 0, VTIME := 10)\<rparr>;
          t = t\<lparr>c_cflag := c_cflag t AND NOT PARENB\<rparr>;
          t = t\<lparr>c_cflag := c_cflag t AND NOT CSTOPB\<rparr>;
          t = t\<lparr>c_cflag := c_cflag t AND NOT CSIZE\<rparr>
      in t\<lparr>c_cflag := c_cflag t OR CS8\<rparr>)"

text \<open>
  \<open>tc\<close> is the settings variable after \<open>tcgetattr\<close>: what the port has, or what the stack held
  when the call failed, which is only logged. The result is the descriptor and the settings given to
  \<open>tcsetattr\<close>.
\<close>

definition serial_init :: "int \<Rightarrow> termios \<Rightarrow> (int \<times> termios) option" where
  "serial_init fd tc = (if fd = - 1 then None else Some (fd, serial_options tc))"

definition serial_write :: "int \<Rightarrow> int" where
  "serial_write written = written"

text \<open>The new descriptor and the result; \<open>close\<close> answers \<open>closed\<close>.\<close>

definition serial_close :: "int \<Rightarrow> int \<Rightarrow> int \<times> int" where
  "serial_close fd closed = (if fd \<ge> 0 then (- 1, if closed \<noteq> 0 then - 1 else 0) else (fd, 0))"

text \<open>
  Eight bits, no parity, one stop bit, no line editing, no signals; everything else stays. The
  input flags are not touched: a port that translates carriage returns keeps doing so.
\<close>

lemma serial_8N1:
  "c_cflag (serial_options t) AND (CSIZE OR PARENB OR CSTOPB OR CLOCAL OR CREAD) = CS8 OR CLOCAL OR CREAD"
  "c_lflag (serial_options t) AND (ICANON OR ECHO OR ECHOE OR ISIG) = 0"
  "c_oflag (serial_options t) AND OPOST = 0"
  "c_iflag (serial_options t) = c_iflag t"
  "c_cflag (serial_options t) AND NOT (CSIZE OR PARENB OR CSTOPB OR CLOCAL OR CREAD)
     = c_cflag t AND NOT (CSIZE OR PARENB OR CSTOPB OR CLOCAL OR CREAD)"
proof -
  have d: "CLOCAL AND PARENB = 0" "CLOCAL AND CSTOPB = 0" "CLOCAL AND CSIZE = 0" "CREAD AND PARENB = 0"
    "CREAD AND CSTOPB = 0" "CREAD AND CSIZE = 0" "CS8 = CSIZE" "PARENB AND CSIZE = 0" "CSTOPB AND CSIZE = 0"
    by (simp_all add: termios_consts)
  have dj: "\<not> bit y n" if "x AND y = 0" "bit x n" for x y :: u32 and n
  proof -
    have "\<not> bit (x AND y) n" by (simp add: that(1))
    then show ?thesis using that(2) by (simp add: bit_and_iff)
  qed
  note b = dj [OF d(1)] dj [OF d(2)] dj [OF d(3)] dj [OF d(4)] dj [OF d(5)] dj [OF d(6)] dj [OF d(8)] dj [OF d(9)]
  show "c_cflag (serial_options t) AND (CSIZE OR PARENB OR CSTOPB OR CLOCAL OR CREAD) = CS8 OR CLOCAL OR CREAD"
    unfolding d(7) by (rule bit_word_eqI) (use b in \<open>auto simp: serial_options_def Let_def bit_simps d(7)\<close>)
  show "c_cflag (serial_options t) AND NOT (CSIZE OR PARENB OR CSTOPB OR CLOCAL OR CREAD)
     = c_cflag t AND NOT (CSIZE OR PARENB OR CSTOPB OR CLOCAL OR CREAD)"
    by (rule bit_word_eqI) (auto simp: serial_options_def Let_def bit_simps d(7))
  show "c_lflag (serial_options t) AND (ICANON OR ECHO OR ECHOE OR ISIG) = 0" "c_oflag (serial_options t) AND OPOST = 0"
    by (rule bit_word_eqI; auto simp: serial_options_def Let_def bit_simps)+
  show "c_iflag (serial_options t) = c_iflag t" by (simp add: serial_options_def Let_def)
qed

subsection \<open>PulseAudio\<close>

text \<open>Channels and rate asked for; the bytes asked for in a read, and its result.\<close>

definition pulseaudio_initialize :: "int \<Rightarrow> nat \<times> nat" where
  "pulseaudio_initialize sound_chs = (if sound_chs = SOUND_CHANNELS_MONO then 1 else 2, 48000)"

definition pulseaudio_read :: "int \<Rightarrow> int \<Rightarrow> int \<Rightarrow> nat \<times> int" where
  "pulseaudio_read sound_chs count number_read =
     (let channels = (if sound_chs = SOUND_CHANNELS_MONO then 1 else 2)
      in (nat count * 2 * channels, if number_read < 0 then - 1 else count))"

subsection \<open>The recorder\<close>

text \<open>Each turn: the read, and whether \<open>SIGINT\<close> has arrived by its end. Whatever the read
  returned, the whole buffer is written.\<close>

fun save_loop :: "int \<Rightarrow> s16 list \<Rightarrow> (dev_read \<times> bool) list \<Rightarrow> 8 word list" where
  "save_loop buffer_l buffer [] = []"
| "save_loop buffer_l buffer ((d, sigint) # ds) =
     (let buffer1 = fst (device_read buffer_l d buffer)
      in bytes_of_shorts (take (nat buffer_l) buffer1) @ (if sigint then [] else save_loop buffer_l buffer1 ds))"

text \<open>\<open>main\<close> of \<open>savetofile.c\<close>: the status and what is in the file.\<close>

definition savetofile_main ::
  "string list \<Rightarrow> bool \<Rightarrow> int \<Rightarrow> (u64 \<Rightarrow> bool) \<Rightarrow> alsa \<Rightarrow> int \<Rightarrow> (dev_read \<times> bool) list \<Rightarrow> stop + (int \<times> 8 word list)"
where
  "savetofile_main argv opened snd_open malloc a sound_chs reads =
     (if length argv \<noteq> 2 then Inr (- 1, [])
      else if \<not> opened then Inr (- 1, [])
      else if snd_open < 0 then Inr (- 1, [])
      else case input_initialize malloc a sound_chs of
             Inl e \<Rightarrow> Inl e
           | Inr (status, None) \<Rightarrow> Inr (- 1, [])
           | Inr (status, Some (buffer, buffer_l)) \<Rightarrow> Inr (0, save_loop buffer_l buffer reads))"

text \<open>In mono, reads that fill the buffer are recorded one behind the other; a read that fails has
  the block before it recorded once more.\<close>

lemma save_full_reads:
  "\<forall>(d, s)\<in>set ds. d_ret d = int l \<and> length (d_samples d) = l \<and> \<not> s \<Longrightarrow> length buf = l \<Longrightarrow>
    save_loop (int l) buf ds = bytes_of_shorts (concat (map (d_samples \<circ> fst) ds))"
proof (induction ds arbitrary: buf)
  case (Cons p ds)
  then show ?case by (cases p) (auto simp: device_read_def)
qed simp

lemma save_failed_read:
  "d_ret d < 0 \<Longrightarrow> d_samples d = [] \<Longrightarrow> save_loop (int l) buf [(d, s)] = bytes_of_shorts (take l buf)"
  by (simp add: device_read_def)

end
