(* ===== verification/Spec2Isabelle.thy ===== *)
theory Spec2Isabelle
  imports Prelude Fir_filter Fingerpori Cstrings Cjson Fpmatch Out_json Squelch Receiver Edysquelch
    Rwlock Hlog Cfgfile Cfg Cache Cjson_parse Cjson_edit Spsymbol Memory
    Sound_stream Startup Reports Out_mysql Filter_i386 Devices
begin

text \<open>
  Edysquelch: a squelch, fingerprint matcher and event exporter for voice radio.

  The program under \<open>src/src\<close> reads 48 kHz sound, filters it, decides from the level of the
  filtered signal whether a transmission is on (the squelch), compares the first 1500 samples of
  a transmission with recorded fingerprints, and posts what it found as JSON to its uplinks from
  a second thread. This library models that program in HOL, one theory for each part, and proves
  what makes each part correct.

  \<^bold>\<open>From sound to report.\<close> \<open>main\<close> (\<open>edysquelch.c\<close>) reads a block of frames and calls
  \<open>receiver_run\<close> for each receiver, which makes room in its sample buffer, runs the FIR filter
  over its channel and hands both to \<open>copy_buffer\<close> (all \<open>receiver.c\<close>). \<open>copy_buffer\<close> keeps the
  squelch: when it opens, the samples are smoothed (\<open>fingerpori.c\<close>) and searched; every opening
  and closing becomes a tree (\<open>cJSON.c\<close>), its text goes to the queue of \<open>out_json.c\<close>, and the
  exporting thread takes the queue and posts it.

  \<^item> \<^theory_text>\<open>Prelude\<close>: widths, faults as values, checked arrays, lists as delay lines, and the
    locale \<open>delay_line\<close>, the contract of a buffer that shows the last \<open>n\<close> samples fed to it.
  \<^item> \<^theory_text>\<open>Fir_filter\<close> (\<open>filter.c\<close>, \<open>filter.h\<close>): \<open>fir\<close> is \<open>struct filter\<close>, \<open>filter_run\<close> and
    \<open>filter_run_buf\<close> the routines. Their reference is the inner product of the taps with a
    window of the stream; the filter is an interpretation of \<open>delay_line\<close>.
  \<^item> \<^theory_text>\<open>Fingerpori\<close> (\<open>fingerpori.c\<close>): the moving average, the amplitude statistics, the choice
    of files and the loader.
  \<^item> \<^theory_text>\<open>Fpmatch\<close> (\<open>receiver.c\<close>, \<open>match_single\<close> and \<open>search_fingerprints\<close>): the comparison and
    the search with its table of five slots, against \<open>least_score\<close>.
  \<^item> \<^theory_text>\<open>Squelch\<close> (\<open>receiver.c\<close>, \<open>copy_buffer\<close> and the \<open>notify\<close> functions): the record \<open>squelch\<close>
    holds the statics of \<open>copy_buffer\<close>, the current event id and, as ghosts, the trees notified
    and the texts pushed. It refines the abstract squelch \<open>ctl\<close>, a level and a phase over the
    natural numbers.
  \<^item> \<^theory_text>\<open>Receiver\<close> (\<open>receiver.c\<close>, \<open>receiver.h\<close>): the receiver, its coefficient tables and its
    sample buffer, against one run over the stream.
  \<^item> \<^theory_text>\<open>Edysquelch\<close> (\<open>edysquelch.c\<close>): the read loop with one or two receivers.
    \<^theory_text>\<open>Input\<close> (\<open>input.c\<close>, \<open>hmalloc.c\<close>): the sound device and \<open>fread\<close>. \<^theory_text>\<open>Startup\<close>: the
    whole of \<open>main\<close>, \<open>edy_main\<close>, from the command line to the exit status, over the record
    \<open>world\<close> of what the system answers.
  \<^item> \<^theory_text>\<open>Cjson_parse\<close> (\<open>cJSON.c\<close>): the parser, over a parameter of double arithmetic
    (\<open>dops\<close>); it reads back what the printer wrote.
  \<^item> \<^theory_text>\<open>Cjson\<close> (\<open>cJSON.c\<close>): trees, their construction, and the printer with the sizes it
    allocates. \<^theory_text>\<open>Out_json\<close> (\<open>out_json.c\<close>): the queue as cells on a heap with the pointer to
    the tail, an interpretation of the locale \<open>message_queue\<close>; \<open>jstep\<close> interleaves the program
    and the exporting thread.
  \<^item> \<^theory_text>\<open>Rwlock\<close> (\<open>rwlock.c\<close>): the critical sections of the read-write lock and the system of
    threads \<open>rw_step\<close> that run them. \<^theory_text>\<open>Hlog\<close> (\<open>hlog.c\<close>): messages, destinations, opening and
    closing. \<^theory_text>\<open>Cfgfile\<close> (\<open>cfgfile.c\<close>): the parser of lines into arguments and the dispatch of
    commands. \<^theory_text>\<open>Cfg\<close> (\<open>cfg.c\<close>): directives, defaults, command line. \<^theory_text>\<open>Cstrings\<close>: the C
    library's string functions the others call.
  \<^item> \<^theory_text>\<open>Spheap\<close>, \<^theory_text>\<open>Splay\<close>, \<^theory_text>\<open>Spenq\<close>, \<^theory_text>\<open>Sptree\<close> (\<open>splay.c\<close>, \<open>splay.h\<close>): splay trees as linked
    blocks in an explicit memory; \<open>rep\<close> ties blocks to the tree they form. \<^theory_text>\<open>Spmap\<close> and
    \<^theory_text>\<open>Spwalk\<close> hold what the operations keep, \<^theory_text>\<open>Spstore\<close> the contract \<open>block_store\<close> of the whole,
    a table from keys to data, with the trees in memory as its interpretation.
  \<^item> \<^theory_text>\<open>Cache\<close> (\<open>cache.c\<close>): the table of ships, a client of \<open>block_store\<close>, against what the
    messages said.
  \<^item> \<^theory_text>\<open>Crc32\<close> (\<open>crc32.c\<close>) and \<^theory_text>\<open>Spsymbol\<close> (\<open>spsymbol.c\<close>): the symbol table, hash chains of
    entries below the splay trees, again a client of \<open>block_store\<close>; its operations against a set
    of strings, each at an address of its own.
  \<^item> \<^theory_text>\<open>Reports\<close>: the schemas of the reports, and that the parser reads back what is posted.
    \<^theory_text>\<open>Out_mysql\<close> (\<open>out_mysql.c\<close>): the statements for the database and when they are sent, over a
    record of the client library's functions.
  \<^item> \<^theory_text>\<open>Filter_i386\<close> (\<open>filter-i386.h\<close>): the inner product in x87 assembly, as a program for a
    stack of registers, against the loop of \<open>filter.c\<close>. \<^theory_text>\<open>Devices\<close> (\<open>serial.c\<close>,
    \<open>pulseaudio.c\<close>, \<open>savetofile.c\<close>): the devices outside the program.
  \<^item> \<^theory_text>\<open>Sound_stream\<close>: the main loop with one receiver as one run over what it hears, and so the
    refinement of the whole program to the abstract squelch, wherever the reads cut the sound.
  \<^item> \<^theory_text>\<open>Cjson_heap\<close>, \<^theory_text>\<open>Cjson_links\<close>, \<^theory_text>\<open>Cjson_edit\<close> (\<open>cJSON.c\<close> again): the trees of \<^theory_text>\<open>Cjson\<close>
    as linked nodes and strings in memory. \<open>loose\<close> describes a memory made of some trees apart from
    each other and from the rest; each operation of the library goes from one such memory to
    another, \<open>cJSON_Delete\<close> included, and \<open>edits_mem\<close> runs them in any order. \<^theory_text>\<open>Reports\<close> shows that
    a report is built and deleted without a trace.
  \<^item> \<^theory_text>\<open>Memory\<close> (\<open>hmalloc.c\<close>): the blocks behind filters, receivers, fingerprints and appended
    strings; what is taken is given back, on the error paths too.

  \<^bold>\<open>How code becomes definitions.\<close> Structs are records, C integers are words of their width
  (\<open>u64\<close> for \<open>unsigned long\<close>, \<open>s16\<close> for \<open>short\<close>) or \<open>int\<close> where the code cannot leave the range;
  loops are recursive functions whose termination is proved. Undefined behaviour and \<open>abort()\<close>
  are values: a function that can reach them returns \<open>'a res\<close>, a fault or a result, so every
  theorem that says a function returns \<open>Inr\<close> also says that no access left its array, nothing
  was divided by zero and no null pointer was followed.

  \<^bold>\<open>Parameters.\<close> What is not in the repository is an argument of the definitions: the operations
  on \<open>float\<close> (\<open>fops\<close>), the file system and its directory order, the clock and the uninitialised
  stack of \<open>copy_buffer\<close> (\<open>sql_env\<close>), what the sound device delivers, the answers of libcurl,
  of \<open>getopt\<close> and of the system calls of the logger.

  \<^bold>\<open>What the theorems show.\<close> Safety of the whole program on files and devices
  (\<open>file_run_completes\<close>, \<open>device_run_safe\<close>) and where it ends badly (\<open>long_period_aborts\<close>,
  \<open>no_directory_faults\<close>), the types of the reports and that they can be read
  (\<open>reports_well_typed\<close>, \<open>posted_reports_parse\<close>), the refinement of blocks
  to a stream (\<open>receiver_stream\<close>), of the whole loop (\<open>program_refines_squelch\<close>) and of the squelch to its abstract machine
  (\<open>squelch_refinement\<close>), the pairing of reports (\<open>reports_paired\<close>) and their way into the queue
  and out of it (\<open>reports_reach_queue\<close>, \<open>export_in_order\<close>), that the squelch reacts in bounded
  time (\<open>opens_on_silence\<close>, \<open>closes_on_noise\<close>), the search and its limit of five matches
  (\<open>search_reports_best\<close>, \<open>search_overruns_table\<close>), the filter, the loader, the lock, the logger
  and the configuration.

  \<^bold>\<open>Bounds.\<close> The level loses a fixed share with every sample, hence 25030 samples of silence
  bring the greatest level \<open>LEVEL_MAX\<close> under the threshold of opening, and 40816 samples of at
  least 3500 bring any level over that of closing; both allow for the fifteen samples between
  two tests. The table of matches has five slots and overruns at the sixth; \<open>fps_ok\<close> asks for
  at most five fingerprints, none of them empty, none so long that its score would leave an
  \<open>int\<close>. A loop that may not end is a partial function with \<open>None\<close> for not
  ending, and the theorems about it say that it ends; only the JSON parser takes fuel, and
  \<open>parse_always_answers\<close> shows that what \<open>cJSON_Parse\<close> gives it, twice the length of the text, is
  enough.

  \<^bold>\<open>Left out.\<close> Output to \<open>stderr\<close>, the statistics text of \<open>sp_stats\<close>, the pointer to a JSON parse
  error and the printing of fractions in \<open>cJSON.c\<close>, and the web front end. Except in
  \<^theory_text>\<open>Memory\<close>, \<^theory_text>\<open>Input\<close> and \<^theory_text>\<open>Cjson_edit\<close>, memory allocation succeeds (\<open>hmalloc.c\<close> ends the
  process when it does not) and what frees only frees.
\<close>

section \<open>Properties across components\<close>

text \<open>A position of the search before the length of the fingerprint compares it with the
  memory in front of the array: for position 0 the array does not matter at all.\<close>

lemma search_reads_before_array:
  "pos_sum fp (\<lambda>i. if i < 0 then before i else inside i) 0 = pos_sum fp (\<lambda>i. if i < 0 then before i else inside2 i) 0"
proof -
  have "match_term (fp_samples fp) (at_ofs (\<lambda>i. if i < 0 then before i else inside i) (int 0 - int (fp_len fp))) k
      = match_term (fp_samples fp) (at_ofs (\<lambda>i. if i < 0 then before i else inside2 i) (int 0 - int (fp_len fp))) k"
    if "k < fp_len fp" for k
    using that by (simp add: match_term_def at_ofs_def)
  then show ?thesis by (simp add: pos_sum_def match_sum_def)
qed

text \<open>C8. End to end: whatever the sound, the texts the main loop hands to the exporter all
  exist, are the printed forms of the reports, and the exporter's queue takes them without a
  fault and holds exactly them, in order.\<close>

theorem reports_reach_queue:
  assumes "list_all (input_ok chs) is" "fps_ok fps"
  shows "\<exists>p1 q. main_loop ops fps env lv chs from_file sound_out is (start_receivers ops chs) = Inr p1
    \<and> ojq.push_all outq_init (outbox (sq p1)) = Inr q
    \<and> pending q = map cJSON_PrintUnformatted (trees (sq p1)) \<and> None \<notin> set (pending q)"
proof -
  obtain p1 where p1: "main_loop ops fps env lv chs from_file sound_out is (start_receivers ops chs) = Inr p1"
    "program_ok chs p1"
    using main_loop_ok [OF program_ok_start [where ops = ops] assms, of ops env lv from_file sound_out] by blast
  obtain q where "ojq.push_all outq_init (outbox (sq p1)) = Inr q" "pending q = outbox (sq p1)"
    using ojq.push_all_ok [OF outq_ok_init, of "outbox (sq p1)"] pending_init by auto
  then show ?thesis
    using p1 reports_ok_outbox [of "sq p1"] by (auto simp: program_ok_def reports_ok_def)
qed

theorem reports_reach_queue_witness:
  "\<exists>p1 q. main_loop int_fops [] still_env 0 SOUND_CHANNELS_MONO True True silence
      (start_receivers int_fops SOUND_CHANNELS_MONO) = Inr p1
    \<and> ojq.push_all outq_init (outbox (sq p1)) = Inr q \<and> pending q \<noteq> [] \<and> None \<notin> set (pending q)"
  using reports_reach_queue [OF silence_ok(1) fps_ok_Nil, of int_fops still_env 0 True True] silence_trees
  by fastforce

end
